(* ===== verification/Prelude.thy ===== *)
theory Prelude
  imports Main "HOL-Library.AList" "HOL-Library.Multiset"
begin

text \<open>
  Shared vocabulary of the development: the types that stand for Go's own types, the
  \<^emph>\<open>named collections\<close> the component theories extend, and the generic lemmas on
  association lists and sums that they share.

  A Go string and a Go byte slice are both sequences of bytes, hence \<open>string\<close> (HOL's
  \<open>char\<close> has 256 values). A Go map is an association list with distinct keys: look-up is
  \<open>map_of\<close>, assignment \<open>AList.update\<close> and \<open>delete\<close> is \<open>AList.delete\<close>. Go iterates over
  a map in an unspecified order; a \<open>range\<close> loop is therefore defined over an explicit list
  of pairs, and the component theories show that its result does not depend on the order.
\<close>

type_synonym bytes = string
type_synonym ('k, 'v) gomap = "('k \<times> 'v) list"

text \<open>
  Instants (\<open>time.Time\<close>) and durations (\<open>time.Duration\<close>) count nanoseconds. The zero
  \<open>time.Time\<close> is the instant \<open>0\<close>, so \<open>IsZero\<close> is a comparison with \<open>0\<close>.
\<close>

type_synonym time = int
type_synonym duration = int

abbreviation (input) nanosecond :: duration where "nanosecond \<equiv> 1"
abbreviation millisecond :: duration where "millisecond \<equiv> 1000000"
abbreviation second :: duration where "second \<equiv> 1000000000"

text \<open>Two's complement wrap-around of Go's \<open>int64\<close>.\<close>

definition wrap64 :: "int \<Rightarrow> int" where
  "wrap64 x = (x + 2 ^ 63) mod 2 ^ 64 - 2 ^ 63"

named_theorems store_simps \<open>operations of the cache store\<close>
named_theorems inv_intros \<open>preservation of component invariants\<close>

lemma wrap64_id: "- (2 ^ 63) \<le> x \<Longrightarrow> x < 2 ^ 63 \<Longrightarrow> wrap64 x = x"
  by (simp add: wrap64_def)

lemma wrap64_range: "- (2 ^ 63) \<le> wrap64 x \<and> wrap64 x < 2 ^ 63"
proof -
  have "0 \<le> (x + 2 ^ 63) mod 2 ^ 64" and "(x + 2 ^ 63) mod 2 ^ 64 < (2 ^ 64 :: int)"
    by simp_all
  then show ?thesis by (simp add: wrap64_def)
qed

lemma map_of_update [simp]: "map_of (AList.update k v m) = (map_of m)(k \<mapsto> v)"
  by (rule update_conv')

lemma map_of_delete_fun [simp]: "map_of (AList.delete k m) = (map_of m)(k := None)"
  by (rule delete_conv')

lemma map_of_map_key:
  "map_of (map (\<lambda>x. (f x, x)) xs) k = Some x \<Longrightarrow> x \<in> set xs \<and> f x = k"
  by (induction xs) (auto split: if_splits)

lemma map_of_map_key_None:
  "map_of (map (\<lambda>x. (f x, x)) xs) k = None \<longleftrightarrow> k \<notin> f ` set xs"
  by (induction xs) auto

lemma map_of_map_key_mem:
  "distinct (map f xs) \<Longrightarrow> x \<in> set xs \<Longrightarrow> map_of (map (\<lambda>x. (f x, x)) xs) (f x) = Some x"
  by (induction xs) (auto simp: image_iff)

lemma map_of_map_key_filter:
  assumes "distinct (map f xs)" and "x \<in> set xs"
  shows "map_of (map (\<lambda>x. (f x, x)) (filter (\<lambda>y. f y \<noteq> f x) xs)) =
    (map_of (map (\<lambda>x. (f x, x)) xs))(f x := None)"
  by (rule ext, induction xs) auto

lemma sum_list_filter_remove:
  fixes g :: "'a \<Rightarrow> int"
  assumes "distinct xs" and "x \<in> set xs"
  shows "sum_list (map g (filter (\<lambda>y. y \<noteq> x) xs)) = sum_list (map g xs) - g x"
  using assms
proof (induction xs)
  case (Cons y ys)
  show ?case
  proof (cases "y = x")
    case True
    with Cons.prems have "filter (\<lambda>z. z \<noteq> x) ys = ys" by (auto simp: filter_id_conv)
    with True show ?thesis by simp
  next
    case False
    with Cons show ?thesis by simp
  qed
qed simp

lemma takeWhile_sep [simp]: "c \<notin> set l \<Longrightarrow> takeWhile (\<lambda>x. x \<noteq> c) (l @ c # r) = l"
  by (induction l) auto

lemma dropWhile_sep [simp]: "c \<notin> set l \<Longrightarrow> dropWhile (\<lambda>x. x \<noteq> c) (l @ c # r) = c # r"
  by (induction l) auto

lemma find_SomeD: "find P xs = Some x \<Longrightarrow> x \<in> set xs \<and> P x"
  by (auto simp: find_Some_iff)

lemma filter_distinct_key:
  "distinct (map f xs) \<Longrightarrow> x \<in> set xs \<Longrightarrow>
   filter (\<lambda>y. f y \<noteq> f x) xs = filter (\<lambda>y. y \<noteq> x) xs"
  by (intro filter_cong) (auto simp: distinct_map inj_on_def)

end
