(* ===== verification/Cache_Store.thy ===== *)
theory Cache_Store
  imports Prelude
begin

text \<open>
  The in-memory store of \<^verbatim>\<open>src/internal/cache/store.go\<close>: a map from keys to elements of
  a doubly linked list that is kept in order of use, with a byte budget and expiration times.

  An element of \<open>container/list\<close> is a pointer to a cell that holds an \<open>*entry\<close>. The code
  fills an entry before it is linked and never changes it afterwards, so a cell is the pair of its
  identity (allocated by \<open>PushFront\<close>) and its entry; \<open>elem.Value\<close> is the second component and
  \<open>Remove\<close>, \<open>MoveToFront\<close> compare identities, as pointers do. Every operation holds the mutex
  for its whole body, so it is one step of the state. The clock \<open>cfg.Now\<close> is read at most
  once by an operation; its reading is the argument \<open>now\<close>.
\<close>

section \<open>Model\<close>

datatype store_error = ErrEntryTooLarge | ErrMemoryLimit

record store_config =
  MaxBytes :: int
  CleanupInterval :: duration

definition DefaultStoreConfig :: store_config where
  "DefaultStoreConfig = \<lparr>MaxBytes = 0, CleanupInterval = second\<rparr>"

record entry =
  e_key :: string
  e_value :: bytes
  e_expiresAt :: time

type_synonym element = "nat \<times> entry"

abbreviation elem_Value :: "element \<Rightarrow> entry" where
  "elem_Value \<equiv> snd"

abbreviation elem_key :: "element \<Rightarrow> string" where
  "elem_key e \<equiv> e_key (snd e)"

record Store =
  store_cfg :: store_config
  entries :: "(string, element) gomap"
  lru :: "element list"
  memoryBytes :: int
  next_elem :: nat

text \<open>The operations of \<open>container/list\<close> that the store uses, front of the list first.\<close>

definition list_Remove :: "element \<Rightarrow> element list \<Rightarrow> element list" where
  "list_Remove e l = filter (\<lambda>x. fst x \<noteq> fst e) l"

definition list_MoveToFront :: "element \<Rightarrow> element list \<Rightarrow> element list" where
  "list_MoveToFront e l = e # list_Remove e l"

definition list_Back :: "element list \<Rightarrow> element option" where
  "list_Back l = (if l = [] then None else Some (last l))"

definition NewStore :: "store_config \<Rightarrow> Store" where
  "NewStore c =
     \<lparr>store_cfg = (if CleanupInterval c \<le> 0 then c\<lparr>CleanupInterval := second\<rparr> else c),
      entries = [], lru = [], memoryBytes = 0, next_elem = 0\<rparr>"

definition entrySize :: "string \<Rightarrow> bytes \<Rightarrow> int" where
  "entrySize key val = int (length key + length val)"

definition isExpired :: "time \<Rightarrow> entry \<Rightarrow> bool" where
  "isExpired now item = (if e_expiresAt item = 0 then False else \<not> now < e_expiresAt item)"

definition removeElement :: "element \<Rightarrow> Store \<Rightarrow> Store" where
  "removeElement elem s =
     (let item = elem_Value elem in
      s\<lparr>memoryBytes := memoryBytes s - entrySize (e_key item) (e_value item),
        lru := list_Remove elem (lru s),
        entries := AList.delete (e_key item) (entries s)\<rparr>)"

lemma list_Back_Some: "list_Back l = Some e \<Longrightarrow> l \<noteq> [] \<and> e = last l"
  by (auto simp: list_Back_def split: if_splits)

lemma length_list_Remove_last: "l \<noteq> [] \<Longrightarrow> length (list_Remove (last l) l) < length l"
  unfolding list_Remove_def by (rule length_filter_less [of "last l"]) auto

function ensureCapacity :: "int \<Rightarrow> Store \<Rightarrow> Store" where
  "ensureCapacity needed s =
     (if 0 < MaxBytes (store_cfg s) \<and> MaxBytes (store_cfg s) < memoryBytes s + needed
      then (case list_Back (lru s) of
              None \<Rightarrow> s
            | Some oldest \<Rightarrow> ensureCapacity needed (removeElement oldest s))
      else s)"
  by pat_completeness auto
termination
  by (relation "measure (\<lambda>(_, s). length (lru s))")
     (auto simp: removeElement_def Let_def dest!: list_Back_Some intro: length_list_Remove_last)

declare ensureCapacity.simps [simp del]

definition store_Set ::
  "time \<Rightarrow> string \<Rightarrow> bytes \<Rightarrow> duration \<Rightarrow> Store \<Rightarrow> Store \<times> store_error option" where
  "store_Set now key val ttl s =
     (let s1 = (case map_of (entries s) key of
                  Some elem \<Rightarrow> removeElement elem s
                | None \<Rightarrow> s);
          size = entrySize key val
      in if 0 < MaxBytes (store_cfg s1) \<and> MaxBytes (store_cfg s1) < size
         then (s1, Some ErrEntryTooLarge)
         else
           let s2 = ensureCapacity size s1
           in if 0 < MaxBytes (store_cfg s2) \<and> MaxBytes (store_cfg s2) < memoryBytes s2 + size
              then (s2, Some ErrMemoryLimit)
              else
                let item = \<lparr>e_key = key, e_value = val,
                            e_expiresAt = (if 0 < ttl then now + ttl else 0)\<rparr>;
                    elem = (next_elem s2, item)
                in (s2\<lparr>lru := elem # lru s2, next_elem := Suc (next_elem s2),
                       entries := AList.update key elem (entries s2),
                       memoryBytes := memoryBytes s2 + size\<rparr>, None))"

definition store_Get :: "time \<Rightarrow> string \<Rightarrow> Store \<Rightarrow> Store \<times> bytes option" where
  "store_Get now key s =
     (case map_of (entries s) key of
        None \<Rightarrow> (s, None)
      | Some elem \<Rightarrow>
          (if isExpired now (elem_Value elem) then (removeElement elem s, None)
           else (s\<lparr>lru := list_MoveToFront elem (lru s)\<rparr>, Some (e_value (elem_Value elem)))))"

definition store_Delete :: "time \<Rightarrow> string \<Rightarrow> Store \<Rightarrow> Store \<times> bool" where
  "store_Delete now key s =
     (case map_of (entries s) key of
        None \<Rightarrow> (s, False)
      | Some elem \<Rightarrow>
          (if isExpired now (elem_Value elem) then (removeElement elem s, False)
           else (removeElement elem s, True)))"

definition store_Len :: "Store \<Rightarrow> nat" where
  "store_Len s = length (entries s)"

definition store_MemoryBytes :: "Store \<Rightarrow> int" where
  "store_MemoryBytes s = memoryBytes s"

text \<open>
  The scan ranges over the map \<open>entries\<close> in whatever order the runtime picks:
  \<open>expired_elements now ps\<close> collects along the order \<open>ps\<close>.
\<close>

primrec expired_elements :: "time \<Rightarrow> (string \<times> element) list \<Rightarrow> element list" where
  "expired_elements now [] = []"
| "expired_elements now (p # ps) =
     (let item = elem_Value (snd p)
      in if e_expiresAt item = 0 \<or> now < e_expiresAt item then expired_elements now ps
         else snd p # expired_elements now ps)"

definition cleanupExpired_range ::
  "time \<Rightarrow> (string \<times> element) list \<Rightarrow> Store \<Rightarrow> Store" where
  "cleanupExpired_range now ps s = fold removeElement (expired_elements now ps) s"

definition cleanupExpired :: "time \<Rightarrow> Store \<Rightarrow> Store" where
  "cleanupExpired now s = cleanupExpired_range now (entries s) s"

text \<open>The background worker: what its \<open>select\<close> receives, in order.\<close>

datatype cleanup_event = CtxDone | TickerC time

primrec RunCleanup :: "cleanup_event list \<Rightarrow> Store \<Rightarrow> Store" where
  "RunCleanup [] s = s"
| "RunCleanup (ev # evs) s =
     (case ev of
        CtxDone \<Rightarrow> s
      | TickerC now \<Rightarrow> RunCleanup evs (cleanupExpired now s))"

section \<open>Invariant\<close>

definition keyed :: "element list \<Rightarrow> (string \<times> element) list" where
  "keyed l = map (\<lambda>e. (elem_key e, e)) l"

definition lru_bytes :: "element list \<Rightarrow> int" where
  "lru_bytes l = sum_list (map (\<lambda>e. entrySize (elem_key e) (e_value (snd e))) l)"

definition store_wf :: "Store \<Rightarrow> bool" where
  "store_wf s \<longleftrightarrow>
     distinct (map fst (lru s)) \<and> distinct (map elem_key (lru s)) \<and>
     (\<forall>e \<in> set (lru s). fst e < next_elem s) \<and>
     distinct (map fst (entries s)) \<and> map_of (entries s) = map_of (keyed (lru s)) \<and>
     memoryBytes s = lru_bytes (lru s)"

definition within_limit :: "Store \<Rightarrow> bool" where
  "within_limit s \<longleftrightarrow> (0 < MaxBytes (store_cfg s) \<longrightarrow> memoryBytes s \<le> MaxBytes (store_cfg s))"

definition store_inv :: "Store \<Rightarrow> bool" where
  "store_inv s \<longleftrightarrow> store_wf s \<and> within_limit s"


text \<open>What a reader of the store sees at an instant: the bindings that have not expired.\<close>

definition live :: "time \<Rightarrow> Store \<Rightarrow> string \<Rightarrow> bytes option" where
  "live now s k =
     (case map_of (entries s) k of
        None \<Rightarrow> None
      | Some e \<Rightarrow> (if isExpired now (elem_Value e) then None else Some (e_value (elem_Value e))))"

section \<open>Abstract specification\<close>

text \<open>
  The contract of the store, with no map, pointers or counters: the bindings in order of use,
  the most recent first. \<open>keep b its\<close> is the longest prefix of \<open>its\<close> that fits \<open>b\<close> bytes.
\<close>

abbreviation item_size :: "entry \<Rightarrow> int" where
  "item_size i \<equiv> entrySize (e_key i) (e_value i)"

fun keep :: "int \<Rightarrow> entry list \<Rightarrow> entry list" where
  "keep b [] = []"
| "keep b (i # its) = (if item_size i \<le> b then i # keep (b - item_size i) its else [])"

definition others :: "string \<Rightarrow> entry list \<Rightarrow> entry list" where
  "others k its = filter (\<lambda>i. e_key i \<noteq> k) its"

definition spec_Set ::
  "int \<Rightarrow> time \<Rightarrow> string \<Rightarrow> bytes \<Rightarrow> duration \<Rightarrow> entry list \<Rightarrow> entry list \<times> store_error option" where
  "spec_Set limit now k v ttl its =
     (let size = entrySize k v;
          i = \<lparr>e_key = k, e_value = v, e_expiresAt = (if 0 < ttl then now + ttl else 0)\<rparr>
      in if limit \<le> 0 then (i # others k its, None)
         else if limit < size then (others k its, Some ErrEntryTooLarge)
         else (i # keep (limit - size) (others k its), None))"

definition spec_Get :: "time \<Rightarrow> string \<Rightarrow> entry list \<Rightarrow> entry list \<times> bytes option" where
  "spec_Get now k its =
     (case find (\<lambda>i. e_key i = k) its of
        None \<Rightarrow> (its, None)
      | Some i \<Rightarrow> (if isExpired now i then (others k its, None)
                   else (i # others k its, Some (e_value i))))"

definition spec_Delete :: "time \<Rightarrow> string \<Rightarrow> entry list \<Rightarrow> entry list \<times> bool" where
  "spec_Delete now k its =
     (others k its, (\<exists>i \<in> set its. e_key i = k \<and> \<not> isExpired now i))"

definition items :: "Store \<Rightarrow> entry list" where
  "items s = map elem_Value (lru s)"

section \<open>Lemmas\<close>

subsection \<open>Unlinking one element\<close>

lemma list_Remove_mem:
  "distinct (map fst l) \<Longrightarrow> e \<in> set l \<Longrightarrow> list_Remove e l = filter (\<lambda>x. x \<noteq> e) l"
  unfolding list_Remove_def by (rule filter_distinct_key)

lemma removeElement_simps [simp]:
  "store_cfg (removeElement e s) = store_cfg s"
  "next_elem (removeElement e s) = next_elem s"
  "lru (removeElement e s) = list_Remove e (lru s)"
  "entries (removeElement e s) = AList.delete (elem_key e) (entries s)"
  "memoryBytes (removeElement e s) = memoryBytes s - item_size (snd e)"
  by (simp_all add: removeElement_def Let_def)

lemma store_wfD:
  assumes "store_wf s"
  shows "distinct (map fst (lru s))" and "distinct (map elem_key (lru s))"
    and "map_of (entries s) = map_of (keyed (lru s))" and "distinct (map fst (entries s))"
    and "memoryBytes s = lru_bytes (lru s)" and "\<And>e. e \<in> set (lru s) \<Longrightarrow> fst e < next_elem s"
  using assms by (auto simp: store_wf_def)

lemma distinct_lru: "store_wf s \<Longrightarrow> distinct (lru s)"
  by (metis store_wfD(1) distinct_map)

lemma removeElement_keys:
  assumes "store_wf s" and "e \<in> set (lru s)"
  shows "lru (removeElement e s) = filter (\<lambda>x. elem_key x \<noteq> elem_key e) (lru s)"
  using assms store_wfD(1,2) [OF assms(1)]
  by (simp add: list_Remove_mem filter_distinct_key [of elem_key])

lemma removeElement_wf [inv_intros]:
  assumes wf: "store_wf s" and e: "e \<in> set (lru s)"
  shows "store_wf (removeElement e s)"
proof -
  note d = store_wfD [OF wf]
  have l: "lru (removeElement e s) = filter (\<lambda>x. x \<noteq> e) (lru s)"
    using d(1) e by (simp add: list_Remove_mem)
  have m: "map_of (entries (removeElement e s)) = map_of (keyed (lru (removeElement e s)))"
    unfolding removeElement_keys [OF wf e] keyed_def
    using map_of_map_key_filter [OF d(2) e] d(3) by (simp add: keyed_def)
  have b: "memoryBytes (removeElement e s) = lru_bytes (lru (removeElement e s))"
    using sum_list_filter_remove [OF distinct_lru [OF wf] e] d(5)
    by (simp add: l lru_bytes_def del: removeElement_simps(3))
  show ?thesis
    using d(1,2,6) m b d(4)
    unfolding store_wf_def l
    by (simp add: distinct_map_filter distinct_delete)
qed

lemma entrySize_nonneg: "0 \<le> entrySize k v"
  by (simp add: entrySize_def)

lemma removeElement_limit [inv_intros]: "within_limit s \<Longrightarrow> within_limit (removeElement e s)"
  using entrySize_nonneg [of "elem_key e" "e_value (snd e)"]
  by (auto simp: within_limit_def)

lemma map_of_entries_mem:
  assumes "store_wf s" and "map_of (entries s) k = Some e"
  shows "e \<in> set (lru s)" and "elem_key e = k"
  using assms map_of_map_key [of elem_key "lru s" k e]
  by (auto simp: store_wfD(3) keyed_def)

lemma items_remove:
  "store_wf s \<Longrightarrow> e \<in> set (lru s) \<Longrightarrow> items (removeElement e s) = others (elem_key e) (items s)"
  unfolding items_def others_def removeElement_keys by (simp add: filter_map comp_def)

subsection \<open>Eviction\<close>

lemma keep_all: "sum_list (map item_size its) \<le> b \<Longrightarrow> keep b its = its"
proof (induction its arbitrary: b)
  case (Cons i its)
  have "0 \<le> sum_list (map item_size its)"
    by (rule sum_list_nonneg) (auto simp: entrySize_nonneg)
  with Cons show ?case by simp
qed simp

lemma keep_snoc:
  "b < sum_list (map item_size (its @ [i])) \<Longrightarrow> keep b (its @ [i]) = keep b its"
  by (induction its arbitrary: b) auto

lemma keep_fits: "0 \<le> b \<Longrightarrow> sum_list (map item_size (keep b its)) \<le> b"
proof (induction b its rule: keep.induct)
  case (2 b i its)
  then show ?case by simp linarith
qed simp

lemma keep_prefix: "\<exists>n. keep b its = take n its"
proof (induction b its rule: keep.induct)
  case (2 b i its)
  show ?case
  proof (cases "item_size i \<le> b")
    case True
    with 2 obtain n where "keep (b - item_size i) its = take n its" by blast
    with True have "keep b (i # its) = take (Suc n) (i # its)" by simp
    then show ?thesis ..
  next
    case False
    then have "keep b (i # its) = take 0 (i # its)" by simp
    then show ?thesis ..
  qed
qed simp

lemma filter_neq_last: "distinct l \<Longrightarrow> l \<noteq> [] \<Longrightarrow> filter (\<lambda>x. x \<noteq> last l) l = butlast l"
  by (cases l rule: rev_cases) (auto simp: filter_id_conv)

lemma ensureCapacity_wf [inv_intros]:
  "store_wf s \<Longrightarrow> store_wf (ensureCapacity needed s)"
proof (induction needed s rule: ensureCapacity.induct)
  case (1 needed s)
  show ?case
  proof (cases "0 < MaxBytes (store_cfg s) \<and> MaxBytes (store_cfg s) < memoryBytes s + needed")
    case True
    show ?thesis
    proof (cases "list_Back (lru s)")
      case None
      with True 1 show ?thesis by (simp add: ensureCapacity.simps [of needed s])
    next
      case (Some e)
      then have "e \<in> set (lru s)" by (auto dest: list_Back_Some)
      with 1 True Some have "store_wf (ensureCapacity needed (removeElement e s))"
        by (auto intro: inv_intros)
      with True Some show ?thesis by (simp add: ensureCapacity.simps [of needed s])
    qed
  next
    case False
    with 1 show ?thesis by (auto simp: ensureCapacity.simps [of needed s])
  qed
qed

lemma ensureCapacity_frame [simp]:
  "store_cfg (ensureCapacity needed s) = store_cfg s"
  "next_elem (ensureCapacity needed s) = next_elem s"
  by (induction needed s rule: ensureCapacity.induct;
      subst ensureCapacity.simps; simp split: option.split)+

lemma memoryBytes_items: "store_wf s \<Longrightarrow> memoryBytes s = sum_list (map item_size (items s))"
  by (simp add: store_wf_def lru_bytes_def items_def comp_def)

text \<open>Eviction drops elements from the back until the rest fits, and no more than that.\<close>

lemma ensureCapacity_items:
  assumes "store_wf s"
  shows "items (ensureCapacity needed s) =
    (if 0 < MaxBytes (store_cfg s) then keep (MaxBytes (store_cfg s) - needed) (items s) else items s)"
  using assms
proof (induction needed s rule: ensureCapacity.induct)
  case (1 needed s)
  let ?max = "MaxBytes (store_cfg s)"
  show ?case
  proof (cases "0 < ?max \<and> ?max < memoryBytes s + needed")
    case over: True
    show ?thesis
    proof (cases "lru s" rule: rev_cases)
      case Nil
      with over show ?thesis
        by (simp add: ensureCapacity.simps [of needed s] list_Back_def items_def)
    next
      case (snoc l e)
      then have bk: "list_Back (lru s) = Some e" and mem: "e \<in> set (lru s)"
        by (simp_all add: list_Back_def)
      have "lru (removeElement e s) = l"
        using snoc mem distinct_lru [OF 1(2)] store_wfD(1) [OF 1(2)] filter_neq_last [of "lru s"]
        by (simp add: list_Remove_mem)
      then have rm: "items (removeElement e s) = map snd l" by (simp add: items_def)
      have "ensureCapacity needed s = ensureCapacity needed (removeElement e s)"
        using over bk by (simp add: ensureCapacity.simps [of needed s])
      moreover have "keep (?max - needed) (items s) = keep (?max - needed) (map snd l)"
        using over keep_snoc [of "?max - needed" "map snd l" "snd e"] memoryBytes_items [OF 1(2)]
        by (simp add: items_def snoc)
      ultimately show ?thesis
        using 1(1) [OF over bk removeElement_wf [OF 1(2) mem]] over rm by simp
    qed
  next
    case False
    then show ?thesis
      using keep_all [of "items s" "?max - needed"] memoryBytes_items [OF 1(2)]
      by (auto simp: ensureCapacity.simps [of needed s])
  qed
qed

subsection \<open>The operations keep the invariant\<close>

lemma keep_subset: "set (keep b its) \<subseteq> set its"
  using keep_prefix [of b its] by (metis set_take_subset)

lemma ensureCapacity_items_subset: "store_wf s \<Longrightarrow> set (items (ensureCapacity n s)) \<subseteq> set (items s)"
  using keep_subset by (auto simp: ensureCapacity_items)

lemma others_idem: "i \<in> set (others k its) \<longleftrightarrow> i \<in> set its \<and> e_key i \<noteq> k"
  by (auto simp: others_def)

text \<open>The first statement of \<open>Set\<close>: an existing element of the key is unlinked.\<close>

definition without :: "string \<Rightarrow> Store \<Rightarrow> Store" where
  "without key s =
     (case map_of (entries s) key of Some elem \<Rightarrow> removeElement elem s | None \<Rightarrow> s)"

lemma without_frame [simp]:
  "store_cfg (without k s) = store_cfg s" "next_elem (without k s) = next_elem s"
  by (simp_all add: without_def split: option.split)

lemma without_wf [inv_intros]: "store_wf s \<Longrightarrow> store_wf (without k s)"
  by (auto simp: without_def dest: map_of_entries_mem intro: inv_intros split: option.split)

lemma without_limit [inv_intros]: "within_limit s \<Longrightarrow> within_limit (without k s)"
  by (auto simp: without_def intro: inv_intros split: option.split)

lemma items_without: "store_wf s \<Longrightarrow> items (without k s) = others k (items s)"
proof (cases "map_of (entries s) k")
  case None
  assume "store_wf s"
  with None have "k \<notin> elem_key ` set (lru s)"
    by (simp add: store_wfD(3) keyed_def map_of_map_key_None)
  then have "others k (items s) = items s"
    unfolding others_def items_def filter_id_conv by auto
  with None show ?thesis by (simp add: without_def)
next
  case (Some e)
  assume wf: "store_wf s"
  from map_of_entries_mem [OF wf Some] Some show ?thesis
    by (simp add: without_def items_remove [OF wf])
qed

lemma entries_without: "store_wf s \<Longrightarrow> map_of (entries (without k s)) = (map_of (entries s))(k := None)"
  by (auto simp: without_def dest: map_of_entries_mem split: option.split)

text \<open>The last statements of \<open>Set\<close>: a fresh element is linked at the front.\<close>

definition link :: "string \<Rightarrow> entry \<Rightarrow> Store \<Rightarrow> Store" where
  "link key item s =
     s\<lparr>lru := (next_elem s, item) # lru s, next_elem := Suc (next_elem s),
       entries := AList.update key (next_elem s, item) (entries s),
       memoryBytes := memoryBytes s + item_size item\<rparr>"

lemma link_wf [inv_intros]:
  assumes "store_wf s" and "e_key item = key" and "\<forall>i \<in> set (items s). e_key i \<noteq> key"
  shows "store_wf (link key item s)"
proof -
  note d = store_wfD [OF assms(1)]
  have "next_elem s \<notin> fst ` set (lru s)" using d(6) by force
  with d assms(2,3) show ?thesis
    by (auto simp: store_wf_def link_def keyed_def lru_bytes_def items_def distinct_update less_Suc_eq)
qed

lemma items_link: "items (link key item s) = item # items s"
  by (simp add: items_def link_def)

lemma store_Set_eq:
  "store_Set now key val ttl s =
     (let s1 = without key s; size = entrySize key val; s2 = ensureCapacity size s1
      in if 0 < MaxBytes (store_cfg s) \<and> MaxBytes (store_cfg s) < size
         then (s1, Some ErrEntryTooLarge)
         else if 0 < MaxBytes (store_cfg s) \<and> MaxBytes (store_cfg s) < memoryBytes s2 + size
         then (s2, Some ErrMemoryLimit)
         else (link key \<lparr>e_key = key, e_value = val,
                         e_expiresAt = (if 0 < ttl then now + ttl else 0)\<rparr> s2, None))"
  unfolding store_Set_def without_def [symmetric] Let_def
  by (simp add: link_def)

lemma ensureCapacity_fits:
  assumes "store_wf s" and "0 < MaxBytes (store_cfg s)" and "needed \<le> MaxBytes (store_cfg s)"
  shows "memoryBytes (ensureCapacity needed s) + needed \<le> MaxBytes (store_cfg s)"
  using assms keep_fits [of "MaxBytes (store_cfg s) - needed" "items s"]
    memoryBytes_items [OF ensureCapacity_wf [OF assms(1)], of needed]
  by (simp add: ensureCapacity_items)

lemma not_key_without:
  "store_wf s \<Longrightarrow> \<forall>i \<in> set (items (ensureCapacity n (without k s))). e_key i \<noteq> k"
  using ensureCapacity_items_subset [OF without_wf, of s n k]
  by (auto simp: items_without others_idem)

abbreviation new_item :: "time \<Rightarrow> string \<Rightarrow> bytes \<Rightarrow> duration \<Rightarrow> entry" where
  "new_item now k v ttl \<equiv>
     \<lparr>e_key = k, e_value = v, e_expiresAt = (if 0 < ttl then now + ttl else 0)\<rparr>"

lemma link_frame [simp]:
  "store_cfg (link k i s) = store_cfg s" "memoryBytes (link k i s) = memoryBytes s + item_size i"
  "entries (link k i s) = AList.update k (next_elem s, i) (entries s)"
  by (simp_all add: link_def)

text \<open>\<open>Set\<close> on a well-formed store has two outcomes: the memory-limit error cannot happen.\<close>

lemma store_Set_outcomes:
  assumes wf: "store_wf s"
  obtains (too_large) "0 < MaxBytes (store_cfg s)" "MaxBytes (store_cfg s) < entrySize k v"
      "store_Set now k v ttl s = (without k s, Some ErrEntryTooLarge)"
  | (stored) s2 where "\<not> (0 < MaxBytes (store_cfg s) \<and> MaxBytes (store_cfg s) < entrySize k v)"
      "s2 = ensureCapacity (entrySize k v) (without k s)" "store_wf s2" "store_cfg s2 = store_cfg s"
      "\<forall>i \<in> set (items s2). e_key i \<noteq> k"
      "0 < MaxBytes (store_cfg s) \<Longrightarrow> memoryBytes s2 + entrySize k v \<le> MaxBytes (store_cfg s)"
      "store_Set now k v ttl s = (link k (new_item now k v ttl) s2, None)"
proof (cases "0 < MaxBytes (store_cfg s) \<and> MaxBytes (store_cfg s) < entrySize k v")
  case True
  then show ?thesis using too_large by (simp add: store_Set_eq Let_def)
next
  case False
  let ?s2 = "ensureCapacity (entrySize k v) (without k s)"
  have fits: "0 < MaxBytes (store_cfg s) \<Longrightarrow>
      memoryBytes ?s2 + entrySize k v \<le> MaxBytes (store_cfg s)"
    using False ensureCapacity_fits [OF without_wf [OF wf], where needed = "entrySize k v"] by auto
  have "store_Set now k v ttl s = (link k (new_item now k v ttl) ?s2, None)"
    using False fits by (auto simp: store_Set_eq Let_def)
  with False fits stored [of ?s2] not_key_without [OF wf] wf show ?thesis
    by (simp add: ensureCapacity_wf without_wf)
qed

lemma store_Set_inv [inv_intros]:
  assumes "store_inv s"
  shows "store_inv (fst (store_Set now k v ttl s))"
proof -
  have wf: "store_wf s" and lim: "within_limit s" using assms by (auto simp: store_inv_def)
  show ?thesis
  proof (rule store_Set_outcomes [OF wf, of k v now ttl])
    fix s2
    assume "store_wf s2" "\<forall>i \<in> set (items s2). e_key i \<noteq> k" "store_cfg s2 = store_cfg s"
      "0 < MaxBytes (store_cfg s) \<Longrightarrow> memoryBytes s2 + entrySize k v \<le> MaxBytes (store_cfg s)"
      "store_Set now k v ttl s = (link k (new_item now k v ttl) s2, None)"
    then show ?thesis by (auto simp: store_inv_def within_limit_def intro!: link_wf)
  qed (use wf lim in \<open>auto simp: store_inv_def intro: inv_intros\<close>)
qed

lemma store_Delete_eq:
  "store_Delete now k s = (without k s, live now s k \<noteq> None)"
  by (simp add: store_Delete_def without_def live_def split: option.split)

lemma store_Delete_inv [inv_intros]: "store_inv s \<Longrightarrow> store_inv (fst (store_Delete now k s))"
  by (simp add: store_Delete_eq store_inv_def without_wf without_limit)

lemma moveToFront_wf [inv_intros]:
  assumes wf: "store_wf s" and e: "e \<in> set (lru s)"
  shows "store_wf (s\<lparr>lru := list_MoveToFront e (lru s)\<rparr>)"
proof -
  note d = store_wfD [OF wf]
  have rm: "list_Remove e (lru s) = filter (\<lambda>x. elem_key x \<noteq> elem_key e) (lru s)"
    using removeElement_keys [OF wf e] by simp
  have "map_of (keyed (list_MoveToFront e (lru s))) = map_of (entries s)"
  proof
    fix k
    show "map_of (keyed (list_MoveToFront e (lru s))) k = map_of (entries s) k"
      using map_of_map_key_filter [OF d(2) e] map_of_map_key_mem [OF d(2) e] d(3)
      by (simp add: list_MoveToFront_def rm keyed_def)
  qed
  moreover have "lru_bytes (list_MoveToFront e (lru s)) = memoryBytes s"
    using sum_list_filter_remove [OF distinct_lru [OF wf] e] d(5) list_Remove_mem [OF d(1) e]
    by (simp add: list_MoveToFront_def lru_bytes_def)
  moreover have "distinct (map fst (list_MoveToFront e (lru s)))"
    using d(1) by (auto simp: list_MoveToFront_def list_Remove_def distinct_map_filter)
  moreover have "distinct (map elem_key (list_MoveToFront e (lru s)))"
    using d(2) by (auto simp: list_MoveToFront_def rm distinct_map_filter)
  moreover have "set (list_MoveToFront e (lru s)) \<subseteq> set (lru s)"
    using e by (auto simp: list_MoveToFront_def list_Remove_def)
  ultimately show ?thesis using d(4,6) by (auto simp: store_wf_def)
qed

lemma store_Get_cases:
  assumes "store_wf s"
  obtains (absent) "map_of (entries s) k = None" "store_Get now k s = (s, None)"
  | (expired) e where "map_of (entries s) k = Some e" "e \<in> set (lru s)" "elem_key e = k"
      "isExpired now (snd e)" "store_Get now k s = (removeElement e s, None)"
  | (hit) e where "map_of (entries s) k = Some e" "e \<in> set (lru s)" "elem_key e = k"
      "\<not> isExpired now (snd e)"
      "store_Get now k s = (s\<lparr>lru := list_MoveToFront e (lru s)\<rparr>, Some (e_value (snd e)))"
  using map_of_entries_mem [OF assms]
  by (cases "map_of (entries s) k") (auto simp: store_Get_def split: if_splits)

lemma store_Get_inv [inv_intros]:
  assumes "store_inv s"
  shows "store_inv (fst (store_Get now k s))"
proof -
  have wf: "store_wf s" and lim: "within_limit s" using assms by (auto simp: store_inv_def)
  show ?thesis
  proof (rule store_Get_cases [OF wf, of k now])
    fix e assume "e \<in> set (lru s)"
      and "store_Get now k s = (s\<lparr>lru := list_MoveToFront e (lru s)\<rparr>, Some (e_value (snd e)))"
    then show ?thesis
      using wf lim by (auto simp: store_inv_def within_limit_def intro: inv_intros)
  qed (use wf lim in \<open>auto simp: store_inv_def intro: inv_intros\<close>)
qed

subsection \<open>Cleanup\<close>

lemma expired_elements_eq:
  "expired_elements now ps = map snd (filter (\<lambda>p. isExpired now (elem_Value (snd p))) ps)"
  by (induction ps) (auto simp: isExpired_def Let_def)

lemma fold_remove_wf [inv_intros]:
  "store_wf s \<Longrightarrow> distinct es \<Longrightarrow> set es \<subseteq> set (lru s) \<Longrightarrow> store_wf (fold removeElement es s)"
proof (induction es arbitrary: s)
  case (Cons e es)
  then have e: "e \<in> set (lru s)" by simp
  have "lru (removeElement e s) = filter (\<lambda>x. x \<noteq> e) (lru s)"
    using Cons.prems e by (simp add: list_Remove_mem store_wfD(1))
  with Cons.prems have "set es \<subseteq> set (lru (removeElement e s))" by auto
  with Cons.IH [of "removeElement e s"] Cons.prems e show ?case
    by (simp add: removeElement_wf)
qed simp

lemma fold_remove_lru:
  "store_wf s \<Longrightarrow> distinct es \<Longrightarrow> set es \<subseteq> set (lru s) \<Longrightarrow>
   lru (fold removeElement es s) = filter (\<lambda>x. x \<notin> set es) (lru s)"
proof (induction es arbitrary: s)
  case (Cons e es)
  then have e: "e \<in> set (lru s)" by simp
  have l: "lru (removeElement e s) = filter (\<lambda>x. x \<noteq> e) (lru s)"
    using Cons.prems e by (simp add: list_Remove_mem store_wfD(1))
  with Cons.prems have "set es \<subseteq> set (lru (removeElement e s))" by auto
  with Cons.IH [of "removeElement e s"] Cons.prems e l show ?case
    by (simp add: removeElement_wf conj_commute)
qed simp

lemma fold_remove_frame:
  "store_cfg (fold removeElement es s) = store_cfg s"
  "next_elem (fold removeElement es s) = next_elem s"
  "entries (fold removeElement es s) = fold (\<lambda>e. AList.delete (elem_key e)) es (entries s)"
  by (induction es arbitrary: s) simp_all

lemma fold_remove_limit [inv_intros]:
  "within_limit s \<Longrightarrow> within_limit (fold removeElement es s)"
  by (induction es arbitrary: s) (simp_all add: removeElement_limit)

lemma fold_delete_eq:
  "fold (\<lambda>e. AList.delete (elem_key e)) es m = filter (\<lambda>p. fst p \<notin> elem_key ` set es) m"
  by (induction es arbitrary: m) (auto simp: AList.delete_eq case_prod_beta intro!: filter_cong)

lemma cleanup_elements:
  assumes "store_wf s" and "mset ps = mset (entries s)"
  shows "distinct (expired_elements now ps)"
    and "set (expired_elements now ps) = {e \<in> set (lru s). isExpired now (snd e)}"
proof -
  have set_ps: "set ps = set (entries s)" using assms(2) by (metis set_mset_mset)
  have dist: "distinct (map fst ps)"
    using assms(2) store_wfD(4) [OF assms(1)] by (metis mset_map mset_eq_imp_distinct_iff)
  have in_ps: "(k, e) \<in> set ps \<longleftrightarrow> e \<in> set (lru s) \<and> elem_key e = k" for k e
  proof -
    have "(k, e) \<in> set ps \<longleftrightarrow> map_of (keyed (lru s)) k = Some e"
      using store_wfD(3,4) [OF assms(1)] by (simp add: set_ps flip: map_of_eq_Some_iff)
    then show ?thesis
      using map_of_map_key_mem [OF store_wfD(2) [OF assms(1)], of e]
        map_of_map_key [of elem_key "lru s" k e] by (auto simp: keyed_def)
  qed
  have "inj_on snd (set ps)"
    by (rule inj_onI) (metis in_ps prod.collapse)
  moreover have "distinct ps" using dist by (simp add: distinct_map)
  ultimately show "distinct (expired_elements now ps)"
    by (auto simp: expired_elements_eq distinct_map intro: inj_on_subset)
  show "set (expired_elements now ps) = {e \<in> set (lru s). isExpired now (snd e)}"
    using in_ps by (force simp: expired_elements_eq image_iff)
qed

lemma cleanupExpired_range_lru:
  assumes "store_wf s" and "mset ps = mset (entries s)"
  shows "lru (cleanupExpired_range now ps s) = filter (\<lambda>e. \<not> isExpired now (snd e)) (lru s)"
  using fold_remove_lru [OF assms(1) cleanup_elements(1) [OF assms]] cleanup_elements(2) [OF assms]
  by (auto simp: cleanupExpired_range_def intro: filter_cong)

lemma cleanupExpired_range_inv [inv_intros]:
  "store_inv s \<Longrightarrow> mset ps = mset (entries s) \<Longrightarrow> store_inv (cleanupExpired_range now ps s)"
  using cleanup_elements [of s ps now]
  by (auto simp: store_inv_def cleanupExpired_range_def intro!: inv_intros)

lemma cleanupExpired_inv [inv_intros]: "store_inv s \<Longrightarrow> store_inv (cleanupExpired now s)"
  by (simp add: cleanupExpired_def cleanupExpired_range_inv)

subsection \<open>What readers see\<close>

lemma find_items:
  assumes "store_wf s"
  shows "find (\<lambda>i. e_key i = k) (items s) = map_option snd (map_of (entries s) k)"
proof -
  have "find (\<lambda>i. e_key i = k) (map snd l) = map_option snd (map_of (keyed l) k)" for l
    by (induction l) (auto simp: keyed_def)
  then show ?thesis using assms by (simp add: store_wfD(3) items_def)
qed

lemma live_find:
  assumes "store_wf s"
  shows "live now s k =
    (case find (\<lambda>i. e_key i = k) (items s) of
       None \<Rightarrow> None | Some i \<Rightarrow> (if isExpired now i then None else Some (e_value i)))"
  using find_items [OF assms, of k] by (simp add: live_def split: option.split)

lemma find_others: "k' \<noteq> k \<Longrightarrow> find (\<lambda>i. e_key i = k') (others k its) = find (\<lambda>i. e_key i = k') its"
  by (induction its) (auto simp: others_def)

lemma find_others_same: "find (\<lambda>i. e_key i = k) (others k its) = None"
  by (simp add: find_None_iff others_idem)

lemma live_without:
  "store_wf s \<Longrightarrow> live now (without k s) = (live now s)(k := None)"
  by (rule ext) (simp add: live_def entries_without)

lemma live_link:
  "live now (link k i s) = (live now s)(k := if isExpired now i then None else Some (e_value i))"
  by (rule ext) (simp add: live_def)

lemma find_distinct:
  "distinct (map e_key its) \<Longrightarrow> i \<in> set its \<Longrightarrow> find (\<lambda>i'. e_key i' = e_key i) its = Some i"
  by (induction its) (auto simp: image_iff)

lemma find_sub:
  assumes "distinct (map e_key its)" and "set xs \<subseteq> set its"
  shows "find (\<lambda>i. e_key i = k) xs \<in> {None, find (\<lambda>i. e_key i = k) its}"
proof (cases "find (\<lambda>i. e_key i = k) xs")
  case (Some i)
  then have "i \<in> set xs" and "e_key i = k" by (auto simp: find_Some_iff)
  with assms Some find_distinct [OF assms(1), of i] show ?thesis by auto
qed simp

lemma distinct_items: "store_wf s \<Longrightarrow> distinct (map e_key (items s))"
  by (simp add: store_wf_def items_def comp_def)

lemma live_ensureCapacity:
  assumes wf: "store_wf s"
  shows "live now (ensureCapacity n s) k \<in> {None, live now s k}"
  using find_sub [OF distinct_items [OF wf] ensureCapacity_items_subset [OF wf, of n], of k]
  by (auto simp: live_find wf ensureCapacity_wf split: option.splits)

lemma isExpired_mono: "isExpired now i \<Longrightarrow> now \<le> now' \<Longrightarrow> isExpired now' i"
  by (auto simp: isExpired_def split: if_splits)

lemma live_Get:
  assumes "store_wf s" and "now \<le> now'"
  shows "live now' (fst (store_Get now k s)) = live now' s"
  using assms(2) isExpired_mono
  by (cases rule: store_Get_cases [OF assms(1), of k now]) (force simp: live_def fun_eq_iff)+

lemma store_Get_live: "snd (store_Get now k s) = live now s k"
  by (simp add: store_Get_def live_def split: option.split)

lemma live_cleanup:
  assumes "store_inv s" and "mset ps = mset (entries s)" and "now \<le> now'"
  shows "live now' (cleanupExpired_range now ps s) = live now' s"
proof
  fix k
  have wf: "store_wf s" using assms(1) by (simp add: store_inv_def)
  have it: "items (cleanupExpired_range now ps s) = filter (\<lambda>i. \<not> isExpired now i) (items s)"
    using cleanupExpired_range_lru [OF wf assms(2), of now]
    by (simp add: items_def filter_map comp_def)
  have "distinct (map e_key its) \<Longrightarrow>
    (case find (\<lambda>i. e_key i = k) (filter (\<lambda>i. \<not> isExpired now i) its) of
       None \<Rightarrow> None | Some i \<Rightarrow> (if isExpired now' i then None else Some (e_value i))) =
    (case find (\<lambda>i. e_key i = k) its of
       None \<Rightarrow> None | Some i \<Rightarrow> (if isExpired now' i then None else Some (e_value i)))" for its
    using isExpired_mono [OF _ assms(3)]
    by (induction its) (auto simp: find_None_iff image_iff dest!: find_SomeD split: option.split)
  then show "live now' (cleanupExpired_range now ps s) k = live now' s k"
    using cleanupExpired_range_inv [OF assms(1,2), of now] distinct_items [OF wf]
    by (simp add: live_find wf it store_inv_def)
qed

section \<open>The store as an interface\<close>

text \<open>
  What the server and the replication manager rely on: a view of the live bindings at an
  instant, and what each operation does to it. \<open>set\<close> may evict other keys, so it promises of
  them only that they keep their binding or lose it.
\<close>

locale kv_store =
  fixes invar :: "'s \<Rightarrow> bool"
    and view :: "time \<Rightarrow> 's \<Rightarrow> string \<Rightarrow> bytes option"
    and set_op :: "time \<Rightarrow> string \<Rightarrow> bytes \<Rightarrow> duration \<Rightarrow> 's \<Rightarrow> 's \<times> 'e option"
    and get_op :: "time \<Rightarrow> string \<Rightarrow> 's \<Rightarrow> 's \<times> bytes option"
    and del_op :: "time \<Rightarrow> string \<Rightarrow> 's \<Rightarrow> 's \<times> bool"
  assumes set_invar: "invar s \<Longrightarrow> invar (fst (set_op t k v ttl s))"
    and get_invar: "invar s \<Longrightarrow> invar (fst (get_op t k s))"
    and del_invar: "invar s \<Longrightarrow> invar (fst (del_op t k s))"
    and set_ok: "invar s \<Longrightarrow> 0 < t \<Longrightarrow> set_op t k v ttl s = (s', None) \<Longrightarrow>
      view t' s' k = (if 0 < ttl \<and> t + ttl \<le> t' then None else Some v)"
    and set_fail: "invar s \<Longrightarrow> set_op t k v ttl s = (s', Some e) \<Longrightarrow> view t' s' = (view t' s)(k := None)"
    and set_other: "invar s \<Longrightarrow> k' \<noteq> k \<Longrightarrow> view t' (fst (set_op t k v ttl s)) k' \<in> {None, view t' s k'}"
    and get_result: "invar s \<Longrightarrow> snd (get_op t k s) = view t s k"
    and get_view: "invar s \<Longrightarrow> t \<le> t' \<Longrightarrow> view t' (fst (get_op t k s)) = view t' s"
    and del_result: "invar s \<Longrightarrow> snd (del_op t k s) = (view t s k \<noteq> None)"
    and del_view: "invar s \<Longrightarrow> view t' (fst (del_op t k s)) = (view t' s)(k := None)"
begin

lemma read_own_write:
  assumes "invar s" and "0 < t" and "set_op t k v ttl s = (s', None)"
  shows "snd (get_op t' k s') = (if 0 < ttl \<and> t + ttl \<le> t' then None else Some v)"
  using assms set_invar [of s t k v ttl] by (simp add: get_result set_ok)

lemma read_deleted:
  assumes "invar s"
  shows "snd (get_op t' k (fst (del_op t k s))) = None"
  using assms by (simp add: get_result del_invar del_view)

lemma delete_twice:
  assumes "invar s"
  shows "snd (del_op t' k (fst (del_op t k s))) = False"
  using assms by (simp add: del_result del_invar del_view)

lemma get_stable:
  assumes "invar s" and "t \<le> t'"
  shows "snd (get_op t' k' (fst (get_op t k s))) = snd (get_op t' k' s)"
  using assms by (simp add: get_result get_invar get_view)

lemma set_failed_gone:
  assumes "invar s" and "set_op t k v ttl s = (s', Some e)"
  shows "snd (get_op t' k s') = None"
  using assms set_invar [of s t k v ttl] by (simp add: get_result set_fail)

end

lemma store_inv_wf: "store_inv s \<Longrightarrow> store_wf s"
  by (simp add: store_inv_def)

lemma without_inv [inv_intros]: "store_inv s \<Longrightarrow> store_inv (without k s)"
  by (simp add: store_inv_def without_wf without_limit)

lemma new_item_expired:
  "0 < now \<Longrightarrow> isExpired now' (new_item now k v ttl) \<longleftrightarrow> 0 < ttl \<and> now + ttl \<le> now'"
  by (auto simp: isExpired_def)

lemma store_Set_ok_live:
  assumes "store_inv s" and "0 < t" and "store_Set t k v ttl s = (s', None)"
  shows "live t' s' k = (if 0 < ttl \<and> t + ttl \<le> t' then None else Some v)"
  using assms(3) new_item_expired [OF assms(2), of t' k v ttl]
  by (cases rule: store_Set_outcomes [OF store_inv_wf [OF assms(1)], of k v t ttl])
     (auto simp: live_link)

lemma store_Set_fail_live:
  assumes "store_inv s" and "store_Set t k v ttl s = (s', Some e)"
  shows "live t' s' = (live t' s)(k := None)"
  using assms(2) store_inv_wf [OF assms(1)]
  by (cases rule: store_Set_outcomes [OF store_inv_wf [OF assms(1)], of k v t ttl])
     (auto simp: live_without)

lemma store_Set_other_live:
  assumes "store_inv s" and "k' \<noteq> k"
  shows "live t' (fst (store_Set t k v ttl s)) k' \<in> {None, live t' s k'}"
proof -
  have wf: "store_wf s" using assms(1) by (simp add: store_inv_def)
  show ?thesis
    using assms(2) live_ensureCapacity [OF without_wf [OF wf, of k], of t' "entrySize k v" k']
    by (cases rule: store_Set_outcomes [OF wf, of k v t ttl])
       (auto simp: live_without [OF wf] live_link)
qed

interpretation cs: kv_store store_inv live store_Set store_Get store_Delete
proof unfold_locales
  show "live t' (fst (store_Delete t k s)) = (live t' s)(k := None)" if "store_inv s" for s t t' k
    using that by (simp add: store_Delete_eq live_without store_inv_def)
  show "live t' (fst (store_Get t k s)) = live t' s" if "store_inv s" "t \<le> t'" for s t t' k
    using that by (simp add: live_Get store_inv_def)
qed (simp_all add: store_Set_inv store_Get_inv store_Delete_inv store_Set_ok_live
       store_Set_fail_live store_Set_other_live [simplified] store_Get_live store_Delete_eq without_inv)

section \<open>Properties\<close>

datatype store_op =
    OpSet time string bytes duration
  | OpGet time string
  | OpDelete time string
  | OpCleanup time

primrec store_step :: "store_op \<Rightarrow> Store \<Rightarrow> Store" where
  "store_step (OpSet now k v ttl) s = fst (store_Set now k v ttl s)"
| "store_step (OpGet now k) s = fst (store_Get now k s)"
| "store_step (OpDelete now k) s = fst (store_Delete now k s)"
| "store_step (OpCleanup now) s = cleanupExpired now s"

lemma NewStore_inv [inv_intros]: "store_inv (NewStore c)"
  by (simp add: store_inv_def store_wf_def within_limit_def NewStore_def keyed_def lru_bytes_def)

lemma store_step_inv [inv_intros]: "store_inv s \<Longrightarrow> store_inv (store_step op s)"
  by (cases op) (simp_all add: inv_intros)

lemma fold_store_step_inv [inv_intros]: "store_inv s \<Longrightarrow> store_inv (fold store_step ops s)"
  by (induction ops arbitrary: s) (simp_all add: inv_intros)

lemma store_step_cfg: "store_cfg (store_step op s) = store_cfg s"
proof (cases op)
  case (OpSet now k v ttl)
  then show ?thesis by (auto simp: store_Set_eq Let_def)
next
  case (OpGet now k)
  then show ?thesis by (auto simp: store_Get_def split: option.split)
next
  case (OpDelete now k)
  then show ?thesis by (simp add: store_Delete_eq)
next
  case (OpCleanup now)
  then show ?thesis by (simp add: cleanupExpired_def cleanupExpired_range_def fold_remove_frame)
qed

lemma fold_store_step_cfg: "store_cfg (fold store_step ops s) = store_cfg s"
  by (induction ops arbitrary: s) (simp_all add: store_step_cfg)

text \<open>
  C10: Whatever sequence of \<open>Set\<close>, \<open>Get\<close>, \<open>Delete\<close> and cleanup passes runs on a new store,
  the map and the list stay linked to the same elements, no two elements share a key, the byte
  counter equals the bytes of the stored keys and values, and a positive \<open>MaxBytes\<close> is never
  exceeded.
\<close>

theorem store_run_inv:
  "store_inv (fold store_step ops (NewStore c)) \<and>
   (MaxBytes c \<le> 0 \<or>
    store_MemoryBytes (fold store_step ops (NewStore c)) \<le> MaxBytes c)"
proof -
  have inv: "store_inv (fold store_step ops (NewStore c))"
    by (intro inv_intros)
  have "MaxBytes (store_cfg (fold store_step ops (NewStore c))) = MaxBytes c"
    by (simp add: fold_store_step_cfg NewStore_def)
  with inv show ?thesis
    by (auto simp: store_inv_def within_limit_def store_MemoryBytes_def)
qed

text \<open>
  C5: \<open>Set\<close> implements the specification over the bindings in order of use: the key's old
  binding goes, an entry larger than the limit is refused, and otherwise the new binding is put in
  front of the longest prefix of the others that still fits; with no limit nothing is evicted.
\<close>

theorem store_Set_refines:
  assumes "store_inv s"
  shows "(case store_Set now k v ttl s of (s', e) \<Rightarrow> (items s', e)) =
    spec_Set (MaxBytes (store_cfg s)) now k v ttl (items s)"
proof -
  have wf: "store_wf s" using assms by (rule store_inv_wf)
  show ?thesis
  proof (rule store_Set_outcomes [OF wf, of k v now ttl], goal_cases too_large stored)
    case too_large
    with wf show ?thesis by (simp add: spec_Set_def items_without)
  next
    case (stored s2)
    with ensureCapacity_items [OF without_wf [OF wf, of k], of "entrySize k v"] wf
    show ?thesis by (auto simp: spec_Set_def items_link items_without)
  qed
qed

definition demo_store :: Store where
  "demo_store =
     fold store_step
       [OpSet 1 ''a'' ''11'' 0, OpSet 2 ''b'' ''22'' 5, OpSet 3 ''c'' ''33'' 0, OpGet 4 ''a'']
       (NewStore \<lparr>MaxBytes = 9, CleanupInterval = 0\<rparr>)"

lemma demo_store_inv: "store_inv demo_store"
  unfolding demo_store_def by (intro inv_intros)

lemma demo_store_cfg: "MaxBytes (store_cfg demo_store) = 9"
  unfolding demo_store_def fold_store_step_cfg by (simp add: NewStore_def)

text \<open>
  In \<open>demo_store\<close> the order of use is \<open>a\<close>, \<open>c\<close>, \<open>b\<close>: a new entry of six bytes evicts \<open>b\<close> and
  \<open>c\<close> and keeps \<open>a\<close>, which was read last.
\<close>

theorem store_Set_refines_witness:
  "(case store_Set 5 ''d'' ''44444'' 0 demo_store of (s', e) \<Rightarrow> (map e_key (items s'), e)) =
     ([''d'', ''a''], None)"
proof -
  have its: "items demo_store =
      [\<lparr>e_key = ''a'', e_value = ''11'', e_expiresAt = 0\<rparr>,
       \<lparr>e_key = ''c'', e_value = ''33'', e_expiresAt = 0\<rparr>,
       \<lparr>e_key = ''b'', e_value = ''22'', e_expiresAt = 7\<rparr>]"
    by code_simp
  show ?thesis
    using store_Set_refines [OF demo_store_inv, of 5 "''d''" "''44444''" 0]
    by (auto simp: demo_store_cfg its spec_Set_def others_def entrySize_def Let_def
             split: prod.splits)
qed

text \<open>
  C15: \<open>Get\<close>, \<open>Delete\<close> and a cleanup pass implement their specifications: \<open>Get\<close> returns a live
  binding and makes it the most recent one, drops an expired one and leaves the order alone when the
  key is absent; \<open>Delete\<close> removes the key and reports whether it was live; cleanup keeps exactly
  the unexpired bindings, in order.
\<close>

theorem store_reads_refine:
  assumes "store_inv s"
  shows "(case store_Get now k s of (s', r) \<Rightarrow> (items s', r)) = spec_Get now k (items s) \<and>
    (case store_Delete now k s of (s', r) \<Rightarrow> (items s', r)) = spec_Delete now k (items s) \<and>
    items (cleanupExpired now s) = filter (\<lambda>i. \<not> isExpired now i) (items s)"
proof (intro conjI)
  have wf: "store_wf s" using assms by (rule store_inv_wf)
  note fd = find_items [OF wf, of k]
  show "(case store_Get now k s of (s', r) \<Rightarrow> (items s', r)) = spec_Get now k (items s)"
  proof (rule store_Get_cases [OF wf, of k now], goal_cases absent expired hit)
    case (hit e)
    then have "items (fst (store_Get now k s)) = snd e # others k (items s)"
      using items_remove [OF wf hit(2)] by (simp add: items_def list_MoveToFront_def)
    with hit fd show ?thesis by (simp add: spec_Get_def)
  qed (use fd items_remove [OF wf] in \<open>auto simp: spec_Get_def\<close>)
  show "(case store_Delete now k s of (s', r) \<Rightarrow> (items s', r)) = spec_Delete now k (items s)"
    using distinct_items [OF wf]
    by (auto simp: store_Delete_eq spec_Delete_def items_without [OF wf] live_find [OF wf]
                   find_None_iff distinct_map
             dest!: find_SomeD dest: inj_onD split: option.splits if_splits)
  show "items (cleanupExpired now s) = filter (\<lambda>i. \<not> isExpired now i) (items s)"
    using cleanupExpired_range_lru [OF wf refl, of now]
    by (simp add: cleanupExpired_def items_def filter_map comp_def)
qed

theorem store_reads_refine_witness:
  "(case store_Get 6 ''b'' demo_store of (s', r) \<Rightarrow> (map e_key (items s'), r)) =
      ([''b'', ''a'', ''c''], Some ''22'') \<and>
   (case store_Delete 7 ''b'' demo_store of (s', r) \<Rightarrow> (map e_key (items s'), r)) =
      ([''a'', ''c''], False) \<and>
   map e_key (items (cleanupExpired 7 demo_store)) = [''a'', ''c'']"
proof -
  have its: "items demo_store =
      [\<lparr>e_key = ''a'', e_value = ''11'', e_expiresAt = 0\<rparr>,
       \<lparr>e_key = ''c'', e_value = ''33'', e_expiresAt = 0\<rparr>,
       \<lparr>e_key = ''b'', e_value = ''22'', e_expiresAt = 7\<rparr>]"
    by code_simp
  show ?thesis
    using store_reads_refine [OF demo_store_inv, of 6 "''b''"]
      store_reads_refine [OF demo_store_inv, of 7 "''b''"]
    by (auto simp: its spec_Get_def spec_Delete_def others_def isExpired_def split: prod.splits)
qed

text \<open>
  C16: A successful \<open>Set\<close> is read back: until the TTL has passed \<open>Get\<close> returns the stored value,
  from then on nothing; with no TTL it returns the value at every later instant.
\<close>

theorem store_set_get:
  assumes "store_inv s" and "0 < now" and "store_Set now k v ttl s = (s', None)"
  shows "snd (store_Get now' k s') = (if 0 < ttl \<and> now + ttl \<le> now' then None else Some v)"
  using assms by (rule cs.read_own_write)

theorem store_set_get_witness:
  "snd (store_Get 8 ''k'' (fst (store_Set 5 ''k'' ''v'' 4 demo_store))) = Some ''v'' \<and>
   snd (store_Get 9 ''k'' (fst (store_Set 5 ''k'' ''v'' 4 demo_store))) = None"
proof -
  have "snd (store_Set 5 ''k'' ''v'' 4 demo_store) = None" by code_simp
  then have set: "store_Set 5 ''k'' ''v'' 4 demo_store =
      (fst (store_Set 5 ''k'' ''v'' 4 demo_store), None)"
    by (metis prod.collapse)
  show ?thesis
    using store_set_get [OF demo_store_inv _ set, of 8] store_set_get [OF demo_store_inv _ set, of 9]
    by simp
qed

lemma cleanupExpired_range_eq:
  assumes "store_inv s" and "mset ps = mset (entries s)"
  shows "cleanupExpired_range now ps s = cleanupExpired now s"
proof -
  have wf: "store_wf s" using assms(1) by (rule store_inv_wf)
  let ?s1 = "cleanupExpired_range now ps s" and ?s2 = "cleanupExpired_range now (entries s) s"
  have l: "lru ?s1 = lru ?s2"
    using cleanupExpired_range_lru [OF wf assms(2)] cleanupExpired_range_lru [OF wf refl] by simp
  have e: "entries ?s1 = entries ?s2"
    using cleanup_elements(2) [OF wf assms(2), of now] cleanup_elements(2) [OF wf refl, of now]
    by (simp add: cleanupExpired_range_def fold_remove_frame fold_delete_eq)
  have "store_wf ?s1" and "store_wf ?s2"
    using cleanupExpired_range_inv [OF assms(1)] assms(2) by (auto intro: store_inv_wf)
  with l have "memoryBytes ?s1 = memoryBytes ?s2" by (simp add: store_wfD(5))
  with l e show "?s1 = cleanupExpired now s"
    unfolding cleanupExpired_def
    by (intro Store.equality) (simp_all add: cleanupExpired_range_def fold_remove_frame)
qed

text \<open>
  A cleanup pass does not depend on the order in which the runtime iterates over the map: along
  any order it leaves the same store, which shows readers at later instants the same bindings.
\<close>

theorem cleanup_order_independent:
  assumes "store_inv s" and "mset ps = mset (entries s)" and "now \<le> now'"
  shows "cleanupExpired_range now ps s = cleanupExpired now s \<and>
    live now' (cleanupExpired_range now ps s) = live now' s"
  using cleanupExpired_range_eq [OF assms(1,2)] live_cleanup [OF assms] by simp

theorem cleanup_order_independent_witness:
  "cleanupExpired_range 7 (rev (entries demo_store)) demo_store = cleanupExpired 7 demo_store \<and>
   live 8 (cleanupExpired_range 7 (rev (entries demo_store)) demo_store) ''a'' = Some ''11''"
proof -
  have "live 8 demo_store ''a'' = Some ''11''" by code_simp
  then show ?thesis
    using cleanup_order_independent [OF demo_store_inv, of "rev (entries demo_store)" 7 8]
    by auto
qed

text \<open>
  C17: The error contract of \<open>Set\<close>. The only error is \<open>ErrEntryTooLarge\<close>, returned exactly when the
  entry alone exceeds a positive limit; \<open>ErrMemoryLimit\<close> is never returned. A refused \<open>Set\<close> is not
  without effect: it has already removed the key's previous binding.
\<close>

theorem store_Set_errors:
  assumes "store_inv s" and "store_Set now k v ttl s = (s', e)"
  shows "e = (if 0 < MaxBytes (store_cfg s) \<and> MaxBytes (store_cfg s) < entrySize k v
              then Some ErrEntryTooLarge else None) \<and>
    (e = None \<or> live now' s' = (live now' s)(k := None))"
proof (intro conjI)
  show "e = (if 0 < MaxBytes (store_cfg s) \<and> MaxBytes (store_cfg s) < entrySize k v
             then Some ErrEntryTooLarge else None)"
    using assms(2)
    by (cases rule: store_Set_outcomes [OF store_inv_wf [OF assms(1)], of k v now ttl]) auto
  show "e = None \<or> live now' s' = (live now' s)(k := None)"
    using assms by (cases e) (simp_all add: cs.set_fail)
qed

theorem store_Set_errors_witness:
  "live 5 demo_store ''a'' = Some ''11'' \<and>
   snd (store_Set 5 ''a'' ''123456789'' 0 demo_store) = Some ErrEntryTooLarge \<and>
   live 5 (fst (store_Set 5 ''a'' ''123456789'' 0 demo_store)) ''a'' = None"
proof -
  have "live 5 demo_store ''a'' = Some ''11''" by code_simp
  then show ?thesis
    using store_Set_errors [OF demo_store_inv surjective_pairing, of 5 "''a''" "''123456789''" 0 5]
    by (auto simp: demo_store_cfg entrySize_def)
qed

end
