(* ===== verification/Go_Strings.thy ===== *)
theory Go_Strings
  imports Prelude "HOL-Library.Sublist"
begin

text \<open>
  The functions of Go's \<open>strings\<close> and \<open>strconv\<close> packages that the program calls, on byte
  strings. White space is what \<open>unicode.IsSpace\<close> accepts, as the byte sequences that encode it:
  the six ASCII blanks and the UTF-8 encodings of U+0085, U+00A0, U+1680, U+2000 to U+200A, U+2028,
  U+2029, U+202F, U+205F and U+3000. None of these starts inside a valid encoding of another rune,
  so matching them bytewise agrees with Go's decoding rune by rune.
\<close>

section \<open>Definitions\<close>

definition spaces :: "string list" where
  "spaces =
     [[CHR 0x09], [CHR 0x0A], [CHR 0x0B], [CHR 0x0C], [CHR 0x0D], [CHR 0x20],
      [CHR 0xC2, CHR 0x85], [CHR 0xC2, CHR 0xA0], [CHR 0xE1, CHR 0x9A, CHR 0x80],
      [CHR 0xE2, CHR 0x80, CHR 0x80], [CHR 0xE2, CHR 0x80, CHR 0x81], [CHR 0xE2, CHR 0x80, CHR 0x82],
      [CHR 0xE2, CHR 0x80, CHR 0x83], [CHR 0xE2, CHR 0x80, CHR 0x84], [CHR 0xE2, CHR 0x80, CHR 0x85],
      [CHR 0xE2, CHR 0x80, CHR 0x86], [CHR 0xE2, CHR 0x80, CHR 0x87], [CHR 0xE2, CHR 0x80, CHR 0x88],
      [CHR 0xE2, CHR 0x80, CHR 0x89], [CHR 0xE2, CHR 0x80, CHR 0x8A], [CHR 0xE2, CHR 0x80, CHR 0xA8],
      [CHR 0xE2, CHR 0x80, CHR 0xA9], [CHR 0xE2, CHR 0x80, CHR 0xAF], [CHR 0xE2, CHR 0x81, CHR 0x9F],
      [CHR 0xE3, CHR 0x80, CHR 0x80]]"

abbreviation HasPrefix :: "string \<Rightarrow> string \<Rightarrow> bool" where
  "HasPrefix s p \<equiv> prefix p s"

definition TrimPrefix :: "string \<Rightarrow> string \<Rightarrow> string" where
  "TrimPrefix s p = (if prefix p s then drop (length p) s else s)"

definition TrimSuffix :: "string \<Rightarrow> string \<Rightarrow> string" where
  "TrimSuffix s p = (if suffix p s then take (length s - length p) s else s)"

definition space_at_front :: "string \<Rightarrow> string option" where
  "space_at_front s = find (\<lambda>w. prefix w s) spaces"

definition space_at_back :: "string \<Rightarrow> string option" where
  "space_at_back s = find (\<lambda>w. suffix w s) spaces"

lemma spaces_nonempty: "w \<in> set spaces \<Longrightarrow> w \<noteq> []"
  by (auto simp: spaces_def)

lemma space_at_front_less:
  assumes "space_at_front s = Some w"
  shows "length s - length w < length s"
proof -
  from assms have "w \<in> set spaces" and "prefix w s" by (auto simp: space_at_front_def dest: find_SomeD)
  then have "w \<noteq> []" and "length w \<le> length s" by (auto simp: spaces_nonempty dest: prefix_length_le)
  then show ?thesis by (cases w) auto
qed

lemma space_at_back_less:
  assumes "space_at_back s = Some w"
  shows "length s - length w < length s"
proof -
  from assms have "w \<in> set spaces" and "suffix w s" by (auto simp: space_at_back_def dest: find_SomeD)
  then have "w \<noteq> []" and "length w \<le> length s" by (auto simp: spaces_nonempty dest: suffix_length_le)
  then show ?thesis by (cases w) auto
qed

function TrimLeftSpace :: "string \<Rightarrow> string" where
  "TrimLeftSpace s =
     (case space_at_front s of None \<Rightarrow> s | Some w \<Rightarrow> TrimLeftSpace (drop (length w) s))"
  by pat_completeness auto
termination
  by (relation "measure length") (auto simp: space_at_front_less)

function TrimRightSpace :: "string \<Rightarrow> string" where
  "TrimRightSpace s =
     (case space_at_back s of
        None \<Rightarrow> s | Some w \<Rightarrow> TrimRightSpace (take (length s - length w) s))"
  by pat_completeness auto
termination
  by (relation "measure length") (auto simp: space_at_back_less)

declare TrimLeftSpace.simps [simp del] TrimRightSpace.simps [simp del]

definition TrimSpace :: "string \<Rightarrow> string" where
  "TrimSpace s = TrimRightSpace (TrimLeftSpace s)"

text \<open>\<open>strings.Cut\<close> and \<open>strings.Split\<close> at a one-byte separator.\<close>

definition Cut :: "string \<Rightarrow> char \<Rightarrow> string \<times> string \<times> bool" where
  "Cut s c = (let a = takeWhile (\<lambda>x. x \<noteq> c) s; b = dropWhile (\<lambda>x. x \<noteq> c) s
              in if b = [] then (s, [], False) else (a, tl b, True))"

fun Split :: "string \<Rightarrow> char \<Rightarrow> string list" where
  "Split [] c = [[]]"
| "Split (x # s) c =
     (if x = c then [] # Split s c
      else (case Split s c of [] \<Rightarrow> [[x]] | p # ps \<Rightarrow> (x # p) # ps))"

text \<open>\<open>strings.Fields\<close>: the maximal runs that hold no white space.\<close>

function Fields_from :: "string \<Rightarrow> string \<Rightarrow> string list" where
  "Fields_from acc s =
     (case space_at_front s of
        Some w \<Rightarrow> (if acc = [] then [] else [rev acc]) @ Fields_from [] (drop (length w) s)
      | None \<Rightarrow>
          (case s of
             [] \<Rightarrow> (if acc = [] then [] else [rev acc])
           | c # cs \<Rightarrow> Fields_from (c # acc) cs))"
  by pat_completeness auto
termination
  by (relation "measure (\<lambda>(_, s). length s)") (auto simp: space_at_front_less)

declare Fields_from.simps [simp del]

definition Fields :: "string \<Rightarrow> string list" where
  "Fields s = Fields_from [] s"

text \<open>Decimal output (\<open>%d\<close>, \<open>strconv.Itoa\<close>) and input (\<open>strconv.ParseInt(s, 10, 64)\<close>).\<close>

definition digit :: "nat \<Rightarrow> char" where
  "digit d = char_of (48 + d)"

fun Itoa :: "nat \<Rightarrow> string" where
  "Itoa n = (if n < 10 then [digit n] else Itoa (n div 10) @ [digit (n mod 10)])"

declare Itoa.simps [simp del]

definition FormatInt :: "int \<Rightarrow> string" where
  "FormatInt i = (if i < 0 then CHR ''-'' # Itoa (nat (- i)) else Itoa (nat i))"

definition digit_value :: "char \<Rightarrow> nat option" where
  "digit_value c = (let v = of_char c in if 48 \<le> v \<and> v \<le> (57 :: nat) then Some (v - 48) else None)"

fun parse_digits :: "nat \<Rightarrow> string \<Rightarrow> nat option" where
  "parse_digits acc [] = Some acc"
| "parse_digits acc (c # cs) =
     (case digit_value c of None \<Rightarrow> None | Some d \<Rightarrow> parse_digits (10 * acc + d) cs)"

text \<open>\<open>None\<close> stands for a non-nil error: a syntax error or a value outside \<open>int64\<close>.\<close>

definition ParseInt :: "string \<Rightarrow> int option" where
  "ParseInt s =
     (let neg = (s \<noteq> [] \<and> hd s = CHR ''-'');
          ds = (if s \<noteq> [] \<and> (hd s = CHR ''-'' \<or> hd s = CHR ''+'') then tl s else s)
      in if ds = [] then None
         else (case parse_digits 0 ds of
                 None \<Rightarrow> None
               | Some n \<Rightarrow>
                   (if neg then (if 2 ^ 63 < n then None else Some (- int n))
                    else if 2 ^ 63 \<le> n then None else Some (int n))))"

abbreviation Atoi :: "string \<Rightarrow> int option" where
  "Atoi \<equiv> ParseInt"

section \<open>Lemmas\<close>

lemma prefix_append_drop [simp]: "TrimPrefix (p @ s) p = s"
  by (simp add: TrimPrefix_def)

lemma space_at_front_None:
  "space_at_front s = None \<longleftrightarrow> (\<forall>w \<in> set spaces. \<not> prefix w s)"
  by (auto simp: space_at_front_def find_None_iff)

lemma space_at_back_None:
  "space_at_back s = None \<longleftrightarrow> (\<forall>w \<in> set spaces. \<not> suffix w s)"
  by (auto simp: space_at_back_def find_None_iff)

definition spacelike :: "char set" where
  "spacelike = (\<Union>w \<in> set spaces. set w)"

lemma front_free: "s = [] \<or> hd s \<notin> spacelike \<Longrightarrow> space_at_front s = None"
  unfolding space_at_front_None spacelike_def
  using spaces_nonempty by (cases s) (auto simp: prefix_Cons dest: hd_in_set)

lemma back_free: "s = [] \<or> last s \<notin> spacelike \<Longrightarrow> space_at_back s = None"
  unfolding space_at_back_None spacelike_def
  using spaces_nonempty by (cases s rule: rev_cases) (auto simp: suffix_snoc dest: last_in_set)

lemma TrimSpace_free:
  assumes "s = [] \<or> hd s \<notin> spacelike \<and> last s \<notin> spacelike"
  shows "TrimSpace s = s"
proof -
  have "space_at_front s = None" and "space_at_back s = None"
    using assms front_free [of s] back_free [of s] by auto
  then show ?thesis
    by (simp add: TrimSpace_def TrimLeftSpace.simps [of s] TrimRightSpace.simps [of s])
qed

lemma TrimSpace_Nil [simp]: "TrimSpace [] = []"
  by (simp add: TrimSpace_free)

lemma TrimLeftSpace_suffix: "suffix (TrimLeftSpace s) s"
proof (induction s rule: TrimLeftSpace.induct)
  case (1 s)
  show ?case
  proof (cases "space_at_front s")
    case (Some w)
    with 1 have "suffix (TrimLeftSpace (drop (length w) s)) s"
      using suffix_drop suffix_order.trans by blast
    with Some show ?thesis by (simp add: TrimLeftSpace.simps [of s])
  qed (simp add: TrimLeftSpace.simps [of s])
qed

lemma TrimRightSpace_prefix: "prefix (TrimRightSpace s) s"
proof (induction s rule: TrimRightSpace.induct)
  case (1 s)
  show ?case
  proof (cases "space_at_back s")
    case (Some w)
    with 1 have "prefix (TrimRightSpace (take (length s - length w) s)) s"
      using take_is_prefix prefix_order.trans by blast
    with Some show ?thesis by (simp add: TrimRightSpace.simps [of s])
  qed (simp add: TrimRightSpace.simps [of s])
qed

lemma TrimRightSpace_None: "space_at_back (TrimRightSpace s) = None"
proof (induction s rule: TrimRightSpace.induct)
  case (1 s)
  then show ?case by (cases "space_at_back s") (simp_all add: TrimRightSpace.simps [of s])
qed

lemma TrimLeftSpace_None: "space_at_front (TrimLeftSpace s) = None"
proof (induction s rule: TrimLeftSpace.induct)
  case (1 s)
  then show ?case by (cases "space_at_front s") (simp_all add: TrimLeftSpace.simps [of s])
qed

lemma TrimSpace_subset: "set (TrimSpace s) \<subseteq> set s"
  unfolding TrimSpace_def
  using set_mono_suffix [OF TrimLeftSpace_suffix] set_mono_prefix [OF TrimRightSpace_prefix] by blast

lemma TrimSpace_idem [simp]: "TrimSpace (TrimSpace s) = TrimSpace s"
proof -
  let ?l = "TrimLeftSpace s"
  have "space_at_front (TrimRightSpace ?l) = None"
    using TrimLeftSpace_None [of s] TrimRightSpace_prefix [of ?l]
    unfolding space_at_front_None by (meson prefix_order.trans)
  then show ?thesis
    using TrimRightSpace_None [of ?l]
    by (simp add: TrimSpace_def TrimLeftSpace.simps [of "TrimRightSpace ?l"]
                  TrimRightSpace.simps [of "TrimRightSpace ?l"])
qed

lemma trimmed_no_CR:
  assumes "TrimSpace s = s" and "s \<noteq> []"
  shows "last s \<noteq> CHR 0x0D"
proof
  assume "last s = CHR 0x0D"
  with assms(2) have "suffix [CHR 0x0D] s" by (metis append_butlast_last_id suffixI)
  then have "space_at_back s \<noteq> None" by (auto simp: space_at_back_None spaces_def)
  moreover have "space_at_back s = None"
    using assms(1) TrimRightSpace_None [of "TrimLeftSpace s"] by (simp add: TrimSpace_def)
  ultimately show False by simp
qed

subsection \<open>Decimal numbers\<close>

lemma digit_value_digit [simp]: "d < 10 \<Longrightarrow> digit_value (digit d) = Some d"
  by (simp add: digit_value_def digit_def Let_def)

lemma parse_digits_snoc:
  "parse_digits acc (cs @ [c]) =
     (case parse_digits acc cs of None \<Rightarrow> None
      | Some n \<Rightarrow> map_option (\<lambda>d. 10 * n + d) (digit_value c))"
  by (induction cs arbitrary: acc) (auto split: option.split)

lemma parse_digits_Itoa: "parse_digits 0 (Itoa n) = Some n"
proof (induction n rule: Itoa.induct)
  case (1 n)
  show ?case
  proof (cases "n < 10")
    case True
    then show ?thesis by (simp add: Itoa.simps [of n])
  next
    case False
    with 1 have "parse_digits 0 (Itoa (n div 10)) = Some (n div 10)" by simp
    with False show ?thesis by (simp add: Itoa.simps [of n] parse_digits_snoc)
  qed
qed

lemma Itoa_digits: "c \<in> set (Itoa n) \<Longrightarrow> \<exists>d < 10. c = digit d"
proof (induction n rule: Itoa.induct)
  case (1 n)
  show ?case
  proof (cases "c = digit (n mod 10)")
    case True
    then show ?thesis by (intro exI [of _ "n mod 10"]) simp
  next
    case False
    with "1.prems" have "\<not> n < 10" and "c \<in> set (Itoa (n div 10))"
      by (auto simp: Itoa.simps [of n] split: if_splits)
    then show ?thesis using "1.IH" by simp
  qed
qed

lemma Itoa_nonempty [simp]: "Itoa n \<noteq> []"
  by (simp add: Itoa.simps [of n])

lemma spacelike_range:
  assumes "c \<in> spacelike"
  shows "of_char c < (43 :: nat) \<or> 57 < (of_char c :: nat)"
proof -
  have "\<forall>w \<in> set spaces. \<forall>c \<in> set w. of_char c < (43 :: nat) \<or> 57 < (of_char c :: nat)"
    by (simp add: spaces_def)
  with assms show ?thesis by (auto simp: spacelike_def)
qed

lemma of_char_digit: "d < 10 \<Longrightarrow> of_char (digit d) = (48 + d :: nat)"
  by (simp add: digit_def)

lemma digit_distinct:
  assumes "d < 10"
  shows "digit d \<notin> spacelike \<and> digit d \<noteq> CHR ''-'' \<and> digit d \<noteq> CHR ''+'' \<and> digit d \<noteq> CHR 0x0A"
proof -
  note v = of_char_digit [OF assms]
  have "digit d \<notin> spacelike" using spacelike_range [of "digit d"] v assms by auto
  moreover have "digit d \<noteq> c" if "of_char c < (48 :: nat)" for c using v that by auto
  ultimately show ?thesis by simp
qed

lemma Itoa_clean: "c \<in> set (Itoa n) \<Longrightarrow>
    c \<notin> spacelike \<and> c \<noteq> CHR ''-'' \<and> c \<noteq> CHR ''+'' \<and> c \<noteq> CHR 0x0A"
  using digit_distinct by (auto dest!: Itoa_digits)

lemma TrimSpace_Itoa [simp]: "TrimSpace (Itoa n) = Itoa n"
  using Itoa_clean [of "hd (Itoa n)" n] Itoa_clean [of "last (Itoa n)" n]
  by (intro TrimSpace_free) simp

lemma newline_Itoa [simp]: "CHR 0x0A \<notin> set (Itoa n)"
  using Itoa_clean [of "CHR 0x0A" n] by auto

lemma ParseInt_Itoa [simp]: "n < 2 ^ 63 \<Longrightarrow> ParseInt (Itoa n) = Some (int n)"
  using Itoa_clean [of "hd (Itoa n)" n]
  by (simp add: ParseInt_def Let_def parse_digits_Itoa)

lemma ParseInt_range: "ParseInt s = Some i \<Longrightarrow> - (2 ^ 63) \<le> i \<and> i < 2 ^ 63"
  by (auto simp: ParseInt_def Let_def split: if_splits option.splits)

subsection \<open>Fields\<close>

lemma space_byte_alone: "w \<in> set spaces \<Longrightarrow> w = [CHR 0x20] \<or> CHR 0x20 \<notin> set w"
  by (auto simp: spaces_def)

lemma prefix_before_blank:
  assumes "w \<in> set spaces" and "s \<noteq> []"
  shows "prefix w (s @ CHR 0x20 # t) \<longleftrightarrow> prefix w s"
  using space_byte_alone [OF assms(1)]
proof
  assume "w = [CHR 0x20]"
  with assms(2) show ?thesis by (cases s) auto
next
  assume "CHR 0x20 \<notin> set w"
  then show ?thesis by (auto simp: prefix_append prefix_Cons)
qed

lemma space_at_front_blank:
  "s \<noteq> [] \<Longrightarrow> space_at_front (s @ CHR 0x20 # t) = space_at_front s"
  unfolding space_at_front_def by (intro find_cong refl) (simp add: prefix_before_blank)

lemma space_at_front_blank_Nil: "space_at_front (CHR 0x20 # t) = Some [CHR 0x20]"
  by (simp add: space_at_front_def spaces_def)

lemma Fields_from_blank:
  "Fields_from acc (s @ CHR 0x20 # t) = Fields_from acc s @ Fields_from [] t"
proof (induction acc s rule: Fields_from.induct)
  case (1 acc s)
  show ?case
  proof (cases s)
    case Nil
    have "space_at_front [] = None" by (simp add: front_free)
    then show ?thesis
      by (simp add: Nil Fields_from.simps [of acc "CHR 0x20 # t"] Fields_from.simps [of acc "[]"]
                    space_at_front_blank_Nil)
  next
    case (Cons c cs)
    then have ne: "s \<noteq> []" by simp
    show ?thesis
    proof (cases "space_at_front s")
      case None
      with "1.IH"(1) [OF None Cons] Cons show ?thesis
        using space_at_front_blank [OF ne, of t]
        by (simp add: Fields_from.simps [of acc "c # cs"]
                      Fields_from.simps [of acc "c # cs @ CHR 0x20 # t"])
    next
      case (Some w)
      then have "length w \<le> length s"
        by (auto simp: space_at_front_def dest!: find_SomeD prefix_length_le)
      with "1.IH"(2) [OF Some] Some show ?thesis
        using space_at_front_blank [OF ne, of t]
        by (simp add: Fields_from.simps [of acc s] Fields_from.simps [of acc "s @ CHR 0x20 # t"])
    qed
  qed
qed

lemma Fields_two:
  "Fields a = [a] \<Longrightarrow> Fields b = [b] \<Longrightarrow> Fields (a @ CHR 0x20 # b) = [a, b]"
  by (simp add: Fields_def Fields_from_blank)

lemma Fields_Nil [simp]: "Fields [] = []"
  by (simp add: Fields_def Fields_from.simps [of "[]" "[]"] front_free)

lemma Cut_found: "c \<notin> set a \<Longrightarrow> Cut (a @ c # b) c = (a, b, True)"
  by (simp add: Cut_def)

end
