(* ===== verification/Wire_Protocol.thy ===== *)
theory Wire_Protocol
  imports Go_Strings
begin

text \<open>
  The text protocol of \<^verbatim>\<open>src/internal/protocol/protocol.go\<close>: requests and responses, their
  encoders and their decoders.

  A \<open>bufio.Reader\<close> on a connection is the bytes still to come and the error that a read returns
  after them (\<open>io.EOF\<close> when the peer closed, a timeout when the deadline passed). A decoder returns
  an error or the value with the reader that is left. \<open>make\<close> of a slice that exceeds the
  address space panics (\<open>maxAlloc\<close> is the limit of the runtime on 64-bit platforms); nothing in the
  program recovers, so \<open>RuntimePanic\<close> is the end of the process and not an error value of the code.
\<close>

section \<open>Model\<close>

definition CommandSet :: string where "CommandSet = ''SET''"
definition CommandGet :: string where "CommandGet = ''GET''"
definition CommandDelete :: string where "CommandDelete = ''DEL''"
definition CommandOwner :: string where "CommandOwner = ''OWNER''"
definition CommandClusterMembers :: string where "CommandClusterMembers = ''CLUSTER_MEMBERS''"
definition CommandClusterJoin :: string where "CommandClusterJoin = ''CLUSTER_JOIN''"
definition CommandClusterLeave :: string where "CommandClusterLeave = ''CLUSTER_LEAVE''"
definition CommandReplSet :: string where "CommandReplSet = ''REPL_SET''"
definition CommandReplDelete :: string where "CommandReplDelete = ''REPL_DEL''"
definition CommandReplGet :: string where "CommandReplGet = ''REPL_GET''"
definition CommandPing :: string where "CommandPing = ''PING''"
definition CommandMetrics :: string where "CommandMetrics = ''METRICS''"
definition CommandRaftRequestVote :: string where "CommandRaftRequestVote = ''RAFT_REQUEST_VOTE''"
definition CommandRaftAppendEntries :: string where
  "CommandRaftAppendEntries = ''RAFT_APPEND_ENTRIES''"
definition CommandRaftStatus :: string where "CommandRaftStatus = ''RAFT_STATUS''"

lemmas command_defs =
  CommandSet_def CommandGet_def CommandDelete_def CommandOwner_def CommandClusterMembers_def
  CommandClusterJoin_def CommandClusterLeave_def CommandReplSet_def CommandReplDelete_def
  CommandReplGet_def CommandPing_def CommandMetrics_def CommandRaftRequestVote_def
  CommandRaftAppendEntries_def CommandRaftStatus_def

datatype go_error =
    EOF
  | UnexpectedEOF
  | Timeout
  | ErrInvalidRequest string
  | ErrUnknownCommand string
  | InvalidNodeLine string
  | UnknownResponseLine string
  | RuntimePanic

record Request =
  rq_Command :: string
  rq_Key :: string
  rq_Value :: "bytes option"
  rq_TTL :: duration

abbreviation empty_Request :: Request where
  "empty_Request \<equiv> \<lparr>rq_Command = [], rq_Key = [], rq_Value = None, rq_TTL = 0\<rparr>"

datatype ResponseKind =
    ResponseOK
  | ResponseValue
  | ResponseNotFound
  | ResponseError
  | ResponseMoved
  | ResponseOwner
  | ResponseMembers
  | ResponseNotLeader
  | ResponseOther int

record Member =
  m_ID :: string
  m_Addr :: string

record Response =
  rs_Kind :: ResponseKind
  rs_Value :: bytes
  rs_Message :: string
  rs_NodeID :: string
  rs_Addr :: string
  rs_Members :: "Member list"

definition Resp :: "ResponseKind \<Rightarrow> Response" where
  "Resp k = \<lparr>rs_Kind = k, rs_Value = [], rs_Message = [], rs_NodeID = [], rs_Addr = [], rs_Members = []\<rparr>"

abbreviation newline :: char where "newline \<equiv> CHR 0x0A"

text \<open>The commands that carry no key, and those that carry a value.\<close>

definition keyless :: "string \<Rightarrow> bool" where
  "keyless c \<longleftrightarrow>
     c = CommandClusterMembers \<or> c = CommandPing \<or> c = CommandMetrics \<or> c = CommandRaftStatus"

definition setlike :: "string \<Rightarrow> bool" where
  "setlike c \<longleftrightarrow> c = CommandSet \<or> c = CommandReplSet"

definition valued :: "string \<Rightarrow> bool" where
  "valued c \<longleftrightarrow>
     c = CommandClusterJoin \<or> c = CommandRaftRequestVote \<or> c = CommandRaftAppendEntries"

definition EncodeRequest :: "Request \<Rightarrow> go_error + bytes" where
  "EncodeRequest req =
     (if rq_Command req = [] then Inl (ErrInvalidRequest ''empty command'')
      else if rq_Key req = [] \<and> \<not> keyless (rq_Command req) then Inl (ErrInvalidRequest ''empty key'')
      else if setlike (rq_Command req) \<and> rq_Value req = None
      then Inl (ErrInvalidRequest ''SET requires value'')
      else if valued (rq_Command req) \<and> rq_Value req = None
      then Inl (ErrInvalidRequest ''command requires value'')
      else
        let val = (case rq_Value req of None \<Rightarrow> [] | Some v \<Rightarrow> v);
            secs = (if rq_TTL req div second \<le> 0 then 1 else rq_TTL req div second)
        in Inr (''CMD '' @ rq_Command req @ [newline] @
                (if keyless (rq_Command req) then [] else ''KEY '' @ rq_Key req @ [newline]) @
                (if setlike (rq_Command req) \<or> valued (rq_Command req)
                 then ''VAL '' @ Itoa (length val) @ [newline] @ val @ [newline] @
                   (if setlike (rq_Command req) \<and> 0 < rq_TTL req
                    then ''TTL '' @ FormatInt secs @ [newline] else [])
                 else []) @
                ''END'' @ [newline]))"

record reader =
  rd_buf :: string
  rd_end :: go_error

abbreviation NewReader :: "string \<Rightarrow> reader" where
  "NewReader s \<equiv> \<lparr>rd_buf = s, rd_end = EOF\<rparr>"

definition maxAlloc :: int where
  "maxAlloc = 2 ^ 48"

definition readLine :: "reader \<Rightarrow> go_error + string \<times> reader" where
  "readLine r =
     (let line = takeWhile (\<lambda>c. c \<noteq> newline) (rd_buf r);
          rest = dropWhile (\<lambda>c. c \<noteq> newline) (rd_buf r)
      in if rest = [] then Inl (rd_end r)
         else Inr (TrimSuffix line [CHR 0x0D], r\<lparr>rd_buf := tl rest\<rparr>))"

text \<open>\<open>io.ReadFull\<close> into a slice of \<open>n\<close> bytes.\<close>

definition ReadFull :: "nat \<Rightarrow> reader \<Rightarrow> go_error + bytes \<times> reader" where
  "ReadFull n r =
     (if n \<le> length (rd_buf r) then Inr (take n (rd_buf r), r\<lparr>rd_buf := drop n (rd_buf r)\<rparr>)
      else if rd_end r = EOF \<and> rd_buf r \<noteq> [] then Inl UnexpectedEOF
      else Inl (rd_end r))"

text \<open>A value of announced length: \<open>make\<close>, \<open>io.ReadFull\<close>, and the line break after it.\<close>

definition readValue :: "string \<Rightarrow> reader \<Rightarrow> go_error + bytes \<times> reader" where
  "readValue len_field r =
     (case Atoi (TrimSpace len_field) of
        None \<Rightarrow> Inl (ErrInvalidRequest ''invalid value length'')
      | Some len \<Rightarrow>
          (if len < 0 then Inl (ErrInvalidRequest ''invalid value length'')
           else if maxAlloc < len then Inl RuntimePanic
           else (case ReadFull (nat len) r of
                   Inl e \<Rightarrow> Inl e
                 | Inr (val, r1) \<Rightarrow>
                     (case readLine r1 of
                        Inl e \<Rightarrow> Inl e
                      | Inr (_, r2) \<Rightarrow> Inr (val, r2)))))"

definition readEnd :: "reader \<Rightarrow> go_error + reader" where
  "readEnd r =
     (case readLine r of
        Inl e \<Rightarrow> Inl e
      | Inr (endLine, r1) \<Rightarrow>
          (if endLine \<noteq> ''END'' then Inl (ErrInvalidRequest ''missing END line'') else Inr r1))"

definition decodeValueBody :: "reader \<Rightarrow> Request \<Rightarrow> go_error + Request \<times> reader" where
  "decodeValueBody r req =
     (case readLine r of
        Inl e \<Rightarrow> Inl e
      | Inr (valLine, r1) \<Rightarrow>
          (if \<not> HasPrefix valLine ''VAL '' then Inl (ErrInvalidRequest ''missing VAL line'')
           else (case readValue (TrimPrefix valLine ''VAL '') r1 of
                   Inl e \<Rightarrow> Inl e
                 | Inr (val, r2) \<Rightarrow> Inr (req\<lparr>rq_Value := Some val\<rparr>, r2))))"

definition decodeValueRequest :: "reader \<Rightarrow> Request \<Rightarrow> go_error + Request \<times> reader" where
  "decodeValueRequest r req =
     (case decodeValueBody r req of
        Inl e \<Rightarrow> Inl e
      | Inr (req1, r1) \<Rightarrow> (case readEnd r1 of Inl e \<Rightarrow> Inl e | Inr r2 \<Rightarrow> Inr (req1, r2)))"

definition decodeSetRequest :: "reader \<Rightarrow> Request \<Rightarrow> go_error + Request \<times> reader" where
  "decodeSetRequest r req =
     (case decodeValueBody r req of
        Inl e \<Rightarrow> Inl e
      | Inr (req1, r1) \<Rightarrow>
          (case readLine r1 of
             Inl e \<Rightarrow> Inl e
           | Inr (ttlLine, r2) \<Rightarrow>
               (if HasPrefix ttlLine ''TTL ''
                then (case ParseInt (TrimSpace (TrimPrefix ttlLine ''TTL '')) of
                        None \<Rightarrow> Inl (ErrInvalidRequest ''invalid TTL'')
                      | Some seconds \<Rightarrow>
                          (if seconds \<le> 0 then Inl (ErrInvalidRequest ''invalid TTL'')
                           else (case readEnd r2 of
                                   Inl e \<Rightarrow> Inl e
                                 | Inr r3 \<Rightarrow>
                                     Inr (req1\<lparr>rq_TTL := wrap64 (seconds * second)\<rparr>, r3))))
                else if ttlLine \<noteq> ''END'' then Inl (ErrInvalidRequest ''missing END line'')
                else Inr (req1, r2))))"

text \<open>The \<open>switch\<close> on the command of a keyed request.\<close>

definition decodeSwitch :: "reader \<Rightarrow> Request \<Rightarrow> go_error + Request \<times> reader" where
  "decodeSwitch r req =
     (let cmd = rq_Command req
      in if setlike cmd then decodeSetRequest r req
         else if valued cmd then decodeValueRequest r req
         else if cmd = CommandGet \<or> cmd = CommandDelete \<or> cmd = CommandOwner \<or>
                 cmd = CommandClusterLeave \<or> cmd = CommandReplDelete \<or> cmd = CommandReplGet
         then (case readEnd r of Inl e \<Rightarrow> Inl e | Inr r1 \<Rightarrow> Inr (req, r1))
         else Inl (ErrUnknownCommand cmd))"

definition DecodeRequest :: "reader \<Rightarrow> go_error + Request \<times> reader" where
  "DecodeRequest r =
     (case readLine r of
        Inl e \<Rightarrow> Inl e
      | Inr (cmdLine, r1) \<Rightarrow>
          (if \<not> HasPrefix cmdLine ''CMD '' then Inl (ErrInvalidRequest ''missing CMD line'')
           else
             let cmd = TrimSpace (TrimPrefix cmdLine ''CMD '')
             in if cmd = [] then Inl (ErrInvalidRequest ''empty command'')
                else if keyless cmd
                then (case readEnd r1 of
                        Inl e \<Rightarrow> Inl e
                      | Inr r2 \<Rightarrow> Inr (empty_Request\<lparr>rq_Command := cmd\<rparr>, r2))
                else
                  (case readLine r1 of
                     Inl e \<Rightarrow> Inl e
                   | Inr (keyLine, r2) \<Rightarrow>
                       (if \<not> HasPrefix keyLine ''KEY ''
                        then Inl (ErrInvalidRequest ''missing KEY line'')
                        else
                          let key = TrimSpace (TrimPrefix keyLine ''KEY '');
                              req = empty_Request\<lparr>rq_Command := cmd, rq_Key := key\<rparr>
                          in if key = [] then Inl (ErrInvalidRequest ''empty key'')
                             else decodeSwitch r2 req))))"

definition node_line :: "string \<Rightarrow> Response \<Rightarrow> bytes" where
  "node_line tag resp = tag @ rs_NodeID resp @ CHR '' '' # rs_Addr resp @ [newline]"

definition member_line :: "Member \<Rightarrow> bytes" where
  "member_line m = m_ID m @ CHR '' '' # m_Addr m @ [newline]"

definition EncodeResponse :: "Response \<Rightarrow> go_error + bytes" where
  "EncodeResponse resp =
     (case (case rs_Kind resp of
              ResponseOK \<Rightarrow> Some (''OK'' @ [newline])
            | ResponseValue \<Rightarrow>
                Some (''VAL '' @ Itoa (length (rs_Value resp)) @ [newline] @ rs_Value resp @ [newline])
            | ResponseNotFound \<Rightarrow> Some (''NIL'' @ [newline])
            | ResponseError \<Rightarrow>
                Some (''ERR '' @ (if rs_Message resp = [] then ''error'' else rs_Message resp) @ [newline])
            | ResponseMoved \<Rightarrow> Some (node_line ''MOVED '' resp)
            | ResponseOwner \<Rightarrow> Some (node_line ''OWNER '' resp)
            | ResponseMembers \<Rightarrow>
                Some (''MEMBERS '' @ Itoa (length (rs_Members resp)) @ [newline] @
                      concat (map member_line (rs_Members resp)))
            | ResponseNotLeader \<Rightarrow> Some (node_line ''NOT_LEADER '' resp)
            | ResponseOther _ \<Rightarrow> None) of
        None \<Rightarrow> Inl (ErrInvalidRequest ''unknown response kind'')
      | Some body \<Rightarrow> Inr (body @ ''END'' @ [newline]))"

definition decodeNodeLine :: "string \<Rightarrow> string \<Rightarrow> go_error + string \<times> string" where
  "decodeNodeLine line tag =
     (case Fields (TrimPrefix line tag) of
        [nodeID, addr] \<Rightarrow> Inr (nodeID, addr)
      | _ \<Rightarrow> Inl (InvalidNodeLine line))"

text \<open>The loop that reads \<open>count\<close> member lines.\<close>

fun readMembers :: "nat \<Rightarrow> reader \<Rightarrow> go_error + Member list \<times> reader" where
  "readMembers 0 r = Inr ([], r)"
| "readMembers (Suc n) r =
     (case readLine r of
        Inl e \<Rightarrow> Inl e
      | Inr (memberLine, r1) \<Rightarrow>
          (case Cut memberLine (CHR '' '') of
             (i, addr, ok) \<Rightarrow>
               (if \<not> ok \<or> i = [] \<or> addr = [] then Inl (ErrInvalidRequest ''invalid member line'')
                else (case readMembers n r1 of
                        Inl e \<Rightarrow> Inl e
                      | Inr (ms, r2) \<Rightarrow> Inr (\<lparr>m_ID = i, m_Addr = addr\<rparr> # ms, r2)))))"

definition decodeNodeResponse ::
  "ResponseKind \<Rightarrow> string \<Rightarrow> string \<Rightarrow> reader \<Rightarrow> go_error + Response \<times> reader" where
  "decodeNodeResponse kind line tag r =
     (case decodeNodeLine line tag of
        Inl e \<Rightarrow> Inl e
      | Inr (nodeID, addr) \<Rightarrow> Inr ((Resp kind)\<lparr>rs_NodeID := nodeID, rs_Addr := addr\<rparr>, r))"

text \<open>The \<open>switch\<close> on the first line; a \<open>Member\<close> takes 32 bytes.\<close>

definition decodeBody :: "string \<Rightarrow> reader \<Rightarrow> go_error + Response \<times> reader" where
  "decodeBody line r =
     (if line = ''OK'' then Inr (Resp ResponseOK, r)
      else if line = ''NIL'' then Inr (Resp ResponseNotFound, r)
      else if HasPrefix line ''ERR ''
      then Inr ((Resp ResponseError)\<lparr>rs_Message := TrimSpace (TrimPrefix line ''ERR '')\<rparr>, r)
      else if HasPrefix line ''MOVED '' then decodeNodeResponse ResponseMoved line ''MOVED '' r
      else if HasPrefix line ''OWNER '' then decodeNodeResponse ResponseOwner line ''OWNER '' r
      else if HasPrefix line ''MEMBERS ''
      then (case Atoi (TrimSpace (TrimPrefix line ''MEMBERS '')) of
              None \<Rightarrow> Inl (ErrInvalidRequest ''invalid members count'')
            | Some cnt \<Rightarrow>
                (if cnt < 0 then Inl (ErrInvalidRequest ''invalid members count'')
                 else if maxAlloc < 32 * cnt then Inl RuntimePanic
                 else (case readMembers (nat cnt) r of
                         Inl e \<Rightarrow> Inl e
                       | Inr (ms, r1) \<Rightarrow> Inr ((Resp ResponseMembers)\<lparr>rs_Members := ms\<rparr>, r1))))
      else if HasPrefix line ''NOT_LEADER ''
      then decodeNodeResponse ResponseNotLeader line ''NOT_LEADER '' r
      else if HasPrefix line ''VAL ''
      then (case readValue (TrimPrefix line ''VAL '') r of
              Inl e \<Rightarrow> Inl e
            | Inr (val, r1) \<Rightarrow> Inr ((Resp ResponseValue)\<lparr>rs_Value := val\<rparr>, r1))
      else Inl (UnknownResponseLine line))"

definition DecodeResponse :: "reader \<Rightarrow> go_error + Response \<times> reader" where
  "DecodeResponse r =
     (case readLine r of
        Inl e \<Rightarrow> Inl e
      | Inr (line, r1) \<Rightarrow>
          (case decodeBody line r1 of
             Inl e \<Rightarrow> Inl e
           | Inr (resp, r2) \<Rightarrow>
               (case readEnd r2 of Inl e \<Rightarrow> Inl e | Inr r3 \<Rightarrow> Inr (resp, r3))))"

section \<open>Lemmas\<close>

subsection \<open>Reading lines and values\<close>

text \<open>A line that can be framed: no line break inside and no carriage return at its end.\<close>

definition framed :: "string \<Rightarrow> bool" where
  "framed l \<longleftrightarrow> newline \<notin> set l \<and> \<not> suffix [CHR 0x0D] l"

lemma readLine_framed:
  "framed l \<Longrightarrow> readLine \<lparr>rd_buf = l @ newline # rest, rd_end = e\<rparr> = Inr (l, \<lparr>rd_buf = rest, rd_end = e\<rparr>)"
  by (simp add: readLine_def framed_def TrimSuffix_def)

lemma readLine_cases:
  assumes "readLine r = Inr (l, r')"
  obtains pre where "rd_buf r = pre @ newline # rd_buf r'" "newline \<notin> set pre"
    "l = TrimSuffix pre [CHR 0x0D]" "rd_end r' = rd_end r"
proof -
  let ?p = "\<lambda>c. c \<noteq> newline"
  have d: "dropWhile ?p (rd_buf r) = newline # tl (dropWhile ?p (rd_buf r))"
    if "dropWhile ?p (rd_buf r) \<noteq> []"
    using that hd_dropWhile [of ?p "rd_buf r"] by (metis (full_types) list.collapse)
  have "rd_buf r = takeWhile ?p (rd_buf r) @ dropWhile ?p (rd_buf r)" by simp
  moreover have "newline \<notin> set (takeWhile ?p (rd_buf r))" by (auto dest: set_takeWhileD)
  ultimately show ?thesis
    using assms that [of "takeWhile ?p (rd_buf r)"] d
    by (auto simp: readLine_def Let_def split: if_splits)
qed

lemma readLine_shorter: "readLine r = Inr (l, r') \<Longrightarrow> length (rd_buf r') < length (rd_buf r)"
  by (elim readLine_cases) simp

lemma readEnd_END [simp]:
  "readEnd \<lparr>rd_buf = ''END\<newline>'' @ rest, rd_end = e\<rparr> = Inr \<lparr>rd_buf = rest, rd_end = e\<rparr>"
  using readLine_framed [of "''END''" rest e]
  by (simp add: readEnd_def framed_def suffix_Cons)

lemma readValue_encoded:
  assumes "int (length v) \<le> maxAlloc"
  shows "readValue (Itoa (length v)) \<lparr>rd_buf = v @ newline # rest, rd_end = e\<rparr> =
    Inr (v, \<lparr>rd_buf = rest, rd_end = e\<rparr>)"
proof -
  have "length v < 2 ^ 63" using assms by (simp add: maxAlloc_def)
  moreover have "readLine \<lparr>rd_buf = newline # rest, rd_end = e\<rparr> = Inr ([], \<lparr>rd_buf = rest, rd_end = e\<rparr>)"
    using readLine_framed [of "[]" rest e] by (simp add: framed_def)
  ultimately show ?thesis
    using assms by (simp add: readValue_def ReadFull_def)
qed

lemma framed_tagged:
  assumes "newline \<notin> set tag" and "newline \<notin> set s" and "s \<noteq> []" and "TrimSpace s = s"
  shows "framed (tag @ s)"
proof -
  have "\<not> suffix [CHR 0x0D] (tag @ s)"
    using trimmed_no_CR [OF assms(4,3)] assms(3) by (auto simp: suffix_def dest: arg_cong [of _ _ last])
  with assms(1,2) show ?thesis by (simp add: framed_def)
qed

text \<open>One tagged line, as every header line of the protocol is.\<close>

lemma readLine_tagged:
  assumes "newline \<notin> set tag" and "newline \<notin> set s" and "s \<noteq> []" and "TrimSpace s = s"
  shows "readLine \<lparr>rd_buf = tag @ s @ newline # rest, rd_end = e\<rparr> =
    Inr (tag @ s, \<lparr>rd_buf = rest, rd_end = e\<rparr>)"
  using readLine_framed [OF framed_tagged [OF assms], of rest e] by simp

subsection \<open>Requests\<close>

definition known_commands :: "string list" where
  "known_commands =
     [CommandSet, CommandGet, CommandDelete, CommandOwner, CommandClusterMembers,
      CommandClusterJoin, CommandClusterLeave, CommandReplSet, CommandReplDelete, CommandReplGet,
      CommandPing, CommandMetrics, CommandRaftRequestVote, CommandRaftAppendEntries,
      CommandRaftStatus]"

text \<open>
  The requests that survive the wire: a known command, a key without line breaks and without blanks
  at its ends, a value where the command has one, a TTL in the range of \<open>int64\<close>.
\<close>

definition sendable :: "Request \<Rightarrow> bool" where
  "sendable req \<longleftrightarrow>
     rq_Command req \<in> set known_commands \<and>
     (keyless (rq_Command req) \<or>
      rq_Key req \<noteq> [] \<and> TrimSpace (rq_Key req) = rq_Key req \<and> newline \<notin> set (rq_Key req)) \<and>
     (setlike (rq_Command req) \<or> valued (rq_Command req) \<longrightarrow>
      (\<exists>v. rq_Value req = Some v \<and> int (length v) \<le> maxAlloc)) \<and>
     rq_TTL req < 2 ^ 63"

text \<open>What arrives: fields the command does not carry are dropped, a TTL is in whole seconds.\<close>

definition received :: "Request \<Rightarrow> Request" where
  "received req =
     \<lparr>rq_Command = rq_Command req,
      rq_Key = (if keyless (rq_Command req) then [] else rq_Key req),
      rq_Value = (if setlike (rq_Command req) \<or> valued (rq_Command req) then rq_Value req else None),
      rq_TTL = (if setlike (rq_Command req) \<and> 0 < rq_TTL req
                then (if rq_TTL req < second then second else rq_TTL req div second * second) else 0)\<rparr>"

lemma known_commands_clean:
  "\<forall>c \<in> set known_commands. c \<noteq> [] \<and> TrimSpace c = c \<and> newline \<notin> set c"
  by code_simp

lemma known_commands_cases:
  assumes "c \<in> set known_commands"
  obtains (keyless) "keyless c"
  | (setlike) "setlike c" "\<not> keyless c" "\<not> valued c"
  | (valued) "valued c" "\<not> keyless c" "\<not> setlike c"
  | (plain) "c = CommandGet \<or> c = CommandDelete \<or> c = CommandOwner \<or> c = CommandClusterLeave \<or>
             c = CommandReplDelete \<or> c = CommandReplGet"
      "\<not> keyless c" "\<not> setlike c" "\<not> valued c"
proof -
  have "\<forall>c \<in> set known_commands.
    keyless c \<or> setlike c \<and> \<not> keyless c \<and> \<not> valued c \<or> valued c \<and> \<not> keyless c \<and> \<not> setlike c \<or>
    (c = CommandGet \<or> c = CommandDelete \<or> c = CommandOwner \<or> c = CommandClusterLeave \<or>
     c = CommandReplDelete \<or> c = CommandReplGet) \<and> \<not> keyless c \<and> \<not> setlike c \<and> \<not> valued c"
    by code_simp
  with assms that show ?thesis by blast
qed

lemma decodeValueBody_encoded:
  assumes "int (length v) \<le> maxAlloc"
  shows "decodeValueBody
      \<lparr>rd_buf = ''VAL '' @ Itoa (length v) @ newline # v @ newline # rest, rd_end = e\<rparr> req =
    Inr (req\<lparr>rq_Value := Some v\<rparr>, \<lparr>rd_buf = rest, rd_end = e\<rparr>)"
proof -
  have "readLine \<lparr>rd_buf = ''VAL '' @ Itoa (length v) @ newline # v @ newline # rest, rd_end = e\<rparr> =
      Inr (''VAL '' @ Itoa (length v), \<lparr>rd_buf = v @ newline # rest, rd_end = e\<rparr>)"
    by (rule readLine_tagged) simp_all
  then show ?thesis
    using readValue_encoded [OF assms, of rest e] prefix_append_drop [of "''VAL ''" "Itoa (length v)"]
    by (simp add: decodeValueBody_def)
qed

lemma readLine_END:
  "readLine \<lparr>rd_buf = ''END'' @ newline # rest, rd_end = e\<rparr> = Inr (''END'', \<lparr>rd_buf = rest, rd_end = e\<rparr>)"
  by (rule readLine_framed) (simp add: framed_def suffix_Cons)

lemma readEnd_encoded:
  "readEnd \<lparr>rd_buf = ''END'' @ newline # rest, rd_end = e\<rparr> = Inr \<lparr>rd_buf = rest, rd_end = e\<rparr>"
  by (simp add: readEnd_def readLine_END del: append.simps)

lemma decodeSetRequest_plain:
  assumes "int (length v) \<le> maxAlloc"
  shows "decodeSetRequest
      \<lparr>rd_buf = ''VAL '' @ Itoa (length v) @ newline # v @ newline # ''END'' @ newline # rest,
       rd_end = e\<rparr> req =
    Inr (req\<lparr>rq_Value := Some v\<rparr>, \<lparr>rd_buf = rest, rd_end = e\<rparr>)"
  using decodeValueBody_encoded [OF assms, of "''END'' @ newline # rest" e req] readLine_END [of rest e]
  by (simp add: decodeSetRequest_def)

lemma decodeSetRequest_ttl:
  assumes "int (length v) \<le> maxAlloc" and "0 < secs" and "secs < 2 ^ 63"
  shows "decodeSetRequest
      \<lparr>rd_buf = ''VAL '' @ Itoa (length v) @ newline # v @ newline #
         ''TTL '' @ Itoa secs @ newline # ''END'' @ newline # rest, rd_end = e\<rparr> req =
    Inr (req\<lparr>rq_Value := Some v, rq_TTL := wrap64 (int secs * second)\<rparr>, \<lparr>rd_buf = rest, rd_end = e\<rparr>)"
proof -
  let ?tail = "''END'' @ newline # rest"
  have "readLine \<lparr>rd_buf = ''TTL '' @ Itoa secs @ newline # ?tail, rd_end = e\<rparr> =
      Inr (''TTL '' @ Itoa secs, \<lparr>rd_buf = ?tail, rd_end = e\<rparr>)"
    by (rule readLine_tagged) simp_all
  moreover have "TrimPrefix (''TTL '' @ Itoa secs) ''TTL '' = Itoa secs"
    by (rule prefix_append_drop)
  ultimately show ?thesis
    using decodeValueBody_encoded [OF assms(1), of "''TTL '' @ Itoa secs @ newline # ?tail" e req]
      readEnd_encoded [of rest e] assms(2,3)
    by (simp add: decodeSetRequest_def)
qed

lemma decodeValueRequest_encoded:
  assumes "int (length v) \<le> maxAlloc"
  shows "decodeValueRequest
      \<lparr>rd_buf = ''VAL '' @ Itoa (length v) @ newline # v @ newline # ''END'' @ newline # rest,
       rd_end = e\<rparr> req =
    Inr (req\<lparr>rq_Value := Some v\<rparr>, \<lparr>rd_buf = rest, rd_end = e\<rparr>)"
  using decodeValueBody_encoded [OF assms, of "''END'' @ newline # rest" e req] readEnd_encoded [of rest e]
  by (simp add: decodeValueRequest_def)

text \<open>The header lines of a keyed request select the decoder of its body.\<close>

lemma DecodeRequest_keyed:
  assumes c: "c \<in> set known_commands" "\<not> keyless c"
    and k: "k \<noteq> []" "TrimSpace k = k" "newline \<notin> set k"
  shows "DecodeRequest
      \<lparr>rd_buf = ''CMD '' @ c @ newline # ''KEY '' @ k @ newline # body, rd_end = e\<rparr> =
    decodeSwitch \<lparr>rd_buf = body, rd_end = e\<rparr> (empty_Request\<lparr>rq_Command := c, rq_Key := k\<rparr>)"
proof -
  have cc: "c \<noteq> []" "TrimSpace c = c" "newline \<notin> set c" using known_commands_clean c(1) by auto
  have l1: "readLine \<lparr>rd_buf = ''CMD '' @ c @ newline # ''KEY '' @ k @ newline # body, rd_end = e\<rparr> =
      Inr (''CMD '' @ c, \<lparr>rd_buf = ''KEY '' @ k @ newline # body, rd_end = e\<rparr>)"
    using cc by (intro readLine_tagged) simp_all
  have l2: "readLine \<lparr>rd_buf = ''KEY '' @ k @ newline # body, rd_end = e\<rparr> =
      Inr (''KEY '' @ k, \<lparr>rd_buf = body, rd_end = e\<rparr>)"
    using k by (intro readLine_tagged) simp_all
  have p: "TrimPrefix (''CMD '' @ c) ''CMD '' = c" "TrimPrefix (''KEY '' @ k) ''KEY '' = k"
    by (rule prefix_append_drop)+
  show ?thesis
    by (simp only: DecodeRequest_def l1 l2 sum.case prod.case Let_def prefixI p cc k c(2)
          if_True if_False simp_thms)
qed

lemma DecodeRequest_keyless:
  assumes c: "c \<in> set known_commands" "keyless c"
  shows "DecodeRequest \<lparr>rd_buf = ''CMD '' @ c @ newline # ''END'' @ newline # rest, rd_end = e\<rparr> =
    Inr (empty_Request\<lparr>rq_Command := c\<rparr>, \<lparr>rd_buf = rest, rd_end = e\<rparr>)"
proof -
  have cc: "c \<noteq> []" "TrimSpace c = c" "newline \<notin> set c" using known_commands_clean c(1) by auto
  have l1: "readLine \<lparr>rd_buf = ''CMD '' @ c @ newline # ''END'' @ newline # rest, rd_end = e\<rparr> =
      Inr (''CMD '' @ c, \<lparr>rd_buf = ''END'' @ newline # rest, rd_end = e\<rparr>)"
    using cc by (intro readLine_tagged) simp_all
  have p: "TrimPrefix (''CMD '' @ c) ''CMD '' = c"
    by (rule prefix_append_drop)
  show ?thesis
    by (simp only: DecodeRequest_def l1 sum.case prod.case Let_def prefixI p cc c(2)
          readEnd_encoded if_True if_False simp_thms)
qed

lemma ttl_seconds:
  assumes "0 < ttl" and "ttl < 2 ^ 63"
  defines "secs \<equiv> if ttl div second \<le> 0 then 1 else ttl div second"
  shows "FormatInt secs = Itoa (nat secs)" and "0 < nat secs" and "nat secs < 2 ^ 63"
    and "wrap64 (int (nat secs) * second) = (if ttl < second then second else ttl div second * second)"
proof -
  have pos: "0 < secs" using assms(1) by (auto simp: secs_def)
  then show "FormatInt secs = Itoa (nat secs)" and "0 < nat secs" by (simp_all add: FormatInt_def)
  have le: "ttl div second * second \<le> ttl" by (simp add: mult.commute)
  have small: "ttl div second \<le> 0 \<longleftrightarrow> ttl < second" using assms(1) by auto
  have eq: "secs * second = (if ttl < second then second else ttl div second * second)"
    by (simp add: secs_def small)
  have "secs * second < 2 ^ 63"
    using eq le assms(2) by (auto split: if_splits)
  then show "wrap64 (int (nat secs) * second) = (if ttl < second then second else ttl div second * second)"
    using pos eq by (simp add: wrap64_id)
  from \<open>secs * second < 2 ^ 63\<close> pos show "nat secs < 2 ^ 63" by simp
qed

lemma request_roundtrip_lemma:
  assumes "sendable req"
  shows "\<exists>bs. EncodeRequest req = Inr bs \<and>
    (\<forall>rest e. DecodeRequest \<lparr>rd_buf = bs @ rest, rd_end = e\<rparr> =
       Inr (received req, \<lparr>rd_buf = rest, rd_end = e\<rparr>))"
proof -
  let ?c = "rq_Command req" and ?k = "rq_Key req"
  have c: "?c \<in> set known_commands" and cne: "?c \<noteq> []"
    using assms known_commands_clean by (auto simp: sendable_def)
  from c show ?thesis
  proof (cases rule: known_commands_cases)
    case keyless
    then have "\<not> setlike ?c" "\<not> valued ?c"
      by (auto simp: keyless_def setlike_def valued_def command_defs)
    with keyless show ?thesis
      using DecodeRequest_keyless [OF c keyless] cne
      by (simp add: EncodeRequest_def received_def decodeSwitch_def Let_def)
  next
    case setlike
    then have k: "?k \<noteq> []" "TrimSpace ?k = ?k" "newline \<notin> set ?k" and ttl: "rq_TTL req < 2 ^ 63"
      using assms by (auto simp: sendable_def)
    obtain v where v: "rq_Value req = Some v" "int (length v) \<le> maxAlloc"
      using assms setlike by (auto simp: sendable_def)
    show ?thesis
    proof (cases "0 < rq_TTL req")
      case True
      note t = ttl_seconds [OF True ttl]
      show ?thesis
        using DecodeRequest_keyed [OF c setlike(2) k] decodeSetRequest_ttl [OF v(2) t(2,3)]
          setlike k v(1) cne True t(1,4)
        by (simp add: EncodeRequest_def received_def decodeSwitch_def Let_def)
    next
      case False
      then show ?thesis
        using DecodeRequest_keyed [OF c setlike(2) k] decodeSetRequest_plain [OF v(2)]
          setlike k v(1) cne
        by (simp add: EncodeRequest_def received_def decodeSwitch_def Let_def)
    qed
  next
    case valued
    then have k: "?k \<noteq> []" "TrimSpace ?k = ?k" "newline \<notin> set ?k"
      using assms by (auto simp: sendable_def)
    obtain v where v: "rq_Value req = Some v" "int (length v) \<le> maxAlloc"
      using assms valued by (auto simp: sendable_def)
    show ?thesis
      using DecodeRequest_keyed [OF c valued(2) k] decodeValueRequest_encoded [OF v(2)] valued k v(1) cne
      by (simp add: EncodeRequest_def received_def decodeSwitch_def Let_def)
  next
    case plain
    then have k: "?k \<noteq> []" "TrimSpace ?k = ?k" "newline \<notin> set ?k"
      using assms by (auto simp: sendable_def)
    show ?thesis
      using DecodeRequest_keyed [OF c plain(2) k] readEnd_encoded plain k cne
      by (simp add: EncodeRequest_def received_def decodeSwitch_def Let_def)
  qed
qed

subsection \<open>Responses\<close>

text \<open>A token of a node line: one field, without blanks or line breaks.\<close>

definition token :: "string \<Rightarrow> bool" where
  "token a \<longleftrightarrow> Fields a = [a] \<and> TrimSpace a = a \<and> newline \<notin> set a"

definition member_ok :: "Member \<Rightarrow> bool" where
  "member_ok m \<longleftrightarrow>
     m_ID m \<noteq> [] \<and> CHR '' '' \<notin> set (m_ID m) \<and> newline \<notin> set (m_ID m) \<and>
     m_Addr m \<noteq> [] \<and> newline \<notin> set (m_Addr m) \<and> \<not> suffix [CHR 0x0D] (m_Addr m)"

text \<open>The responses that survive the wire, and what arrives of them.\<close>

definition deliverable :: "Response \<Rightarrow> bool" where
  "deliverable resp \<longleftrightarrow>
     (case rs_Kind resp of
        ResponseOK \<Rightarrow> True
      | ResponseNotFound \<Rightarrow> True
      | ResponseValue \<Rightarrow> int (length (rs_Value resp)) \<le> maxAlloc
      | ResponseError \<Rightarrow> TrimSpace (rs_Message resp) = rs_Message resp \<and> newline \<notin> set (rs_Message resp)
      | ResponseMembers \<Rightarrow>
          (\<forall>m \<in> set (rs_Members resp). member_ok m) \<and> 32 * int (length (rs_Members resp)) \<le> maxAlloc
      | ResponseOther _ \<Rightarrow> False
      | _ \<Rightarrow> token (rs_NodeID resp) \<and> token (rs_Addr resp))"

definition delivered :: "Response \<Rightarrow> Response" where
  "delivered resp =
     (case rs_Kind resp of
        ResponseValue \<Rightarrow> (Resp ResponseValue)\<lparr>rs_Value := rs_Value resp\<rparr>
      | ResponseError \<Rightarrow>
          (Resp ResponseError)\<lparr>rs_Message :=
             (if rs_Message resp = [] then ''error'' else rs_Message resp)\<rparr>
      | ResponseMembers \<Rightarrow> (Resp ResponseMembers)\<lparr>rs_Members := rs_Members resp\<rparr>
      | ResponseOK \<Rightarrow> Resp ResponseOK
      | ResponseNotFound \<Rightarrow> Resp ResponseNotFound
      | k \<Rightarrow> (Resp k)\<lparr>rs_NodeID := rs_NodeID resp, rs_Addr := rs_Addr resp\<rparr>)"

lemma token_nonempty: "token a \<Longrightarrow> a \<noteq> []"
  by (auto simp: token_def)

lemma readLine_node:
  assumes "token i" and "token a" and "newline \<notin> set tag"
  shows "readLine \<lparr>rd_buf = tag @ i @ CHR '' '' # a @ newline # rest, rd_end = e\<rparr> =
    Inr (tag @ i @ CHR '' '' # a, \<lparr>rd_buf = rest, rd_end = e\<rparr>)"
  using readLine_tagged [of "tag @ i @ '' ''" a rest e] assms token_nonempty [OF assms(2)]
  by (simp add: token_def)

lemma decodeNodeLine_encoded:
  assumes "token i" and "token a"
  shows "decodeNodeLine (tag @ i @ CHR '' '' # a) tag = Inr (i, a)"
  using assms by (simp add: decodeNodeLine_def Fields_two token_def)

lemma decodeNodeResponse_encoded:
  assumes "token i" and "token a"
  shows "decodeNodeResponse kind (tag @ i @ CHR '' '' # a) tag r =
    Inr ((Resp kind)\<lparr>rs_NodeID := i, rs_Addr := a\<rparr>, r)"
  by (simp add: decodeNodeResponse_def decodeNodeLine_encoded [OF assms])

lemma readMembers_encoded:
  "\<forall>m \<in> set ms. member_ok m \<Longrightarrow>
   readMembers (length ms) \<lparr>rd_buf = concat (map member_line ms) @ rest, rd_end = e\<rparr> =
     Inr (ms, \<lparr>rd_buf = rest, rd_end = e\<rparr>)"
proof (induction ms)
  case (Cons m ms)
  have "framed (m_ID m @ CHR '' '' # m_Addr m)"
    using Cons.prems
    by (cases "m_Addr m" rule: rev_cases)
       (auto simp: framed_def member_ok_def suffix_def dest: arg_cong [of _ _ last])
  then have "readLine \<lparr>rd_buf = concat (map member_line (m # ms)) @ rest, rd_end = e\<rparr> =
      Inr (m_ID m @ CHR '' '' # m_Addr m, \<lparr>rd_buf = concat (map member_line ms) @ rest, rd_end = e\<rparr>)"
    using readLine_framed [of "m_ID m @ CHR '' '' # m_Addr m" "concat (map member_line ms) @ rest" e]
    by (simp add: member_line_def)
  with Cons show ?case by (simp add: Cut_found member_ok_def)
qed simp

definition survives :: "Response \<Rightarrow> bool" where
  "survives resp \<longleftrightarrow>
     (\<exists>bs. EncodeResponse resp = Inr bs \<and>
       (\<forall>rest e. DecodeResponse \<lparr>rd_buf = bs @ rest, rd_end = e\<rparr> =
          Inr (delivered resp, \<lparr>rd_buf = rest, rd_end = e\<rparr>)))"

lemmas response_defs = survives_def EncodeResponse_def DecodeResponse_def decodeBody_def delivered_def

lemma survives_status:
  assumes "rs_Kind resp = ResponseOK \<or> rs_Kind resp = ResponseNotFound"
  shows "survives resp"
proof -
  have "readLine \<lparr>rd_buf = ''OK'' @ newline # s, rd_end = e\<rparr> = Inr (''OK'', \<lparr>rd_buf = s, rd_end = e\<rparr>)"
    and "readLine \<lparr>rd_buf = ''NIL'' @ newline # s, rd_end = e\<rparr> = Inr (''NIL'', \<lparr>rd_buf = s, rd_end = e\<rparr>)"
    for s e by (rule readLine_framed, simp add: framed_def suffix_Cons)+
  with assms show ?thesis using readEnd_encoded by (auto simp: response_defs)
qed

lemma survives_value:
  assumes "rs_Kind resp = ResponseValue" and "int (length (rs_Value resp)) \<le> maxAlloc"
  shows "survives resp"
proof -
  let ?v = "rs_Value resp"
  have "readLine \<lparr>rd_buf = ''VAL '' @ Itoa (length ?v) @ newline # s, rd_end = e\<rparr> =
      Inr (''VAL '' @ Itoa (length ?v), \<lparr>rd_buf = s, rd_end = e\<rparr>)" for s e
    by (rule readLine_tagged) simp_all
  with assms(1) show ?thesis
    using readEnd_encoded readValue_encoded [OF assms(2)] prefix_append_drop [of "''VAL ''"]
    by (simp add: response_defs)
qed

lemma survives_error:
  assumes "rs_Kind resp = ResponseError" and "TrimSpace (rs_Message resp) = rs_Message resp"
    and "newline \<notin> set (rs_Message resp)"
  shows "survives resp"
proof -
  let ?m = "if rs_Message resp = [] then ''error'' else rs_Message resp"
  have m: "?m \<noteq> []" "TrimSpace ?m = ?m" "newline \<notin> set ?m"
    using assms by auto code_simp
  have "readLine \<lparr>rd_buf = ''ERR '' @ ?m @ newline # s, rd_end = e\<rparr> =
      Inr (''ERR '' @ ?m, \<lparr>rd_buf = s, rd_end = e\<rparr>)" for s e
    using m by (intro readLine_tagged) simp_all
  with assms(1) show ?thesis
    using readEnd_encoded prefix_append_drop [of "''ERR ''" ?m] m by (simp add: response_defs)
qed

lemma survives_members:
  assumes "rs_Kind resp = ResponseMembers" and "\<forall>m \<in> set (rs_Members resp). member_ok m"
    and "32 * int (length (rs_Members resp)) \<le> maxAlloc"
  shows "survives resp"
proof -
  let ?ms = "rs_Members resp"
  have "length ?ms < 2 ^ 63" using assms(3) by (simp add: maxAlloc_def)
  moreover have "readLine \<lparr>rd_buf = ''MEMBERS '' @ Itoa (length ?ms) @ newline # s, rd_end = e\<rparr> =
      Inr (''MEMBERS '' @ Itoa (length ?ms), \<lparr>rd_buf = s, rd_end = e\<rparr>)" for s e
    by (rule readLine_tagged) simp_all
  ultimately show ?thesis
    using assms readEnd_encoded readMembers_encoded [OF assms(2)]
      prefix_append_drop [of "''MEMBERS ''" "Itoa (length ?ms)"]
    by (simp add: response_defs)
qed

lemma survives_node:
  assumes "rs_Kind resp \<in> {ResponseMoved, ResponseOwner, ResponseNotLeader}"
    and "token (rs_NodeID resp)" and "token (rs_Addr resp)"
  shows "survives resp"
proof -
  obtain tag where tag: "newline \<notin> set tag"
    and enc: "EncodeResponse resp = Inr (node_line tag resp @ ''END'' @ [newline])"
    and dec: "\<And>r. decodeBody (tag @ rs_NodeID resp @ CHR '' '' # rs_Addr resp) r =
      decodeNodeResponse (rs_Kind resp) (tag @ rs_NodeID resp @ CHR '' '' # rs_Addr resp) tag r"
    using assms(1)
      that [of "''MOVED ''"] that [of "''OWNER ''"] that [of "''NOT_LEADER ''"]
    by (auto simp: EncodeResponse_def decodeBody_def)
  with assms readLine_node [OF assms(2,3) tag] readEnd_encoded decodeNodeResponse_encoded [OF assms(2,3)]
  show ?thesis by (auto simp: survives_def DecodeResponse_def node_line_def delivered_def)
qed

lemma response_roundtrip_lemma: "deliverable resp \<Longrightarrow> survives resp"
  by (cases "rs_Kind resp")
     (auto simp: deliverable_def intro: survives_status survives_value survives_error
        survives_members survives_node)

subsection \<open>What the request decoder accepts\<close>

lemma readEnd_shorter: "readEnd r = Inr r' \<Longrightarrow> length (rd_buf r') < length (rd_buf r)"
  by (auto simp: readEnd_def dest: readLine_shorter split: sum.splits if_splits)

lemma ReadFull_le: "ReadFull n r = Inr (v, r') \<Longrightarrow> length (rd_buf r') \<le> length (rd_buf r)"
  by (auto simp: ReadFull_def split: if_splits)

lemma readValue_shorter: "readValue f r = Inr (v, r') \<Longrightarrow> length (rd_buf r') < length (rd_buf r)"
  by (auto simp: readValue_def dest!: ReadFull_le readLine_shorter
           split: option.splits if_splits sum.splits)

lemma decodeValueBody_accepts:
  assumes "decodeValueBody r req = Inr (req', r')"
  shows "length (rd_buf r') < length (rd_buf r) \<and> (\<exists>v. req' = req\<lparr>rq_Value := Some v\<rparr>)"
  using assms
  by (auto simp: decodeValueBody_def dest!: readLine_shorter readValue_shorter
           split: sum.splits if_splits)

lemma decodeValueRequest_accepts:
  assumes "decodeValueRequest r req = Inr (req', r')"
  shows "length (rd_buf r') < length (rd_buf r) \<and> (\<exists>v. req' = req\<lparr>rq_Value := Some v\<rparr>)"
  using assms
  by (fastforce simp: decodeValueRequest_def dest: decodeValueBody_accepts readEnd_shorter
           split: sum.splits)

lemma decodeSetRequest_accepts:
  assumes "decodeSetRequest r req = Inr (req', r')"
  shows "length (rd_buf r') < length (rd_buf r) \<and>
    (\<exists>v. req' = req\<lparr>rq_Value := Some v\<rparr> \<or>
         (\<exists>secs > 0. req' = req\<lparr>rq_Value := Some v, rq_TTL := wrap64 (secs * second)\<rparr>))"
proof -
  obtain req1 r1 ttlLine r2 where
    body: "decodeValueBody r req = Inr (req1, r1)" and line: "readLine r1 = Inr (ttlLine, r2)"
    and rest: "(if HasPrefix ttlLine ''TTL ''
                then (case ParseInt (TrimSpace (TrimPrefix ttlLine ''TTL '')) of
                        None \<Rightarrow> Inl (ErrInvalidRequest ''invalid TTL'')
                      | Some seconds \<Rightarrow>
                          (if seconds \<le> 0 then Inl (ErrInvalidRequest ''invalid TTL'')
                           else (case readEnd r2 of
                                   Inl e \<Rightarrow> Inl e
                                 | Inr r3 \<Rightarrow> Inr (req1\<lparr>rq_TTL := wrap64 (seconds * second)\<rparr>, r3))))
                else if ttlLine \<noteq> ''END'' then Inl (ErrInvalidRequest ''missing END line'')
                else Inr (req1, r2)) = Inr (req', r')"
    using assms by (auto simp: decodeSetRequest_def split: sum.splits)
  from decodeValueBody_accepts [OF body] obtain v where
    v: "req1 = req\<lparr>rq_Value := Some v\<rparr>" and l1: "length (rd_buf r1) < length (rd_buf r)" by auto
  have l2: "length (rd_buf r2) < length (rd_buf r1)" using line by (rule readLine_shorter)
  show ?thesis
    using rest l1 l2 v
    by (force dest!: readEnd_shorter split: if_splits option.splits sum.splits)
qed

lemma key_trimmed:
  assumes "readLine r = Inr (l, r')"
  shows "newline \<notin> set (TrimSpace (TrimPrefix l p))"
proof -
  obtain pre where "newline \<notin> set pre" and l: "l = TrimSuffix pre [CHR 0x0D]"
    using assms by (rule readLine_cases)
  then have "newline \<notin> set l" by (auto simp: TrimSuffix_def dest: in_set_takeD)
  then have "newline \<notin> set (TrimPrefix l p)" by (auto simp: TrimPrefix_def dest: in_set_dropD)
  then show ?thesis using TrimSpace_subset by blast
qed

definition acceptable :: "Request \<Rightarrow> bool" where
  "acceptable req \<longleftrightarrow>
     rq_Command req \<in> set known_commands \<and>
     (if keyless (rq_Command req) then rq_Key req = []
      else rq_Key req \<noteq> [] \<and> TrimSpace (rq_Key req) = rq_Key req \<and> newline \<notin> set (rq_Key req)) \<and>
     (rq_Value req \<noteq> None \<longleftrightarrow> setlike (rq_Command req) \<or> valued (rq_Command req)) \<and>
     (\<not> setlike (rq_Command req) \<longrightarrow> rq_TTL req = 0) \<and>
     - (2 ^ 63) \<le> rq_TTL req \<and> rq_TTL req < 2 ^ 63"

lemma command_groups:
  "keyless c \<Longrightarrow> c \<in> set known_commands \<and> \<not> setlike c \<and> \<not> valued c"
  "setlike c \<Longrightarrow> c \<in> set known_commands \<and> \<not> keyless c \<and> \<not> valued c"
  "valued c \<Longrightarrow> c \<in> set known_commands \<and> \<not> keyless c \<and> \<not> setlike c"
  by (auto simp: keyless_def setlike_def valued_def known_commands_def command_defs)

lemma decodeSwitch_accepts:
  assumes "decodeSwitch r (empty_Request\<lparr>rq_Command := c, rq_Key := k\<rparr>) = Inr (req, r')"
    and "\<not> keyless c" and "k \<noteq> []" and "TrimSpace k = k" and "newline \<notin> set k"
  shows "acceptable req \<and> length (rd_buf r') < length (rd_buf r)"
proof -
  note sw = assms(1) [unfolded decodeSwitch_def Let_def, simplified]
  consider "setlike c" | "valued c" "\<not> setlike c"
    | "\<not> setlike c" "\<not> valued c" "c \<in> set known_commands"
      "\<exists>r1. readEnd r = Inr r1 \<and> req = empty_Request\<lparr>rq_Command := c, rq_Key := k\<rparr> \<and> r' = r1"
    using sw by (auto simp: known_commands_def split: if_splits sum.splits)
  then show ?thesis
  proof cases
    case 1
    with sw command_groups(2) [OF 1] assms(2-) wrap64_range show ?thesis
      by (auto simp: acceptable_def dest!: decodeSetRequest_accepts)
  next
    case 2
    with sw command_groups(3) [of c] assms(2-) show ?thesis
      by (auto simp: acceptable_def dest!: decodeValueRequest_accepts)
  next
    case 3
    with assms(2-) show ?thesis by (auto simp: acceptable_def dest: readEnd_shorter)
  qed
qed

lemma DecodeRequest_accepts:
  assumes "DecodeRequest r = Inr (req, r')"
  shows "acceptable req \<and> length (rd_buf r') < length (rd_buf r)"
proof -
  obtain cmdLine r1 where l1: "readLine r = Inr (cmdLine, r1)"
    using assms by (auto simp: DecodeRequest_def split: sum.splits)
  define c where "c = TrimSpace (TrimPrefix cmdLine ''CMD '')"
  have short: "length (rd_buf r1) < length (rd_buf r)" using l1 by (rule readLine_shorter)
  show ?thesis
  proof (cases "keyless c")
    case True
    with assms l1 short show ?thesis
      using command_groups(1) [OF True]
      by (auto simp: DecodeRequest_def acceptable_def c_def [symmetric] Let_def
               dest!: readEnd_shorter split: if_splits sum.splits)
  next
    case False
    obtain keyLine r2 where l2: "readLine r1 = Inr (keyLine, r2)"
      using assms l1 False
      by (auto simp: DecodeRequest_def c_def [symmetric] Let_def split: sum.splits if_splits)
    define k where "k = TrimSpace (TrimPrefix keyLine ''KEY '')"
    have short2: "length (rd_buf r2) < length (rd_buf r1)" using l2 by (rule readLine_shorter)
    have k: "TrimSpace k = k" "newline \<notin> set k" using key_trimmed [OF l2] by (simp_all add: k_def)
    have "k \<noteq> []" and
      body: "decodeSwitch r2 (empty_Request\<lparr>rq_Command := c, rq_Key := k\<rparr>) = Inr (req, r')"
      using assms l1 l2 False
      by (auto simp: DecodeRequest_def c_def [symmetric] k_def [symmetric] Let_def split: if_splits)
    with decodeSwitch_accepts [OF body] False k short short2 show ?thesis by simp
  qed
qed

section \<open>Properties\<close>

text \<open>
  C6: The request round trip. Every sendable request encodes, and the decoder, reading the encoding
  followed by any further bytes, returns the request and leaves exactly those bytes: pipelined
  requests are told apart. Fields the command does not carry are dropped, and a TTL arrives in whole
  seconds, rounded down, but never below one.
\<close>

theorem request_roundtrip:
  assumes "sendable req"
  shows "\<exists>bs. EncodeRequest req = Inr bs \<and>
    (\<forall>rest e. DecodeRequest \<lparr>rd_buf = bs @ rest, rd_end = e\<rparr> =
       Inr (received req, \<lparr>rd_buf = rest, rd_end = e\<rparr>))"
  using assms by (rule request_roundtrip_lemma)

abbreviation demo_request :: Request where
  "demo_request \<equiv>
     \<lparr>rq_Command = ''SET'', rq_Key = ''k 1'', rq_Value = Some ''a\<newline>END\<newline>'', rq_TTL = 2500000000\<rparr>"

theorem request_roundtrip_witness:
  "\<exists>bs. EncodeRequest demo_request = Inr bs \<and>
    DecodeRequest (NewReader (bs @ ''CMD'')) =
      Inr (demo_request\<lparr>rq_TTL := 2000000000\<rparr>, NewReader ''CMD'')"
proof -
  have "TrimSpace ''k 1'' = ''k 1''" by code_simp
  then have "sendable demo_request"
    by (simp add: sendable_def known_commands_def command_defs keyless_def setlike_def valued_def maxAlloc_def)
  from request_roundtrip [OF this] obtain bs where
    bs: "EncodeRequest demo_request = Inr bs"
    and dec: "DecodeRequest (NewReader (bs @ ''CMD'')) = Inr (received demo_request, NewReader ''CMD'')"
    by blast
  have "received demo_request = demo_request\<lparr>rq_TTL := 2000000000\<rparr>"
    by (simp add: received_def keyless_def setlike_def command_defs)
  with bs dec show ?thesis by metis
qed

text \<open>
  C18: The response round trip. Every deliverable response encodes, and the decoder, reading the
  encoding followed by any further bytes, returns the response and leaves exactly those bytes.
\<close>

theorem response_roundtrip:
  assumes "deliverable resp"
  shows "\<exists>bs. EncodeResponse resp = Inr bs \<and>
    (\<forall>rest e. DecodeResponse \<lparr>rd_buf = bs @ rest, rd_end = e\<rparr> =
       Inr (delivered resp, \<lparr>rd_buf = rest, rd_end = e\<rparr>))"
  using response_roundtrip_lemma [OF assms] by (simp add: survives_def)

theorem response_roundtrip_witness:
  "\<exists>bs. EncodeResponse ((Resp ResponseMoved)\<lparr>rs_NodeID := ''b'', rs_Addr := ''h:1''\<rparr>) = Inr bs \<and>
    DecodeResponse (NewReader (bs @ ''x'')) =
      Inr ((Resp ResponseMoved)\<lparr>rs_NodeID := ''b'', rs_Addr := ''h:1''\<rparr>, NewReader ''x'')"
proof -
  let ?resp = "(Resp ResponseMoved)\<lparr>rs_NodeID := ''b'', rs_Addr := ''h:1''\<rparr>"
  have "Fields ''b'' = [''b'']" "Fields ''h:1'' = [''h:1'']"
    "TrimSpace ''b'' = ''b''" "TrimSpace ''h:1'' = ''h:1''" by code_simp+
  then have "deliverable ?resp" by (simp add: deliverable_def Resp_def token_def)
  from response_roundtrip [OF this] obtain bs where
    bs: "EncodeResponse ?resp = Inr bs"
    and dec: "DecodeResponse (NewReader (bs @ ''x'')) = Inr (delivered ?resp, NewReader ''x'')"
    by blast
  have "delivered ?resp = ?resp" by (simp add: delivered_def Resp_def)
  with bs dec show ?thesis by metis
qed

text \<open>
  C19: The request decoder is sound and makes progress. Whatever bytes arrive, an accepted request has
  one of the fifteen commands, a trimmed non-empty key without line breaks exactly when the command
  takes a key, a value exactly when it takes one, a TTL inside \<open>int64\<close> that only \<open>SET\<close> and
  \<open>REPL_SET\<close> set, and the decoder has consumed input.
\<close>

theorem DecodeRequest_sound:
  assumes "DecodeRequest r = Inr (req, r')"
  shows "acceptable req \<and> length (rd_buf r') < length (rd_buf r)"
  using assms by (rule DecodeRequest_accepts)

theorem DecodeRequest_sound_witness:
  "acceptable \<lparr>rq_Command = ''GET'', rq_Key = ''k'', rq_Value = None, rq_TTL = 0\<rparr>"
proof -
  have "DecodeRequest (NewReader ''CMD  GET\<newline>KEY k \<newline>END\<newline>'') =
      Inr (\<lparr>rq_Command = ''GET'', rq_Key = ''k'', rq_Value = None, rq_TTL = 0\<rparr>, NewReader [])"
    by code_simp
  from DecodeRequest_sound [OF this] show ?thesis by simp
qed



text \<open>
  A response that names a node by an empty address cannot be read: a \<open>NOT_LEADER\<close> or \<open>MOVED\<close>
  reply whose address is empty encodes without error, and every client that decodes it gets an
  error instead of the redirect.
\<close>

theorem empty_address_unreadable:
  assumes "token i" and "k = ResponseMoved \<and> tag = ''MOVED '' \<or> k = ResponseNotLeader \<and> tag = ''NOT_LEADER ''"
  shows "\<exists>bs. EncodeResponse ((Resp k)\<lparr>rs_NodeID := i, rs_Addr := []\<rparr>) = Inr bs \<and>
    DecodeResponse (NewReader (bs @ rest)) = Inl (InvalidNodeLine (tag @ i @ '' ''))"
proof -
  have "framed (tag @ i @ '' '')"
    using assms by (auto simp: framed_def token_def suffix_def)
  then have l: "readLine (NewReader ((tag @ i @ '' '') @ newline # ''END'' @ newline # rest)) =
      Inr (tag @ i @ '' '', NewReader (''END'' @ newline # rest))"
    by (rule readLine_framed)
  have "Fields (i @ '' '') = [i]"
    using assms(1) Fields_from_blank [of "[]" i "[]"] Fields_Nil by (simp add: Fields_def token_def)
  then have "decodeNodeLine (tag @ i @ '' '') tag = Inl (InvalidNodeLine (tag @ i @ '' ''))"
    by (simp add: decodeNodeLine_def)
  then show ?thesis
    using assms(2) l
    by (auto simp: EncodeResponse_def node_line_def Resp_def DecodeResponse_def decodeBody_def
                   decodeNodeResponse_def)
qed

theorem empty_address_unreadable_witness:
  "\<exists>bs. EncodeResponse ((Resp ResponseNotLeader)\<lparr>rs_NodeID := ''a'', rs_Addr := []\<rparr>) = Inr bs \<and>
    DecodeResponse (NewReader (bs @ [])) = Inl (InvalidNodeLine (''NOT_LEADER '' @ ''a'' @ '' ''))"
proof -
  have "Fields ''a'' = [''a'']" "TrimSpace ''a'' = ''a''" by code_simp+
  then show ?thesis
    by (intro empty_address_unreadable) (simp_all add: token_def)
qed

text \<open>
  The decoder trusts the announced length: a request header alone, whose \<open>VAL\<close> line announces
  more bytes than the runtime can address, makes the allocation of the value panic before any of the
  value is read, whatever follows on the connection.
\<close>

theorem oversized_value_panics:
  assumes "maxAlloc < int n" and "n < 2 ^ 63"
    and "k \<noteq> []" and "TrimSpace k = k" and "newline \<notin> set k"
  shows "DecodeRequest
      \<lparr>rd_buf = ''CMD '' @ CommandSet @ newline # ''KEY '' @ k @ newline #
         ''VAL '' @ Itoa n @ newline # rest, rd_end = e\<rparr> = Inl RuntimePanic"
proof -
  have c: "CommandSet \<in> set known_commands" "\<not> keyless CommandSet" "setlike CommandSet"
    by (simp_all add: known_commands_def keyless_def setlike_def command_defs)
  have "readLine \<lparr>rd_buf = ''VAL '' @ Itoa n @ newline # rest, rd_end = e\<rparr> =
      Inr (''VAL '' @ Itoa n, \<lparr>rd_buf = rest, rd_end = e\<rparr>)"
    by (rule readLine_tagged) simp_all
  moreover have "readValue (Itoa n) r = Inl RuntimePanic" for r
    using assms(1,2) by (simp add: readValue_def)
  ultimately have "decodeValueBody \<lparr>rd_buf = ''VAL '' @ Itoa n @ newline # rest, rd_end = e\<rparr> req =
      Inl RuntimePanic" for req
    using prefix_append_drop [of "''VAL ''" "Itoa n"] by (simp add: decodeValueBody_def)
  then show ?thesis
    unfolding DecodeRequest_keyed [OF c(1,2) assms(3-5)]
    using c(3) by (simp add: decodeSwitch_def decodeSetRequest_def)
qed

theorem oversized_value_panics_witness:
  "DecodeRequest (NewReader (''CMD '' @ CommandSet @ newline # ''KEY '' @ ''k'' @ newline #
     ''VAL '' @ Itoa 9223372036854775807 @ newline # [])) = Inl RuntimePanic"
proof -
  have "TrimSpace ''k'' = ''k''" by code_simp
  then show ?thesis by (intro oversized_value_panics) (simp_all add: maxAlloc_def)
qed

end
