(* ===== verification/Go_Sort.thy ===== *)
theory Go_Sort
  imports Prelude "HOL-Library.Char_ord" "HOL-Library.List_Lexorder"
begin

text \<open>
  The parts of Go's \<open>sort\<close> package that the program calls. \<open>sort.Slice\<close> with a strict order on a
  key is \<open>sort_key\<close>: the program sorts only by keys that are equal on equal elements or distinct, so
  the order of equal elements does not matter. Strings compare bytewise, which is the lexicographic
  order of \<open>HOL-Library.List_Lexorder\<close>. \<open>sort.Search\<close> is the binary search of the library.
\<close>

section \<open>Definitions\<close>

function Search_loop :: "(nat \<Rightarrow> bool) \<Rightarrow> nat \<Rightarrow> nat \<Rightarrow> nat" where
  "Search_loop f i j =
     (if i < j
      then let h = (i + j) div 2
           in if \<not> f h then Search_loop f (h + 1) j else Search_loop f i h
      else i)"
  by pat_completeness auto
termination
  by (relation "measure (\<lambda>(f, i, j). j - i)") auto

declare Search_loop.simps [simp del]

definition Search :: "nat \<Rightarrow> (nat \<Rightarrow> bool) \<Rightarrow> nat" where
  "Search n f = Search_loop f 0 n"

section \<open>Lemmas\<close>

text \<open>On a monotone predicate the search returns the least index that satisfies it, or \<open>n\<close>.\<close>

lemma Search_loop_correct:
  assumes "i \<le> j" and "\<And>a b. a \<le> b \<Longrightarrow> b < j \<Longrightarrow> f a \<Longrightarrow> f b"
  shows "i \<le> Search_loop f i j \<and> Search_loop f i j \<le> j \<and>
    (\<forall>k. i \<le> k \<and> k < Search_loop f i j \<longrightarrow> \<not> f k) \<and>
    (Search_loop f i j < j \<longrightarrow> f (Search_loop f i j))"
  using assms
proof (induction f i j rule: Search_loop.induct)
  case (1 f i j)
  show ?case
  proof (cases "i < j")
    case True
    let ?h = "(i + j) div 2"
    have h: "i \<le> ?h" "?h < j" using True by auto
    show ?thesis
    proof (cases "f ?h")
      case False
      have mono: "\<not> f k" if "k \<le> ?h" for k using "1.prems"(2) [OF that h(2)] False by blast
      have eq: "Search_loop f i j = Search_loop f (?h + 1) j"
        using True False by (simp add: Search_loop.simps [of f i j] Let_def)
      have "?h + 1 \<le> Search_loop f (?h + 1) j \<and> Search_loop f (?h + 1) j \<le> j \<and>
          (\<forall>k. ?h + 1 \<le> k \<and> k < Search_loop f (?h + 1) j \<longrightarrow> \<not> f k) \<and>
          (Search_loop f (?h + 1) j < j \<longrightarrow> f (Search_loop f (?h + 1) j))"
        using "1.IH"(1) [OF True refl False] "1.prems"(2) h by auto
      moreover have "\<not> f k" if "k < Search_loop f (?h + 1) j" for k
        using calculation that mono [of k] by (cases "k \<le> ?h") auto
      ultimately show ?thesis using h unfolding eq by auto
    next
      case fh: True
      have eq: "Search_loop f i j = Search_loop f i ?h"
        using True fh by (simp add: Search_loop.simps [of f i j] Let_def)
      have "i \<le> Search_loop f i ?h \<and> Search_loop f i ?h \<le> ?h \<and>
          (\<forall>k. i \<le> k \<and> k < Search_loop f i ?h \<longrightarrow> \<not> f k) \<and>
          (Search_loop f i ?h < ?h \<longrightarrow> f (Search_loop f i ?h))"
        using "1.IH"(2) [OF True refl] fh h "1.prems"(2) by auto
      moreover have "f (Search_loop f i ?h)"
        using calculation fh by (cases "Search_loop f i ?h < ?h") auto
      ultimately show ?thesis using h unfolding eq by auto
    qed
  next
    case False
    then have "Search_loop f i j = i" by (simp add: Search_loop.simps [of f i j])
    with "1.prems"(1) False show ?thesis by auto
  qed
qed

lemma Search_correct:
  assumes "\<forall>a b. a \<le> b \<longrightarrow> b < n \<longrightarrow> f a \<longrightarrow> f b"
  shows "Search n f \<le> n" and "k < Search n f \<Longrightarrow> \<not> f k" and "Search n f < n \<Longrightarrow> f (Search n f)"
  using Search_loop_correct [of 0 n f] assms by (auto simp: Search_def)

text \<open>Searching a sorted list for the first element that is not below a bound.\<close>

lemma Search_sorted:
  fixes xs :: "'a :: linorder list"
  assumes "sorted xs"
  shows "Search (length xs) (\<lambda>i. x \<le> xs ! i) = length (takeWhile (\<lambda>h. h < x) xs)"
proof -
  let ?f = "\<lambda>i. x \<le> xs ! i" and ?n = "length xs"
  have mono: "\<forall>a b. a \<le> b \<longrightarrow> b < ?n \<longrightarrow> ?f a \<longrightarrow> ?f b"
    using assms by (meson order_trans sorted_nth_mono)
  have s: "Search ?n ?f \<le> ?n" "\<And>k. k < Search ?n ?f \<Longrightarrow> \<not> ?f k"
      "Search ?n ?f < ?n \<Longrightarrow> ?f (Search ?n ?f)"
    using Search_correct [OF mono] by blast+
  let ?t = "length (takeWhile (\<lambda>h. h < x) xs)"
  have t: "?t \<le> ?n" by (rule length_takeWhile_le)
  have below: "\<not> ?f k" if "k < ?t" for k
    using nth_mem [OF that] takeWhile_nth [OF that] by (auto dest!: set_takeWhileD)
  have at: "?f ?t" if "?t < ?n"
    using nth_length_takeWhile [OF that] by simp
  show ?thesis
  proof (rule antisym)
    show "Search ?n ?f \<le> ?t"
    proof (rule leI, rule notI)
      assume "?t < Search ?n ?f"
      with s(1) have "?t < ?n" by simp
      with s(2) [OF \<open>?t < Search ?n ?f\<close>] at show False by simp
    qed
    show "?t \<le> Search ?n ?f"
    proof (rule leI, rule notI)
      assume "Search ?n ?f < ?t"
      with t have "Search ?n ?f < ?n" by simp
      with below [OF \<open>Search ?n ?f < ?t\<close>] s(3) show False by simp
    qed
  qed
qed

end
