(* ===== verification/Hash_Ring.thy ===== *)
theory Hash_Ring
  imports Go_Strings Go_Sort "HOL-Library.Word"
begin

unbundle bit_operations_syntax

text \<open>
  Consistent hashing: \<open>internal/cluster/hash.go\<close>, \<open>node.go\<close> and \<open>ring.go\<close>. A ring position is the
  \<open>uint32\<close> of the code, the type \<open>32 word\<close>. The maps \<open>nodes\<close> and \<open>lookup\<close> of the struct are
  association lists; \<open>rebuildHashes\<close> and \<open>Members\<close> iterate over a map, so they are defined on the
  sequence of pairs an iteration visits, and the result is shown not to depend on it. The hash
  function is a field of the configuration, as in the code, so every theorem holds for every hash
  function; none of them assumes that it has no collisions unless its statement says so. The
  capacity hint of the slice that \<open>LookupN\<close> allocates is not modelled.
\<close>

section \<open>Definitions\<close>

subsection \<open>Hashing\<close>

type_synonym HashFunc = "string \<Rightarrow> 32 word"

text \<open>FNV-1a of \<open>hash/fnv\<close>: offset basis 2166136261, prime 16777619.\<close>

definition HashKey :: HashFunc where
  "HashKey key = fold (\<lambda>c h. (h XOR of_char c) * 16777619) key 2166136261"

subsection \<open>Nodes and the peer list\<close>

record Node =
  nd_ID :: string
  nd_Addr :: string

datatype peers_error =
    PeerFormat string
  | PeerEmpty string
  | PeerDuplicate string

fun parsePeer_loop ::
  "string list \<Rightarrow> Node list \<Rightarrow> string list \<Rightarrow> peers_error + Node list" where
  "parsePeer_loop [] peers seen = Inr peers"
| "parsePeer_loop (part0 # parts) peers seen =
     (let part = TrimSpace part0
      in if part = [] then parsePeer_loop parts peers seen
         else let (id0, addr0, ok) = Cut part (CHR ''='')
              in if \<not> ok then Inl (PeerFormat part)
                 else let id = TrimSpace id0; addr = TrimSpace addr0
                      in if id = [] \<or> addr = [] then Inl (PeerEmpty part)
                         else if id \<in> set seen then Inl (PeerDuplicate id)
                         else parsePeer_loop parts (peers @ [\<lparr>nd_ID = id, nd_Addr = addr\<rparr>])
                                (id # seen))"

definition ParsePeers :: "string \<Rightarrow> peers_error + Node list" where
  "ParsePeers raw0 =
     (let raw = TrimSpace raw0
      in if raw = [] then Inr []
         else parsePeer_loop (Split raw (CHR '','')) [] [])"

subsection \<open>The ring\<close>

datatype ring_error =
    NodeIDRequired
  | NodeAddrRequired
  | ErrNodeExists string
  | ErrNodeMissing string
  | ErrEmptyRing
  | NMustBePositive

record RingConfig =
  VirtualNodes :: int
  Hash :: "HashFunc option"

definition DefaultRingConfig :: RingConfig where
  "DefaultRingConfig = \<lparr>VirtualNodes = 128, Hash = Some HashKey\<rparr>"

text \<open>
  The configuration that a ring stores is the normalised one of \<open>NewRing\<close>: its hash function is not
  nil, so the two fields of \<open>cfg\<close> are fields of the ring.
\<close>

record Ring =
  vnodes :: int
  hashf :: HashFunc
  nodes :: "(string, Node) gomap"
  hashes :: "32 word list"
  lookup :: "(32 word, string) gomap"

definition NewRing :: "RingConfig \<Rightarrow> Ring" where
  "NewRing cfg =
     \<lparr>vnodes = (if VirtualNodes cfg \<le> 0 then VirtualNodes DefaultRingConfig else VirtualNodes cfg),
      hashf = (case Hash cfg of None \<Rightarrow> HashKey | Some h \<Rightarrow> h),
      nodes = [], hashes = [], lookup = []\<rparr>"

definition ring_cfg :: "Ring \<Rightarrow> RingConfig" where
  "ring_cfg r = \<lparr>VirtualNodes = vnodes r, Hash = Some (hashf r)\<rparr>"

definition vnodeKey :: "string \<Rightarrow> int \<Rightarrow> string" where
  "vnodeKey nodeID index = nodeID @ ''#'' @ FormatInt index"

definition vnode_hash :: "Ring \<Rightarrow> string \<Rightarrow> nat \<Rightarrow> 32 word" where
  "vnode_hash r nodeID i = hashf r (vnodeKey nodeID (int i))"

fun addVnode :: "string \<Rightarrow> nat \<Rightarrow> Ring \<Rightarrow> Ring" where
  "addVnode nodeID i r =
     (let h = vnode_hash r nodeID i
      in r\<lparr>lookup := AList.update h nodeID (lookup r), hashes := hashes r @ [h]\<rparr>)"

definition AddNode :: "Node \<Rightarrow> Ring \<Rightarrow> ring_error + Ring" where
  "AddNode node r =
     (if nd_ID node = [] then Inl NodeIDRequired
      else if nd_Addr node = [] then Inl NodeAddrRequired
      else if map_of (nodes r) (nd_ID node) \<noteq> None then Inl (ErrNodeExists (nd_ID node))
      else let r1 = r\<lparr>nodes := AList.update (nd_ID node) node (nodes r)\<rparr>;
               r2 = fold (addVnode (nd_ID node)) [0..<nat (vnodes r)] r1
           in Inr (r2\<lparr>hashes := sort (hashes r2)\<rparr>))"

definition rebuildHashes_range :: "(32 word, string) gomap \<Rightarrow> Ring \<Rightarrow> Ring" where
  "rebuildHashes_range ps r = r\<lparr>hashes := sort (map fst ps)\<rparr>"

definition rebuildHashes :: "Ring \<Rightarrow> Ring" where
  "rebuildHashes r = rebuildHashes_range (lookup r) r"

fun removeVnode :: "string \<Rightarrow> nat \<Rightarrow> Ring \<Rightarrow> Ring" where
  "removeVnode nodeID i r = r\<lparr>lookup := AList.delete (vnode_hash r nodeID i) (lookup r)\<rparr>"

definition RemoveNode :: "string \<Rightarrow> Ring \<Rightarrow> ring_error + Ring" where
  "RemoveNode nodeID r =
     (if map_of (nodes r) nodeID = None then Inl (ErrNodeMissing nodeID)
      else let r1 = r\<lparr>nodes := AList.delete nodeID (nodes r)\<rparr>;
               r2 = fold (removeVnode nodeID) [0..<nat (vnodes r)] r1
           in Inr (rebuildHashes r2))"

text \<open>Reading a Go map at an absent key gives the zero value, here the empty string.\<close>

definition nodeID_at :: "Ring \<Rightarrow> nat \<Rightarrow> string" where
  "nodeID_at r idx = (case map_of (lookup r) (hashes r ! idx) of None \<Rightarrow> [] | Some v \<Rightarrow> v)"

definition searchHashes :: "Ring \<Rightarrow> 32 word \<Rightarrow> nat" where
  "searchHashes r keyHash = Search (length (hashes r)) (\<lambda>i. keyHash \<le> hashes r ! i)"

definition lookupHash :: "Ring \<Rightarrow> 32 word \<Rightarrow> Node option" where
  "lookupHash r keyHash =
     (if hashes r = [] then None
      else let idx0 = searchHashes r keyHash;
               idx = (if idx0 = length (hashes r) then 0 else idx0)
           in map_of (nodes r) (nodeID_at r idx))"

definition Lookup :: "Ring \<Rightarrow> string \<Rightarrow> Node option" where
  "Lookup r key = lookupHash r (hashf r key)"

fun walk :: "Ring \<Rightarrow> int \<Rightarrow> nat \<Rightarrow> nat list \<Rightarrow> string list \<Rightarrow> Node list \<Rightarrow> Node list" where
  "walk r n start [] seen owners = owners"
| "walk r n start (step # steps) seen owners =
     (if int (length owners) < n
      then let nodeID = nodeID_at r ((start + step) mod length (hashes r))
           in if nodeID \<in> set seen then walk r n start steps seen owners
              else case map_of (nodes r) nodeID of
                None \<Rightarrow> walk r n start steps seen owners
              | Some node \<Rightarrow> walk r n start steps (nodeID # seen) (owners @ [node])
      else owners)"

definition LookupN :: "Ring \<Rightarrow> string \<Rightarrow> int \<Rightarrow> ring_error + Node list" where
  "LookupN r key n =
     (if n \<le> 0 then Inl NMustBePositive
      else if hashes r = [] then Inl ErrEmptyRing
      else let start = searchHashes r (hashf r key);
               owners = walk r n start [0..<length (hashes r)] [] []
           in if owners = [] then Inl ErrEmptyRing else Inr owners)"

definition Members_range :: "(string, Node) gomap \<Rightarrow> Node list" where
  "Members_range ps = sort_key nd_ID (map snd ps)"

definition ring_Members :: "Ring \<Rightarrow> Node list" where
  "ring_Members r = Members_range (nodes r)"

definition ring_Len :: "Ring \<Rightarrow> int" where
  "ring_Len r = int (length (nodes r))"

definition VirtualNodeCount :: "Ring \<Rightarrow> int" where
  "VirtualNodeCount r = int (length (hashes r))"

section \<open>The invariant\<close>

definition vnode_set :: "Ring \<Rightarrow> string \<Rightarrow> 32 word set" where
  "vnode_set r nodeID = vnode_hash r nodeID ` {..<nat (vnodes r)}"

definition ring_inv :: "Ring \<Rightarrow> bool" where
  "ring_inv r \<longleftrightarrow>
     0 < vnodes r \<and> distinct (map fst (nodes r)) \<and> distinct (map fst (lookup r)) \<and>
     sorted (hashes r) \<and> set (hashes r) = dom (map_of (lookup r)) \<and>
     (\<forall>k nd. map_of (nodes r) k = Some nd \<longrightarrow> nd_ID nd = k \<and> k \<noteq> [] \<and> nd_Addr nd \<noteq> []) \<and>
     (\<forall>h k. map_of (lookup r) h = Some k \<longrightarrow> map_of (nodes r) k \<noteq> None \<and> h \<in> vnode_set r k)"

text \<open>The clockwise successor of a position among a set of positions.\<close>

definition succ_of :: "'a :: linorder set \<Rightarrow> 'a \<Rightarrow> 'a" where
  "succ_of H x = (if \<exists>h\<in>H. x \<le> h then Min {h \<in> H. x \<le> h} else Min H)"

text \<open>
  The identifiers met on a clockwise walk that starts at position \<open>x\<close>, and the first occurrence
  of each.
\<close>

definition clockwise :: "Ring \<Rightarrow> 32 word \<Rightarrow> string list" where
  "clockwise r x =
     map (\<lambda>h. the (map_of (lookup r) h))
       (dropWhile (\<lambda>h. h < x) (hashes r) @ takeWhile (\<lambda>h. h < x) (hashes r))"

definition first_occurrences :: "'a list \<Rightarrow> 'a list" where
  "first_occurrences xs = rev (remdups (rev xs))"

datatype ring_op = AddOp Node | RemoveOp string

fun ring_step :: "ring_op \<Rightarrow> Ring \<Rightarrow> Ring" where
  "ring_step (AddOp nd) r = (case AddNode nd r of Inl _ \<Rightarrow> r | Inr r' \<Rightarrow> r')"
| "ring_step (RemoveOp k) r = (case RemoveNode k r of Inl _ \<Rightarrow> r | Inr r' \<Rightarrow> r')"

section \<open>Lemmas\<close>

subsection \<open>The effect of the updates\<close>

lemma addVnodes_fields:
  "vnodes (fold (addVnode k) its r) = vnodes r \<and> hashf (fold (addVnode k) its r) = hashf r \<and>
   nodes (fold (addVnode k) its r) = nodes r"
  by (induction its arbitrary: r) (simp_all add: Let_def)

lemma vnode_hash_cong [simp]:
  "vnode_hash (r\<lparr>nodes := ns\<rparr>) = vnode_hash r"
  "vnode_hash (r\<lparr>lookup := lk\<rparr>) = vnode_hash r"
  "vnode_hash (r\<lparr>hashes := hs\<rparr>) = vnode_hash r"
  by (simp_all add: vnode_hash_def fun_eq_iff)

lemma vnode_set_eqI: "vnodes r' = vnodes r \<Longrightarrow> hashf r' = hashf r \<Longrightarrow> vnode_set r' = vnode_set r"
  by (simp add: vnode_set_def vnode_hash_def fun_eq_iff)

lemma addVnodes_lookup:
  "map_of (lookup (fold (addVnode k) its r)) h =
     (if h \<in> vnode_hash r k ` set its then Some k else map_of (lookup r) h)"
  by (induction its arbitrary: r) (auto simp: Let_def)

lemma addVnodes_hashes:
  "set (hashes (fold (addVnode k) its r)) = set (hashes r) \<union> vnode_hash r k ` set its"
  by (induction its arbitrary: r) (auto simp: Let_def)

lemma addVnodes_distinct:
  "distinct (map fst (lookup r)) \<Longrightarrow> distinct (map fst (lookup (fold (addVnode k) its r)))"
  by (induction its arbitrary: r) (simp_all add: Let_def distinct_update)

lemma removeVnodes_fields:
  "vnodes (fold (removeVnode k) its r) = vnodes r \<and> hashf (fold (removeVnode k) its r) = hashf r \<and>
   nodes (fold (removeVnode k) its r) = nodes r"
  by (induction its arbitrary: r) simp_all

lemma removeVnodes_lookup:
  "map_of (lookup (fold (removeVnode k) its r)) h =
     (if h \<in> vnode_hash r k ` set its then None else map_of (lookup r) h)"
  by (induction its arbitrary: r) auto

lemma removeVnodes_distinct:
  "distinct (map fst (lookup r)) \<Longrightarrow> distinct (map fst (lookup (fold (removeVnode k) its r)))"
  by (induction its arbitrary: r) (simp_all add: distinct_delete)

lemma AddNode_InrD:
  assumes "AddNode nd r = Inr r'"
  shows "nd_ID nd \<noteq> []" and "nd_Addr nd \<noteq> []" and "map_of (nodes r) (nd_ID nd) = None"
    and "vnodes r' = vnodes r" and "hashf r' = hashf r"
    and "nodes r' = AList.update (nd_ID nd) nd (nodes r)"
    and "map_of (lookup r') =
           (\<lambda>h. if h \<in> vnode_set r (nd_ID nd) then Some (nd_ID nd) else map_of (lookup r) h)"
    and "set (hashes r') = set (hashes r) \<union> vnode_set r (nd_ID nd)"
    and "sorted (hashes r')"
    and "distinct (map fst (lookup r)) \<Longrightarrow> distinct (map fst (lookup r'))"
  using assms
  by (auto simp: AddNode_def Let_def addVnodes_fields addVnodes_lookup addVnodes_hashes
      addVnodes_distinct vnode_set_def fun_eq_iff atLeast0LessThan split: if_splits)

lemma RemoveNode_InrD:
  assumes "RemoveNode k r = Inr r'"
  shows "map_of (nodes r) k \<noteq> None"
    and "vnodes r' = vnodes r" and "hashf r' = hashf r"
    and "nodes r' = AList.delete k (nodes r)"
    and "map_of (lookup r') = (\<lambda>h. if h \<in> vnode_set r k then None else map_of (lookup r) h)"
    and "hashes r' = sort (map fst (lookup r'))"
    and "distinct (map fst (lookup r)) \<Longrightarrow> distinct (map fst (lookup r'))"
  using assms
  by (auto simp: RemoveNode_def Let_def rebuildHashes_def rebuildHashes_range_def removeVnodes_fields
      removeVnodes_lookup removeVnodes_distinct vnode_set_def fun_eq_iff atLeast0LessThan
      split: if_splits)

lemma ring_inv_NewRing [inv_intros]: "ring_inv (NewRing cfg)"
  by (simp add: ring_inv_def NewRing_def DefaultRingConfig_def)

lemma ring_inv_AddNode [inv_intros]:
  assumes "ring_inv r" and "AddNode nd r = Inr r'"
  shows "ring_inv r'"
proof -
  note a = AddNode_InrD [OF assms(2)]
  have v: "vnode_set r' = vnode_set r" using a(4,5) by (rule vnode_set_eqI)
  show ?thesis
    using assms(1) a(1,2,3,9,10) unfolding ring_inv_def a(4) a(6) a(7) a(8) v
    by (auto simp: distinct_update dom_def split: if_splits)
qed

lemma ring_inv_RemoveNode [inv_intros]:
  assumes "ring_inv r" and "RemoveNode k r = Inr r'"
  shows "ring_inv r'"
proof -
  note a = RemoveNode_InrD [OF assms(2)]
  have v: "vnode_set r' = vnode_set r" using a(2,3) by (rule vnode_set_eqI)
  have dom: "set (hashes r') = dom (map_of (lookup r'))"
    by (simp add: a(6) dom_map_of_conv_image_fst)
  show ?thesis
    using assms(1) a(6,7) dom unfolding ring_inv_def a(2) a(4) v
    by (auto simp: distinct_delete a(5) split: if_splits)
qed

lemma ring_inv_step [inv_intros]: "ring_inv r \<Longrightarrow> ring_inv (ring_step op r)"
  by (cases op) (auto split: sum.split intro: inv_intros)

subsection \<open>Clockwise successors\<close>

lemma succ_of_in:
  assumes "finite H" and "H \<noteq> {}"
  shows "succ_of H x \<in> H"
proof (cases "\<exists>h\<in>H. x \<le> h")
  case True
  then have "Min {h \<in> H. x \<le> h} \<in> {h \<in> H. x \<le> h}" using assms by (intro Min_in) auto
  with True show ?thesis by (simp add: succ_of_def)
next
  case False
  with assms show ?thesis by (simp add: succ_of_def del: not_le)
qed

text \<open>Only the positions matter that lie between the given one and its successor.\<close>

lemma succ_of_subset:
  assumes fin: "finite H" and sub: "G \<subseteq> H" and in_G: "succ_of H x \<in> G"
  shows "succ_of G x = succ_of H x"
proof (cases "\<exists>h\<in>H. x \<le> h")
  case True
  let ?A = "{h \<in> H. x \<le> h}" and ?B = "{h \<in> G. x \<le> h}"
  have s: "succ_of H x = Min ?A" using True by (simp add: succ_of_def)
  have "Min ?A \<in> ?A" using fin True by (intro Min_in) auto
  then have mem: "Min ?A \<in> ?B" using in_G s by simp
  have "Min ?B = Min ?A"
  proof (rule Min_eqI)
    show "finite ?B" using finite_subset [OF sub fin] by simp
    show "Min ?A \<le> y" if "y \<in> ?B" for y using that fin sub by (intro Min_le) auto
  qed (rule mem)
  then show ?thesis using mem s by (auto simp: succ_of_def)
next
  case False
  then have s: "succ_of H x = Min H" by (simp add: succ_of_def del: not_le)
  have "Min G = Min H"
  proof (rule Min_eqI)
    show "finite G" by (rule finite_subset [OF sub fin])
    show "Min H \<le> y" if "y \<in> G" for y using that fin sub by (intro Min_le) auto
    show "Min H \<in> G" using in_G s by simp
  qed
  then show ?thesis using False sub s by (auto simp: succ_of_def)
qed

lemma succ_of_sorted:
  fixes hs :: "'a :: linorder list"
  assumes "sorted hs" and "hs \<noteq> []"
  shows "succ_of (set hs) x = hd (dropWhile (\<lambda>h. h < x) hs @ takeWhile (\<lambda>h. h < x) hs)"
proof (cases "dropWhile (\<lambda>h. h < x) hs")
  case Nil
  then have below: "\<forall>h\<in>set hs. h < x" by (simp add: dropWhile_eq_Nil_conv)
  then have tw: "takeWhile (\<lambda>h. h < x) hs = hs" by (simp add: takeWhile_eq_all_conv)
  have "Min (set hs) = hd hs"
    using assms by (cases hs) (auto intro!: Min_eqI)
  moreover have "succ_of (set hs) x = Min (set hs)" using below by (auto simp: succ_of_def)
  ultimately show ?thesis unfolding Nil tw by simp
next
  case (Cons y ys)
  then have split: "hs = takeWhile (\<lambda>h. h < x) hs @ y # ys" by (metis takeWhile_dropWhile_id)
  have y: "x \<le> y" using Cons hd_dropWhile [of "\<lambda>h. h < x" hs] by auto
  have "Min {h \<in> set hs. x \<le> h} = y"
  proof (rule Min_eqI)
    show "y \<in> {h \<in> set hs. x \<le> h}" using y split by (metis (mono_tags, lifting) in_set_conv_decomp mem_Collect_eq)
    show "y \<le> h" if "h \<in> {h \<in> set hs. x \<le> h}" for h
    proof -
      have h: "h \<in> set hs" "x \<le> h" using that by auto
      then have "h \<notin> set (takeWhile (\<lambda>h. h < x) hs)" by (auto dest: set_takeWhileD)
      with h(1) split have "h \<in> set (y # ys)" by (metis Un_iff set_append)
      moreover have "sorted (y # ys)" using assms(1) split by (metis sorted_append)
      ultimately show ?thesis by auto
    qed
  qed simp
  moreover have "y \<in> set hs" using split by (metis in_set_conv_decomp)
  ultimately show ?thesis using y Cons by (auto simp: succ_of_def)
qed

subsection \<open>Looking a key up\<close>

lemma searchHashes_eq:
  "sorted (hashes r) \<Longrightarrow> searchHashes r x = length (takeWhile (\<lambda>h. h < x) (hashes r))"
  by (simp add: searchHashes_def Search_sorted)

lemma length_rotated: "length (dropWhile P xs @ takeWhile P xs) = length xs"
  by (induction xs) auto

lemma set_rotated: "set (dropWhile P xs @ takeWhile P xs) = set xs"
  by (induction xs) auto

text \<open>The position that step \<open>s\<close> of a walk visits is the \<open>s\<close>-th of the rotated list.\<close>

lemma rotated_nth:
  assumes "s < length hs" and "k = length (takeWhile P hs)"
  shows "hs ! ((k + s) mod length hs) = (dropWhile P hs @ takeWhile P hs) ! s"
proof -
  have k: "k \<le> length hs" using assms(2) by (simp add: length_takeWhile_le)
  have tw: "takeWhile P hs = take k hs" and dw: "dropWhile P hs = drop k hs"
    unfolding assms(2) by (rule takeWhile_eq_take, rule dropWhile_eq_drop)
  show ?thesis
  proof (cases "k + s < length hs")
    case True
    then show ?thesis by (simp add: dw nth_append less_diff_conv add.commute)
  next
    case False
    then have "(k + s) mod length hs = k + s - length hs"
      using assms(1) k le_mod_geq [of "length hs" "k + s"] by simp
    with False k assms(1) show ?thesis by (simp add: dw tw nth_append less_diff_conv add.commute)
  qed
qed

lemma nodeID_at_rotated:
  assumes "ring_inv r" and "s < length (hashes r)"
  shows "nodeID_at r ((searchHashes r x + s) mod length (hashes r)) = clockwise r x ! s"
proof -
  have inv: "sorted (hashes r)" "set (hashes r) = dom (map_of (lookup r))"
    using assms(1) by (auto simp: ring_inv_def)
  let ?hs = "dropWhile (\<lambda>h. h < x) (hashes r) @ takeWhile (\<lambda>h. h < x) (hashes r)"
  have len: "length ?hs = length (hashes r)" by (rule length_rotated)
  have "?hs ! s \<in> set ?hs" using assms(2) len by (intro nth_mem) simp
  also have "set ?hs = set (hashes r)" by (rule set_rotated)
  finally have "?hs ! s \<in> dom (map_of (lookup r))" using inv by simp
  then obtain k where k: "map_of (lookup r) (?hs ! s) = Some k" by blast
  have "clockwise r x ! s = k" unfolding clockwise_def using assms(2) len k by (subst nth_map) simp_all
  moreover have "hashes r ! ((searchHashes r x + s) mod length (hashes r)) = ?hs ! s"
    by (rule rotated_nth [OF assms(2) searchHashes_eq [OF inv(1)]])
  ultimately show ?thesis by (simp only: nodeID_at_def k option.case)
qed

lemma length_clockwise [simp]: "length (clockwise r x) = length (hashes r)"
  by (simp only: clockwise_def length_map length_rotated)

lemma set_clockwise: "set (clockwise r x) = (\<lambda>h. the (map_of (lookup r) h)) ` set (hashes r)"
  by (simp only: clockwise_def set_map set_rotated)

lemma clockwise_members:
  assumes "ring_inv r" and "k \<in> set (clockwise r x)"
  obtains nd where "map_of (nodes r) k = Some nd" and "nd_ID nd = k"
proof -
  from assms obtain h where "map_of (lookup r) h = Some k"
    by (auto simp: set_clockwise ring_inv_def)
  with assms(1) have "map_of (nodes r) k \<noteq> None" unfolding ring_inv_def by blast
  then obtain nd where nd: "map_of (nodes r) k = Some nd" by blast
  with assms(1) have "nd_ID nd = k" by (simp add: ring_inv_def)
  with nd show thesis by (rule that)
qed

lemma clockwise_hd:
  assumes "ring_inv r" and "hashes r \<noteq> []"
  shows "hd (clockwise r x) = the (map_of (lookup r) (succ_of (set (hashes r)) x))"
proof -
  let ?hs = "dropWhile (\<lambda>h. h < x) (hashes r) @ takeWhile (\<lambda>h. h < x) (hashes r)"
  have "length ?hs \<noteq> 0" unfolding length_rotated using assms(2) by simp
  then have ne: "?hs \<noteq> []" by blast
  have "sorted (hashes r)" using assms(1) by (simp add: ring_inv_def)
  from succ_of_sorted [OF this assms(2)] show ?thesis
    unfolding clockwise_def hd_map [OF ne] by simp
qed

lemma lookupHash_clockwise:
  assumes "ring_inv r" and "hashes r \<noteq> []"
  shows "lookupHash r x = map_of (nodes r) (hd (clockwise r x))"
proof -
  let ?n = "length (hashes r)"
  have "searchHashes r x \<le> ?n"
    using assms(1) by (simp add: searchHashes_eq ring_inv_def length_takeWhile_le)
  then have "(if searchHashes r x = ?n then 0 else searchHashes r x) = (searchHashes r x + 0) mod ?n"
    by simp
  moreover have "clockwise r x \<noteq> []" using assms(2) by (metis length_0_conv length_clockwise)
  ultimately show ?thesis
    using assms nodeID_at_rotated [OF assms(1), of 0 x]
    by (simp add: lookupHash_def Let_def hd_conv_nth split: if_splits)
qed

lemma remdups_snoc: "remdups (ys @ [x]) = filter (\<lambda>y. y \<noteq> x) (remdups ys) @ [x]"
  by (induction ys) auto

lemma first_occurrences_Nil [simp]: "first_occurrences [] = []"
  by (simp add: first_occurrences_def)

lemma first_occurrences_Cons [simp]:
  "first_occurrences (x # xs) = x # filter (\<lambda>y. y \<noteq> x) (first_occurrences xs)"
  by (simp add: first_occurrences_def remdups_snoc rev_filter)

lemma set_first_occurrences [simp]: "set (first_occurrences xs) = set xs"
  by (simp add: first_occurrences_def)

lemma distinct_first_occurrences [simp]: "distinct (first_occurrences xs)"
  by (simp add: first_occurrences_def)

lemma length_first_occurrences: "length (first_occurrences xs) = card (set xs)"
  by (simp add: first_occurrences_def length_remdups_card_conv)

lemma hd_first_occurrences: "xs \<noteq> [] \<Longrightarrow> hd (first_occurrences xs) = hd xs"
  by (cases xs) simp_all

text \<open>The walk collects the first occurrences among the identifiers it meets.\<close>

lemma walk_eq:
  assumes "\<And>s. s \<in> set steps \<Longrightarrow>
      nodeID_at r ((start + s) mod length (hashes r)) \<in> dom (map_of (nodes r))"
  shows "walk r n start steps seen owners = owners @
    map (\<lambda>k. the (map_of (nodes r) k))
      (take (nat n - length owners)
        (filter (\<lambda>k. k \<notin> set seen)
          (first_occurrences (map (\<lambda>s. nodeID_at r ((start + s) mod length (hashes r))) steps))))"
  using assms
proof (induction steps arbitrary: seen owners)
  case (Cons s steps)
  let ?id = "nodeID_at r ((start + s) mod length (hashes r))"
  obtain nd where nd: "map_of (nodes r) ?id = Some nd" using Cons.prems [of s] by auto
  have IH: "walk r n start steps seen' owners' = owners' @
      map (\<lambda>k. the (map_of (nodes r) k))
        (take (nat n - length owners')
          (filter (\<lambda>k. k \<notin> set seen')
            (first_occurrences (map (\<lambda>s. nodeID_at r ((start + s) mod length (hashes r))) steps))))"
    for seen' owners' using Cons.prems by (intro Cons.IH) auto
  show ?case
  proof (cases "int (length owners) < n")
    case False
    then have "nat n - length owners = 0" by simp
    with False show ?thesis by simp
  next
    case less: True
    then obtain m where m: "nat n - length owners = Suc m" "nat n - Suc (length owners) = m"
      by (cases "nat n - length owners") auto
    show ?thesis
    proof (cases "?id \<in> set seen")
      case True
      then have "(\<lambda>k. k \<notin> set seen \<and> k \<noteq> ?id) = (\<lambda>k. k \<notin> set seen)" by (auto simp: fun_eq_iff)
      with True less show ?thesis by (simp add: IH Let_def conj_commute)
    next
      case False
      then have "(\<lambda>k. k \<notin> set (?id # seen)) = (\<lambda>k. k \<noteq> ?id \<and> k \<notin> set seen)" by auto
      with False less m nd show ?thesis by (simp add: IH Let_def conj_commute)
    qed
  qed
qed simp

lemma clockwise_map:
  assumes "ring_inv r"
  shows "map (\<lambda>s. nodeID_at r ((searchHashes r x + s) mod length (hashes r))) [0..<length (hashes r)]
    = clockwise r x"
  using assms by (intro nth_equalityI) (simp_all add: nodeID_at_rotated)

lemma LookupN_clockwise:
  assumes "ring_inv r" and "0 < n" and "hashes r \<noteq> []"
  shows "LookupN r key n = Inr (map (\<lambda>k. the (map_of (nodes r) k))
    (take (nat n) (first_occurrences (clockwise r (hashf r key)))))"
proof -
  let ?c = "clockwise r (hashf r key)"
  have ne: "?c \<noteq> []" using assms(3) by (metis length_0_conv length_clockwise)
  have dom: "nodeID_at r ((searchHashes r (hashf r key) + s) mod length (hashes r)) \<in> dom (map_of (nodes r))"
    if "s \<in> set [0..<length (hashes r)]" for s
  proof -
    from that have "?c ! s \<in> set ?c" by (intro nth_mem) simp
    with that show ?thesis
      by (elim clockwise_members [OF assms(1)]) (simp add: nodeID_at_rotated [OF assms(1)] domI)
  qed
  have "first_occurrences ?c \<noteq> []" using ne by (metis set_empty set_first_occurrences)
  then have "take (nat n) (first_occurrences ?c) \<noteq> []" using assms(2) by simp
  then show ?thesis
    using assms(2,3) walk_eq [OF dom, where steps = "[0..<length (hashes r)]" and seen = "[]" and owners = "[]"]
    by (simp add: LookupN_def clockwise_map [OF assms(1)])
qed

subsection \<open>Only the set of positions matters\<close>

lemma first_occurrences_filter: "first_occurrences (filter P xs) = filter P (first_occurrences xs)"
  by (induction xs) (auto intro: filter_cong)

lemma first_occurrences_append:
  "first_occurrences (xs @ ys) =
     first_occurrences xs @ filter (\<lambda>y. y \<notin> set xs) (first_occurrences ys)"
  by (induction xs) (auto intro: filter_cong)

lemma first_occurrences_map:
  "first_occurrences (map f (first_occurrences xs)) = first_occurrences (map f xs)"
proof (induction xs)
  case (Cons x xs)
  have *: "filter (\<lambda>v. v \<noteq> f x) (first_occurrences (map f (filter (\<lambda>y. y \<noteq> x) zs))) =
      filter (\<lambda>v. v \<noteq> f x) (first_occurrences (map f zs))" for zs
    by (simp add: first_occurrences_filter [symmetric] filter_map comp_def) (metis (mono_tags, lifting) filter_cong)
  show ?case using Cons by (simp add: *)
qed simp

lemma first_occurrences_distinct: "distinct xs \<Longrightarrow> first_occurrences xs = xs"
  by (simp add: first_occurrences_def distinct_remdups_id)

lemma first_occurrences_sorted:
  fixes xs :: "'a :: linorder list"
  assumes "sorted xs"
  shows "first_occurrences xs = sorted_list_of_set (set xs)"
proof (rule sym, rule sorted_distinct_set_unique)
  have "sorted (first_occurrences ys)" if "sorted ys" for ys :: "'a list"
    using that by (induction ys) (auto simp: sorted_wrt_filter)
  with assms show "sorted (first_occurrences xs)" by blast
qed simp_all

lemma dropWhile_sorted:
  fixes xs :: "'a :: linorder list"
  shows "sorted xs \<Longrightarrow> dropWhile (\<lambda>h. h < x) xs = filter (\<lambda>h. x \<le> h) xs"
  by (induction xs) (auto intro!: filter_True [symmetric])

lemma takeWhile_sorted:
  fixes xs :: "'a :: linorder list"
  shows "sorted xs \<Longrightarrow> takeWhile (\<lambda>h. h < x) xs = filter (\<lambda>h. h < x) xs"
  by (induction xs) (auto intro!: filter_False [symmetric] dest: bspec order_le_less_trans)

definition positions :: "32 word set \<Rightarrow> 32 word \<Rightarrow> 32 word list" where
  "positions H x = sorted_list_of_set {h \<in> H. x \<le> h} @ sorted_list_of_set {h \<in> H. h < x}"

lemma first_occurrences_clockwise:
  assumes "ring_inv r"
  shows "first_occurrences (clockwise r x) =
    first_occurrences (map (\<lambda>h. the (map_of (lookup r) h)) (positions (set (hashes r)) x))"
proof -
  let ?hs = "hashes r"
  have s: "sorted ?hs" using assms by (simp add: ring_inv_def)
  have "first_occurrences (dropWhile (\<lambda>h. h < x) ?hs @ takeWhile (\<lambda>h. h < x) ?hs) =
      positions (set ?hs) x"
    unfolding dropWhile_sorted [OF s] takeWhile_sorted [OF s] first_occurrences_append positions_def
    by (auto simp: first_occurrences_sorted [OF sorted_wrt_filter [OF s]] not_le intro!: filter_True)
  then show ?thesis unfolding clockwise_def by (metis first_occurrences_map)
qed

subsection \<open>The interface that routing and replication use\<close>

text \<open>
  \<open>owner\<close> is the single node a request is routed to, \<open>owners\<close> the preference list of the
  replication manager, both for a state \<open>r\<close> that satisfies the provider's invariant.
\<close>

locale placement =
  fixes invar :: "'r \<Rightarrow> bool"
    and owner :: "'r \<Rightarrow> string \<Rightarrow> Node option"
    and owners :: "'r \<Rightarrow> string \<Rightarrow> int \<Rightarrow> ring_error + Node list"
    and members :: "'r \<Rightarrow> Node list"
  assumes owners_distinct: "invar r \<Longrightarrow> owners r key n = Inr os \<Longrightarrow> distinct (map nd_ID os)"
    and owners_primary: "invar r \<Longrightarrow> owners r key n = Inr os \<Longrightarrow>
          os \<noteq> [] \<and> owner r key = Some (hd os)"
    and owners_members: "invar r \<Longrightarrow> owners r key n = Inr os \<Longrightarrow> set os \<subseteq> set (members r)"
    and owners_bound: "invar r \<Longrightarrow> owners r key n = Inr os \<Longrightarrow> int (length os) \<le> n"
    and owners_total: "invar r \<Longrightarrow> 0 < n \<Longrightarrow> owner r key \<noteq> None \<Longrightarrow> \<exists>os. owners r key n = Inr os"
    and owners_prefix: "invar r \<Longrightarrow> 0 < m \<Longrightarrow> m \<le> n \<Longrightarrow> owners r key n = Inr os \<Longrightarrow>
          owners r key m = Inr (take (nat m) os)"
begin

lemma owner_member: "invar r \<Longrightarrow> owner r key = Some nd \<Longrightarrow> nd \<in> set (members r)"
  using owners_total [of r 1 key] owners_primary [of r key 1] owners_members [of r key 1]
  by (cases "owners r key 1") (auto simp: hd_in_set subset_iff)

lemma primary_not_replica:
  assumes "invar r" and "owners r key n = Inr os" and "owner r key = Some nd"
  shows "nd_ID nd \<notin> nd_ID ` set (tl os)"
proof -
  from owners_primary [OF assms(1,2)] assms(3) obtain rest where "os = nd # rest"
    by (cases os) auto
  with owners_distinct [OF assms(1,2)] show ?thesis by auto
qed

lemma single_owner:
  assumes "invar r" and "owner r key = Some nd"
  shows "owners r key 1 = Inr [nd]"
proof -
  from owners_total [OF assms(1), of 1 key] assms(2) obtain os where os: "owners r key 1 = Inr os"
    by auto
  moreover from owners_primary [OF assms(1) os] assms(2) obtain rest where "os = nd # rest"
    by (cases os) auto
  moreover from owners_bound [OF assms(1) os] calculation have "rest = []" by simp
  ultimately show ?thesis by simp
qed

end

lemma ring_Members_set: "set (ring_Members r) = snd ` set (nodes r)"
  by (simp add: ring_Members_def Members_range_def)

lemma LookupN_InrD:
  assumes "ring_inv r" and "LookupN r key n = Inr os"
  shows "0 < n" and "hashes r \<noteq> []"
    and "map nd_ID os = take (nat n) (first_occurrences (clockwise r (hashf r key)))"
    and "os = map (\<lambda>k. the (map_of (nodes r) k))
          (take (nat n) (first_occurrences (clockwise r (hashf r key))))"
proof -
  let ?ks = "take (nat n) (first_occurrences (clockwise r (hashf r key)))"
  show n: "0 < n" and hs: "hashes r \<noteq> []" using assms(2) by (auto simp: LookupN_def split: if_splits)
  show os: "os = map (\<lambda>k. the (map_of (nodes r) k)) ?ks"
    using LookupN_clockwise [OF assms(1) n hs] assms(2) by simp
  have "nd_ID (the (map_of (nodes r) k)) = k" if "k \<in> set ?ks" for k
    using in_set_takeD [OF that] by (auto elim!: clockwise_members [OF assms(1)])
  then show "map nd_ID os = ?ks" unfolding os by (simp add: map_idI)
qed

lemma Lookup_None_iff: "ring_inv r \<Longrightarrow> Lookup r key = None \<longleftrightarrow> hashes r = []"
proof (cases "hashes r = []")
  case False
  assume inv: "ring_inv r"
  have "clockwise r (hashf r key) \<noteq> []" using False by (metis length_0_conv length_clockwise)
  then have "hd (clockwise r (hashf r key)) \<in> set (clockwise r (hashf r key))" by simp
  with inv False show ?thesis
    by (auto simp: Lookup_def lookupHash_clockwise elim!: clockwise_members)
qed (simp add: Lookup_def lookupHash_def)

interpretation hr: placement ring_inv Lookup LookupN ring_Members
proof (unfold_locales, goal_cases distinct primary members bound total pref)
  case (distinct r key n os)
  then show ?case by (simp add: LookupN_InrD(3))
next
  case (primary r key n os)
  let ?c = "clockwise r (hashf r key)"
  note d = LookupN_InrD [OF primary]
  have c: "?c \<noteq> []" using d(2) by (metis length_0_conv length_clockwise)
  then have f: "first_occurrences ?c \<noteq> []" by (metis set_empty set_first_occurrences)
  then have t: "take (nat n) (first_occurrences ?c) \<noteq> []" using d(1) by simp
  obtain nd where "map_of (nodes r) (hd ?c) = Some nd"
    using clockwise_members [OF primary(1), of "hd ?c"] c by (metis hd_in_set)
  moreover have "hd (take (nat n) (first_occurrences ?c)) = hd ?c"
    using c d(1) f by (simp add: hd_first_occurrences)
  ultimately show ?case
    using t d(2) by (simp add: d(4) hd_map Lookup_def lookupHash_clockwise [OF primary(1)])
next
  case (members r key n os)
  have "the (map_of (nodes r) k) \<in> snd ` set (nodes r)"
    if "k \<in> set (take (nat n) (first_occurrences (clockwise r (hashf r key))))" for k
  proof -
    from in_set_takeD [OF that] obtain nd where nd: "map_of (nodes r) k = Some nd"
      by (auto elim: clockwise_members [OF members(1)])
    from map_of_SomeD [OF this] show ?thesis by (simp add: nd image_iff) (metis snd_conv)
  qed
  then show ?case by (auto simp: LookupN_InrD(4) [OF members] ring_Members_set)
next
  case (bound r key n os)
  then show ?case using LookupN_InrD(1,4) [OF bound] by simp
next
  case (total r n key)
  then show ?case by (simp add: Lookup_None_iff LookupN_clockwise)
next
  case (pref r m n key os)
  then show ?case
    using LookupN_InrD(2,4) [OF pref(1,4)]
    by (simp add: LookupN_clockwise take_map min_def nat_le_eq_zle)
qed

subsection \<open>Membership changes\<close>

lemma Lookup_eq_succ:
  assumes "ring_inv r" and "hashes r \<noteq> []"
  shows "Lookup r key =
    map_of (nodes r) (the (map_of (lookup r) (succ_of (set (hashes r)) (hashf r key))))"
  by (simp add: Lookup_def lookupHash_clockwise [OF assms] clockwise_hd [OF assms])

lemma succ_of_hashes: "hashes r \<noteq> [] \<Longrightarrow> succ_of (set (hashes r)) x \<in> set (hashes r)"
  by (rule succ_of_in) simp_all

lemma lookup_succ:
  assumes "ring_inv r" and "hashes r \<noteq> []"
  obtains k nd where "map_of (lookup r) (succ_of (set (hashes r)) x) = Some k"
    and "map_of (nodes r) k = Some nd" and "nd_ID nd = k" and "succ_of (set (hashes r)) x \<in> vnode_set r k"
proof -
  let ?s = "succ_of (set (hashes r)) x"
  from succ_of_hashes [OF assms(2)] assms(1) have "?s \<in> dom (map_of (lookup r))"
    by (simp add: ring_inv_def del: dom_map_of_conv_image_fst)
  then obtain k where k: "map_of (lookup r) ?s = Some k" by blast
  with assms(1) have n: "map_of (nodes r) k \<noteq> None" and v: "?s \<in> vnode_set r k"
    unfolding ring_inv_def by blast+
  from n obtain nd where nd: "map_of (nodes r) k = Some nd" by blast
  with assms(1) have "nd_ID nd = k" by (simp add: ring_inv_def)
  with k nd v show thesis by (intro that)
qed

lemma AddNode_hashes_nonempty: "ring_inv r \<Longrightarrow> AddNode nd r = Inr r' \<Longrightarrow> hashes r' \<noteq> []"
  using AddNode_InrD(8) [of nd r r'] by (fastforce simp: ring_inv_def vnode_set_def)

lemma RemoveNode_hashes:
  assumes "ring_inv r" and "RemoveNode k r = Inr r'"
  shows "set (hashes r') = set (hashes r) - vnode_set r k"
proof -
  have "set (hashes r') = dom (map_of (lookup r'))"
    using ring_inv_RemoveNode [OF assms] by (simp add: ring_inv_def)
  also have "\<dots> = dom (map_of (lookup r)) - vnode_set r k"
    by (auto simp: RemoveNode_InrD(5) [OF assms(2)] split: if_splits)
  also have "dom (map_of (lookup r)) = set (hashes r)" using assms(1) by (simp add: ring_inv_def)
  finally show ?thesis .
qed

lemma LookupN_cong:
  assumes "ring_inv r" and "ring_inv r'" and "set (hashes r') = set (hashes r)"
    and "hashf r' = hashf r" and "map_of (lookup r') = map_of (lookup r)"
    and "map_of (nodes r') = map_of (nodes r)"
  shows "LookupN r' key n = LookupN r key n" and "Lookup r' key = Lookup r key"
proof -
  have e: "hashes r' = [] \<longleftrightarrow> hashes r = []" using assms(3) by auto
  show "LookupN r' key n = LookupN r key n"
  proof (cases "0 < n \<and> hashes r \<noteq> []")
    case True
    then show ?thesis
      by (simp add: LookupN_clockwise assms(1,2) e first_occurrences_clockwise)
        (simp add: assms)
  next
    case False
    then show ?thesis by (auto simp: LookupN_def e)
  qed
  show "Lookup r' key = Lookup r key"
  proof (cases "hashes r = []")
    case False
    then show ?thesis by (simp add: Lookup_eq_succ assms e)
  qed (simp add: Lookup_def lookupHash_def e)
qed

lemma AddNode_owner:
  assumes "ring_inv r" and "AddNode nd r = Inr r'"
  shows "Lookup r' key = Some nd \<or> Lookup r' key = Lookup r key"
proof -
  note a = AddNode_InrD [OF assms(2)]
  have inv': "ring_inv r'" by (rule ring_inv_AddNode [OF assms])
  have ne': "hashes r' \<noteq> []" by (rule AddNode_hashes_nonempty [OF assms])
  let ?x = "hashf r key"
  let ?s = "succ_of (set (hashes r')) ?x"
  have L': "Lookup r' key = map_of (nodes r') (the (map_of (lookup r') ?s))"
    using Lookup_eq_succ [OF inv' ne', of key] by (simp add: a(5))
  show ?thesis
  proof (cases "?s \<in> vnode_set r (nd_ID nd)")
    case True
    then show ?thesis by (simp add: L' a(6,7))
  next
    case False
    with succ_of_hashes [OF ne', of ?x] have mem: "?s \<in> set (hashes r)" by (simp add: a(8))
    then have ne: "hashes r \<noteq> []" by auto
    have "succ_of (set (hashes r)) ?x = ?s"
      using mem by (intro succ_of_subset) (auto simp: a(8))
    moreover obtain k nd' where "map_of (lookup r) (succ_of (set (hashes r)) ?x) = Some k"
      "map_of (nodes r) k = Some nd'" by (rule lookup_succ [OF assms(1) ne])
    ultimately show ?thesis
      using False a(3) by (auto simp: L' a(6,7) Lookup_eq_succ [OF assms(1) ne])
  qed
qed

lemma delete_update_absent:
  "k \<notin> fst ` set xs \<Longrightarrow> AList.delete k (AList.update k v xs) = xs"
  by (induction xs) auto

lemma AddNode_succeeds:
  "nd_ID nd \<noteq> [] \<Longrightarrow> nd_Addr nd \<noteq> [] \<Longrightarrow> map_of (nodes r) (nd_ID nd) = None \<Longrightarrow>
    \<exists>r'. AddNode nd r = Inr r'"
  by (simp add: AddNode_def Let_def)

lemma nodes_ID_distinct:
  assumes "ring_inv r"
  shows "distinct (map nd_ID (map snd (nodes r)))"
proof -
  have eq: "map nd_ID (map snd (nodes r)) = map fst (nodes r)"
  proof -
    have "nd_ID (snd p) = fst p" if "p \<in> set (nodes r)" for p
    proof -
      from that assms have "map_of (nodes r) (fst p) = Some (snd p)" by (simp add: ring_inv_def)
      with assms show ?thesis by (simp add: ring_inv_def)
    qed
    then show ?thesis by simp
  qed
  then show ?thesis using assms unfolding eq by (simp add: ring_inv_def)
qed

lemma ring_Members_distinct: "ring_inv r \<Longrightarrow> distinct (map nd_ID (ring_Members r))"
  using nodes_ID_distinct [of r] unfolding ring_Members_def Members_range_def distinct_map
  by (auto simp: distinct_map)

lemma ran_is_image: "(\<lambda>h. the (m h)) ` dom m = ran m"
  by (auto simp: ran_def dom_def image_iff) (metis option.sel)

lemma RemoveNode_succeeds: "map_of (nodes r) k \<noteq> None \<Longrightarrow> \<exists>r'. RemoveNode k r = Inr r'"
  by (simp add: RemoveNode_def Let_def)

lemma ring_inv_run: "ring_inv r \<Longrightarrow> ring_inv (fold ring_step ops r)"
  by (induction ops arbitrary: r) (simp_all add: ring_inv_step)

section \<open>Properties\<close>

definition demo_n1 :: Node where "demo_n1 = \<lparr>nd_ID = ''n1'', nd_Addr = ''h1:1''\<rparr>"
definition demo_n2 :: Node where "demo_n2 = \<lparr>nd_ID = ''n2'', nd_Addr = ''h2:1''\<rparr>"
definition demo_n3 :: Node where "demo_n3 = \<lparr>nd_ID = ''n3'', nd_Addr = ''h3:1''\<rparr>"

definition demo_ring :: Ring where
  "demo_ring = fold ring_step [AddOp demo_n1, AddOp demo_n2]
     (NewRing \<lparr>VirtualNodes = 2, Hash = None\<rparr>)"

lemma demo_ring_inv: "ring_inv demo_ring"
  unfolding demo_ring_def by (intro ring_inv_run ring_inv_NewRing)

lemma demo_ring_hashes: "hashes demo_ring = [794192378, 810969997, 1581649912, 1598427531]"
  by code_simp

lemma demo_ring_nodes: "nodes demo_ring = [(''n1'', demo_n1), (''n2'', demo_n2)]"
  by code_simp

lemma demo_join: "\<exists>r'. AddNode demo_n3 demo_ring = Inr r'"
  by (rule AddNode_succeeds) (simp_all add: demo_ring_nodes demo_n3_def)

lemma demo_leave: "\<exists>r'. RemoveNode ''n1'' demo_ring = Inr r'"
  by (rule RemoveNode_succeeds) (simp add: demo_ring_nodes)

text \<open>
  C21: Every ring that \<open>NewRing\<close> and any sequence of successful or failing \<open>AddNode\<close> and
  \<open>RemoveNode\<close> calls produce is well formed: the positions are sorted and are exactly the keys of
  the \<open>lookup\<close> map, every position belongs to a current member and is one of its virtual nodes, and
  members are stored under their own non-empty identifier.
\<close>

theorem ring_run_inv: "ring_inv (fold ring_step ops (NewRing cfg))"
  by (intro ring_inv_run ring_inv_NewRing)

text \<open>
  C22: On a non-empty ring \<open>Lookup\<close> always finds an owner, and it is the member that holds the
  virtual node at the clockwise successor of the key's hash: the least position not below it, or
  the least position of all when the search runs off the end.
\<close>

theorem Lookup_successor:
  assumes "ring_inv r" and "hashes r \<noteq> []"
  shows "\<exists>nd. Lookup r key = Some nd \<and> nd \<in> set (ring_Members r) \<and>
    map_of (lookup r) (succ_of (set (hashes r)) (hashf r key)) = Some (nd_ID nd) \<and>
    succ_of (set (hashes r)) (hashf r key) \<in> vnode_set r (nd_ID nd)"
proof -
  obtain k nd where k: "map_of (lookup r) (succ_of (set (hashes r)) (hashf r key)) = Some k"
    "map_of (nodes r) k = Some nd" "nd_ID nd = k"
    "succ_of (set (hashes r)) (hashf r key) \<in> vnode_set r k"
    by (rule lookup_succ [OF assms])
  moreover from k have "Lookup r key = Some nd" by (simp add: Lookup_eq_succ [OF assms])
  ultimately show ?thesis using hr.owner_member [OF assms(1)] by auto
qed

theorem Lookup_successor_witness:
  "\<exists>nd. Lookup demo_ring ''k'' = Some nd \<and> nd \<in> set (ring_Members demo_ring) \<and>
    map_of (lookup demo_ring) (succ_of (set (hashes demo_ring)) (hashf demo_ring ''k'')) = Some (nd_ID nd) \<and>
    succ_of (set (hashes demo_ring)) (hashf demo_ring ''k'') \<in> vnode_set demo_ring (nd_ID nd)"
  by (rule Lookup_successor) (simp_all add: demo_ring_inv demo_ring_hashes)

text \<open>
  C7: For a positive \<open>n\<close> and a non-empty ring, \<open>LookupN\<close> returns the first \<open>n\<close> distinct members of
  the clockwise walk that starts at the key's successor: the identifiers are distinct, their number
  is \<open>n\<close> or the number of members on the ring if that is less, the first is the owner that
  \<open>Lookup\<close> returns, and a smaller \<open>n\<close> gives a prefix.
\<close>

theorem LookupN_refines:
  assumes "ring_inv r" and "0 < n" and "hashes r \<noteq> []"
  shows "\<exists>os. LookupN r key n = Inr os \<and>
    map nd_ID os = take (nat n) (first_occurrences (clockwise r (hashf r key))) \<and>
    distinct (map nd_ID os) \<and>
    length os = min (nat n) (card (ran (map_of (lookup r)))) \<and>
    Lookup r key = Some (hd os) \<and> set os \<subseteq> set (ring_Members r) \<and>
    (\<forall>m. 0 < m \<longrightarrow> m \<le> n \<longrightarrow> LookupN r key m = Inr (take (nat m) os))"
proof -
  let ?c = "clockwise r (hashf r key)"
  obtain os where os: "LookupN r key n = Inr os" using LookupN_clockwise [OF assms] by simp
  have "set (hashes r) = dom (map_of (lookup r))" using assms(1) unfolding ring_inv_def by blast
  then have "set ?c = ran (map_of (lookup r))" unfolding set_clockwise by (simp only: ran_is_image)
  then have "length os = min (nat n) (card (ran (map_of (lookup r))))"
    using LookupN_InrD(4) [OF assms(1) os] by (simp add: length_first_occurrences min.commute)
  then show ?thesis
    using os LookupN_InrD(3) [OF assms(1) os] hr.owners_distinct [OF assms(1) os]
      hr.owners_primary [OF assms(1) os] hr.owners_members [OF assms(1) os]
      hr.owners_prefix [OF assms(1) _ _ os] by (intro exI [of _ os] conjI allI impI) simp_all
qed

theorem LookupN_refines_witness:
  "\<exists>os. LookupN demo_ring ''k'' 2 = Inr os \<and>
    map nd_ID os = take (nat 2) (first_occurrences (clockwise demo_ring (hashf demo_ring ''k''))) \<and>
    distinct (map nd_ID os) \<and>
    length os = min (nat 2) (card (ran (map_of (lookup demo_ring)))) \<and>
    Lookup demo_ring ''k'' = Some (hd os) \<and> set os \<subseteq> set (ring_Members demo_ring) \<and>
    (\<forall>m. 0 < m \<longrightarrow> m \<le> 2 \<longrightarrow> LookupN demo_ring ''k'' m = Inr (take (nat m) os))"
  by (rule LookupN_refines) (simp_all add: demo_ring_inv demo_ring_hashes)

text \<open>
  C23: When a node joins, a key either keeps its owner or moves to the new node, whatever the hash
  function and even when virtual nodes collide.
\<close>

theorem join_moves_to_new:
  assumes "ring_inv r" and "AddNode nd r = Inr r'"
  shows "Lookup r' key = Some nd \<or> Lookup r' key = Lookup r key"
  by (rule AddNode_owner [OF assms])

theorem join_moves_to_new_witness:
  "\<exists>r'. AddNode demo_n3 demo_ring = Inr r' \<and>
    (Lookup r' ''k'' = Some demo_n3 \<or> Lookup r' ''k'' = Lookup demo_ring ''k'')"
  using demo_join join_moves_to_new [OF demo_ring_inv] by blast

text \<open>
  C24: When a node leaves, no other key moves: a key whose owner is another member keeps its owner.
  The hypothesis is that no virtual node of the leaving node has the position of one of another
  member; without it \<open>RemoveNode\<close> deletes the shared position.
\<close>

theorem leave_moves_only_its_keys:
  assumes "ring_inv r" and "RemoveNode k r = Inr r'"
    and "\<forall>m. map_of (nodes r) m \<noteq> None \<longrightarrow> m \<noteq> k \<longrightarrow> vnode_set r m \<inter> vnode_set r k = {}"
    and "Lookup r key = Some nd" and "nd_ID nd \<noteq> k"
  shows "Lookup r' key = Some nd"
proof -
  note a = RemoveNode_InrD [OF assms(2)]
  let ?x = "hashf r key"
  let ?s = "succ_of (set (hashes r)) ?x"
  have ne: "hashes r \<noteq> []" using assms(1,4) Lookup_None_iff by force
  obtain m nd' where m: "map_of (lookup r) ?s = Some m" "map_of (nodes r) m = Some nd'"
    "nd_ID nd' = m" "?s \<in> vnode_set r m" by (rule lookup_succ [OF assms(1) ne])
  then have nd: "nd' = nd" using assms(4) by (simp add: Lookup_eq_succ [OF assms(1) ne])
  then have "?s \<notin> vnode_set r k" using assms(3,5) m by blast
  then have mem: "?s \<in> set (hashes r')"
    using succ_of_hashes [OF ne] by (simp add: RemoveNode_hashes [OF assms(1,2)])
  then have ne': "hashes r' \<noteq> []" by auto
  have "succ_of (set (hashes r')) ?x = ?s"
    using mem by (intro succ_of_subset) (auto simp: RemoveNode_hashes [OF assms(1,2)])
  with m nd \<open>?s \<notin> vnode_set r k\<close> assms(5) show ?thesis
    using Lookup_eq_succ [OF ring_inv_RemoveNode [OF assms(1,2)] ne', of key] by (simp add: a(3,4,5))
qed

lemma demo_no_collision:
  "vnode_set demo_ring ''n1'' \<inter> vnode_set demo_ring ''n2'' = {}"
  "vnode_set demo_ring ''n3'' \<inter> set (hashes demo_ring) = {}"
  by code_simp+

lemma demo_owner: "Lookup demo_ring ''k'' = Some demo_n2"
  by code_simp

theorem leave_moves_only_its_keys_witness:
  "\<exists>r'. RemoveNode ''n1'' demo_ring = Inr r' \<and> Lookup r' ''k'' = Some demo_n2"
proof -
  obtain r' where r': "RemoveNode ''n1'' demo_ring = Inr r'" using demo_leave by blast
  have "\<forall>m. map_of (nodes demo_ring) m \<noteq> None \<longrightarrow> m \<noteq> ''n1'' \<longrightarrow>
      vnode_set demo_ring m \<inter> vnode_set demo_ring ''n1'' = {}"
    using demo_no_collision(1) by (auto simp: demo_ring_nodes split: if_splits)
  from leave_moves_only_its_keys [OF demo_ring_inv r' this demo_owner] r' show ?thesis
    by (auto simp: demo_n2_def)
qed

text \<open>
  C25: A join followed by a leave of the same node restores the cluster: the members, the owner and
  the preference list of every key are those from before, provided that no virtual node of the
  joining node falls on an occupied position.
\<close>

theorem join_leave_roundtrip:
  assumes "ring_inv r" and "AddNode nd r = Inr r1"
    and "vnode_set r (nd_ID nd) \<inter> set (hashes r) = {}"
  shows "\<exists>r2. RemoveNode (nd_ID nd) r1 = Inr r2 \<and> ring_Members r2 = ring_Members r \<and>
    (\<forall>key. Lookup r2 key = Lookup r key \<and> (\<forall>n. LookupN r2 key n = LookupN r key n))"
proof -
  note a = AddNode_InrD [OF assms(2)]
  have inv1: "ring_inv r1" by (rule ring_inv_AddNode [OF assms(1,2)])
  obtain r2 where r2: "RemoveNode (nd_ID nd) r1 = Inr r2"
    using RemoveNode_succeeds [of r1 "nd_ID nd"] a(6) by auto
  note b = RemoveNode_InrD [OF r2]
  have inv2: "ring_inv r2" by (rule ring_inv_RemoveNode [OF inv1 r2])
  have v: "vnode_set r1 = vnode_set r" using a(4,5) by (rule vnode_set_eqI)
  have nodes: "nodes r2 = nodes r"
    using a(3) unfolding b(4) a(6) by (intro delete_update_absent) (simp add: map_of_eq_None_iff)
  have hs: "set (hashes r2) = set (hashes r)"
    using assms(3) unfolding RemoveNode_hashes [OF inv1 r2] a(8) v by blast
  have dom: "set (hashes r) = dom (map_of (lookup r))" using assms(1) unfolding ring_inv_def by blast
  have lk: "map_of (lookup r2) = map_of (lookup r)"
  proof
    fix h
    show "map_of (lookup r2) h = map_of (lookup r) h"
      using assms(3) unfolding b(5) a(7) v dom by (cases "map_of (lookup r) h") auto
  qed
  have hf: "hashf r2 = hashf r" by (simp add: a(5) b(3))
  have "map_of (nodes r2) = map_of (nodes r)" by (simp add: nodes)
  note cong = LookupN_cong [OF assms(1) inv2 hs hf lk this]
  show ?thesis using r2 cong by (simp add: ring_Members_def nodes)
qed

theorem join_leave_roundtrip_witness:
  "\<exists>r1 r2. AddNode demo_n3 demo_ring = Inr r1 \<and> RemoveNode (nd_ID demo_n3) r1 = Inr r2 \<and>
    ring_Members r2 = ring_Members demo_ring \<and>
    (\<forall>key. Lookup r2 key = Lookup demo_ring key \<and> (\<forall>n. LookupN r2 key n = LookupN demo_ring key n))"
proof -
  obtain r1 where r1: "AddNode demo_n3 demo_ring = Inr r1" using demo_join by blast
  have "vnode_set demo_ring (nd_ID demo_n3) \<inter> set (hashes demo_ring) = {}"
    using demo_no_collision(2) by (simp add: demo_n3_def)
  from join_leave_roundtrip [OF demo_ring_inv r1 this] r1 show ?thesis by blast
qed

text \<open>
  C26: The results that come from iterating over a Go map do not depend on the order of the
  iteration: \<open>Members\<close> and the positions that \<open>RemoveNode\<close> rebuilds are the same for every
  sequence in which the pairs of the map are visited, and the members come out in the order of
  their identifiers, without duplicates.
\<close>

theorem ring_order_independent:
  assumes "ring_inv r" and "mset ns = mset (nodes r)" and "mset ls = mset (lookup r)"
  shows "Members_range ns = ring_Members r \<and> rebuildHashes_range ls r = rebuildHashes r \<and>
    sorted (map nd_ID (ring_Members r)) \<and> distinct (map nd_ID (ring_Members r))"
proof -
  have dist: "distinct (map nd_ID (map snd (nodes r)))" by (rule nodes_ID_distinct [OF assms(1)])
  then have inj: "inj_on nd_ID (set (map snd ns))"
    using mset_eq_setD [OF assms(2)] by (simp add: distinct_map inj_on_imageI)
  have m: "mset (map snd ns) = mset (ring_Members r)"
    using assms(2) by (simp add: ring_Members_def Members_range_def)
  have s: "sorted (map nd_ID (ring_Members r))" by (simp add: ring_Members_def Members_range_def)
  have "Members_range ns = ring_Members r"
    unfolding Members_range_def by (rule sort_key_inj_key_eq [OF m inj s])
  moreover have "sort (map fst ls) = sort (map fst (lookup r))"
    using assms(3) by (intro properties_for_sort) simp_all
  moreover have "distinct (map nd_ID (ring_Members r))"
    by (rule ring_Members_distinct [OF assms(1)])
  ultimately show ?thesis
    using s by (simp add: rebuildHashes_def rebuildHashes_range_def)
qed

theorem ring_order_independent_witness:
  "Members_range (rev (nodes demo_ring)) = ring_Members demo_ring \<and>
   rebuildHashes_range (rev (lookup demo_ring)) demo_ring = rebuildHashes demo_ring \<and>
   sorted (map nd_ID (ring_Members demo_ring)) \<and> distinct (map nd_ID (ring_Members demo_ring))"
  by (rule ring_order_independent) (simp_all add: demo_ring_inv)

end
