(* ===== verification/Cluster_View.thy ===== *)
theory Cluster_View
  imports Hash_Ring Complex_Main
begin

text \<open>
  \<open>internal/cluster/cluster.go\<close>: a cluster is a ring and the identifier of the local node. The
  result of \<open>estimateMovement\<close> is a \<open>float64\<close> quotient of an integer of at most 2048 by 2048, which
  binary floating point represents exactly; it is a rational number here. \<open>ParsePeers\<close>, which
  produces the peer list that \<open>NewCluster\<close> consumes, is in \<open>Hash_Ring\<close>; its properties are here.
\<close>

section \<open>Definitions\<close>

record Cluster =
  cl_ring :: Ring
  selfID :: string

datatype cluster_error =
    LocalIDRequired
  | LocalAddrRequired
  | PeerIsSelf string
  | AddPeerFailed string ring_error
  | RingFailed ring_error

fun addPeers :: "Node \<Rightarrow> Node list \<Rightarrow> Ring \<Rightarrow> cluster_error + Ring" where
  "addPeers self [] r = Inr r"
| "addPeers self (peer # peers) r =
     (if nd_ID peer = nd_ID self then Inl (PeerIsSelf (nd_ID self))
      else case AddNode peer r of
        Inl err \<Rightarrow> Inl (AddPeerFailed (nd_ID peer) err)
      | Inr r' \<Rightarrow> addPeers self peers r')"

definition NewCluster :: "Node \<Rightarrow> Node list \<Rightarrow> RingConfig \<Rightarrow> cluster_error + Cluster" where
  "NewCluster self peers cfg =
     (if nd_ID self = [] then Inl LocalIDRequired
      else if nd_Addr self = [] then Inl LocalAddrRequired
      else case AddNode self (NewRing cfg) of
        Inl err \<Rightarrow> Inl (RingFailed err)
      | Inr r \<Rightarrow> (case addPeers self peers r of
          Inl err \<Rightarrow> Inl err
        | Inr r' \<Rightarrow> Inr \<lparr>cl_ring = r', selfID = nd_ID self\<rparr>))"

definition SelfID :: "Cluster \<Rightarrow> string" where
  "SelfID c = selfID c"

definition Owner :: "Cluster \<Rightarrow> string \<Rightarrow> Node option" where
  "Owner c key = Lookup (cl_ring c) key"

definition Owners :: "Cluster \<Rightarrow> string \<Rightarrow> int \<Rightarrow> ring_error + Node list" where
  "Owners c key n = LookupN (cl_ring c) key n"

definition IsOwner :: "Cluster \<Rightarrow> string \<Rightarrow> bool" where
  "IsOwner c key = (case Owner c key of None \<Rightarrow> False | Some owner \<Rightarrow> nd_ID owner = selfID c)"

definition Join :: "Node \<Rightarrow> Cluster \<Rightarrow> ring_error + Cluster" where
  "Join node c = (case AddNode node (cl_ring c) of Inl err \<Rightarrow> Inl err | Inr r \<Rightarrow> Inr (c\<lparr>cl_ring := r\<rparr>))"

definition Leave :: "string \<Rightarrow> Cluster \<Rightarrow> ring_error + Cluster" where
  "Leave nodeID c =
     (case RemoveNode nodeID (cl_ring c) of Inl err \<Rightarrow> Inl err | Inr r \<Rightarrow> Inr (c\<lparr>cl_ring := r\<rparr>))"

definition cluster_Members :: "Cluster \<Rightarrow> Node list" where
  "cluster_Members c = ring_Members (cl_ring c)"

definition samples :: nat where
  "samples = 2048"

definition sample_key :: "nat \<Rightarrow> string" where
  "sample_key i = ''rebalance-key-'' @ Itoa i"

fun copyMembers :: "Node list \<Rightarrow> Ring \<Rightarrow> ring_error + Ring" where
  "copyMembers [] temp = Inr temp"
| "copyMembers (node # ns) temp =
     (case AddNode node temp of Inl err \<Rightarrow> Inl err | Inr temp' \<Rightarrow> copyMembers ns temp')"

definition countChange :: "Ring \<Rightarrow> Ring \<Rightarrow> nat \<Rightarrow> nat \<Rightarrow> nat" where
  "countChange r temp i changed =
     (case Lookup r (sample_key i) of
        None \<Rightarrow> changed
      | Some beforeOwner \<Rightarrow> (case Lookup temp (sample_key i) of
          None \<Rightarrow> changed
        | Some afterOwner \<Rightarrow> if nd_ID beforeOwner \<noteq> nd_ID afterOwner then changed + 1 else changed))"

definition estimateMovement :: "(Ring \<Rightarrow> ring_error + Ring) \<Rightarrow> Cluster \<Rightarrow> ring_error + rat" where
  "estimateMovement app c =
     (if ring_Len (cl_ring c) = 0 then Inl ErrEmptyRing
      else case copyMembers (ring_Members (cl_ring c)) (NewRing (ring_cfg (cl_ring c))) of
        Inl err \<Rightarrow> Inl err
      | Inr temp0 \<Rightarrow> (case app temp0 of
          Inl err \<Rightarrow> Inl err
        | Inr temp \<Rightarrow>
            Inr (of_nat (fold (countChange (cl_ring c) temp) [0..<samples] 0) / of_nat samples)))"

definition EstimateKeyMovementAfterJoin :: "Node \<Rightarrow> Cluster \<Rightarrow> ring_error + rat" where
  "EstimateKeyMovementAfterJoin node c = estimateMovement (AddNode node) c"

definition EstimateKeyMovementAfterLeave :: "string \<Rightarrow> Cluster \<Rightarrow> ring_error + rat" where
  "EstimateKeyMovementAfterLeave nodeID c = estimateMovement (RemoveNode nodeID) c"

section \<open>Invariant and specification\<close>

definition cluster_inv :: "Cluster \<Rightarrow> bool" where
  "cluster_inv c \<longleftrightarrow> ring_inv (cl_ring c)"

text \<open>
  A ring is full when every virtual node of every member is on it, each at a position of its own.
  It is what \<open>AddNode\<close> calls without hash collisions build.
\<close>

definition ring_full :: "Ring \<Rightarrow> bool" where
  "ring_full r \<longleftrightarrow>
     (\<forall>h k. map_of (lookup r) h = Some k \<longleftrightarrow> map_of (nodes r) k \<noteq> None \<and> h \<in> vnode_set r k)"

definition owner_changes :: "Ring \<Rightarrow> Ring \<Rightarrow> nat \<Rightarrow> bool" where
  "owner_changes r r' i \<longleftrightarrow> (\<exists>b a. Lookup r (sample_key i) = Some b \<and>
     Lookup r' (sample_key i) = Some a \<and> nd_ID b \<noteq> nd_ID a)"

definition moved :: "Ring \<Rightarrow> Ring \<Rightarrow> nat set" where
  "moved r r' = {i. i < samples \<and> owner_changes r r' i}"

fun join_peers :: "Node list \<Rightarrow> string" where
  "join_peers [] = []"
| "join_peers [p] = nd_ID p @ ''='' @ nd_Addr p"
| "join_peers (p # q # ps) = nd_ID p @ ''='' @ nd_Addr p @ '','' @ join_peers (q # ps)"

definition valid_peers :: "Node list \<Rightarrow> bool" where
  "valid_peers peers \<longleftrightarrow>
     distinct (map nd_ID peers) \<and> (\<forall>p\<in>set peers. nd_ID p \<noteq> [] \<and> nd_Addr p \<noteq> [])"

section \<open>Lemmas\<close>

subsection \<open>Membership\<close>

interpretation cv: placement cluster_inv Owner Owners cluster_Members
  using hr.owners_distinct hr.owners_primary hr.owners_members hr.owners_bound hr.owners_total
    hr.owners_prefix
  by unfold_locales (auto simp: cluster_inv_def Owner_def Owners_def cluster_Members_def)

lemma Join_InrD: "Join nd c = Inr c' \<Longrightarrow> \<exists>r. AddNode nd (cl_ring c) = Inr r \<and> c' = c\<lparr>cl_ring := r\<rparr>"
  by (auto simp: Join_def split: sum.splits)

lemma Leave_InrD: "Leave k c = Inr c' \<Longrightarrow> \<exists>r. RemoveNode k (cl_ring c) = Inr r \<and> c' = c\<lparr>cl_ring := r\<rparr>"
  by (auto simp: Leave_def split: sum.splits)

lemma cluster_inv_Join [inv_intros]: "cluster_inv c \<Longrightarrow> Join nd c = Inr c' \<Longrightarrow> cluster_inv c'"
  by (auto simp: cluster_inv_def dest!: Join_InrD intro: ring_inv_AddNode)

lemma cluster_inv_Leave [inv_intros]: "cluster_inv c \<Longrightarrow> Leave k c = Inr c' \<Longrightarrow> cluster_inv c'"
  by (auto simp: cluster_inv_def dest!: Leave_InrD intro: ring_inv_RemoveNode)

lemma IsOwner_iff: "IsOwner c key \<longleftrightarrow> (\<exists>nd. Owner c key = Some nd \<and> nd_ID nd = SelfID c)"
  by (auto simp: IsOwner_def SelfID_def split: option.splits)

lemma members_map_of:
  assumes "ring_inv r"
  shows "nd \<in> set (ring_Members r) \<longleftrightarrow> map_of (nodes r) (nd_ID nd) = Some nd"
proof -
  have d: "distinct (map fst (nodes r))" using assms by (simp add: ring_inv_def)
  have key: "nd_ID nd = k" if "(k, nd) \<in> set (nodes r)" for k nd
  proof -
    from that have "map_of (nodes r) k = Some nd" by (simp add: d)
    with assms show ?thesis by (simp add: ring_inv_def)
  qed
  have "nd \<in> snd ` set (nodes r) \<longleftrightarrow> (nd_ID nd, nd) \<in> set (nodes r)"
  proof
    assume "nd \<in> snd ` set (nodes r)"
    then obtain k where "(k, nd) \<in> set (nodes r)" by auto
    with key [OF this] show "(nd_ID nd, nd) \<in> set (nodes r)" by simp
  qed (auto intro: rev_image_eqI)
  then show ?thesis by (simp add: ring_Members_set d)
qed

lemma AddNode_dom: "AddNode nd r = Inr r' \<Longrightarrow> dom (map_of (nodes r')) = insert (nd_ID nd) (dom (map_of (nodes r)))"
  by (simp add: AddNode_InrD(6) del: fun_upd_apply)

lemma valid_peers_Cons:
  "valid_peers (p # ps) \<longleftrightarrow>
     nd_ID p \<noteq> [] \<and> nd_Addr p \<noteq> [] \<and> nd_ID p \<notin> nd_ID ` set ps \<and> valid_peers ps"
  by (auto simp: valid_peers_def)

lemma addPeers_ok:
  assumes "ring_inv r" and "nd_ID self \<in> dom (map_of (nodes r))" and "valid_peers peers"
    and "nd_ID ` set peers \<inter> dom (map_of (nodes r)) = {}"
  shows "\<exists>r'. addPeers self peers r = Inr r' \<and> ring_inv r' \<and>
    (\<forall>nd. map_of (nodes r') (nd_ID nd) = Some nd \<longleftrightarrow>
        map_of (nodes r) (nd_ID nd) = Some nd \<or> nd \<in> set peers)"
  using assms
proof (induction peers arbitrary: r)
  case (Cons p peers)
  obtain r1 where r1: "AddNode p r = Inr r1"
    using AddNode_succeeds [of p r] Cons.prems by (auto simp: valid_peers_Cons)
  note a = AddNode_InrD [OF r1]
  have neq: "nd_ID p \<noteq> nd_ID self" using Cons.prems by auto
  have "nd_ID self \<in> dom (map_of (nodes r1))" and "valid_peers peers"
    and "nd_ID ` set peers \<inter> dom (map_of (nodes r1)) = {}"
    using Cons.prems(2,3,4) unfolding AddNode_dom [OF r1] by (auto simp: valid_peers_Cons)
  from Cons.IH [OF ring_inv_AddNode [OF Cons.prems(1) r1] this]
  obtain r' where r': "addPeers self peers r1 = Inr r'" "ring_inv r'"
    "\<forall>nd. map_of (nodes r') (nd_ID nd) = Some nd \<longleftrightarrow>
        map_of (nodes r1) (nd_ID nd) = Some nd \<or> nd \<in> set peers" by blast
  have "map_of (nodes r1) (nd_ID nd) = Some nd \<longleftrightarrow> map_of (nodes r) (nd_ID nd) = Some nd \<or> nd = p" for nd
    using a(3) by (auto simp: a(6))
  with r' r1 neq show ?case by auto
qed simp

lemma addPeers_self:
  assumes "ring_inv r" and "nd_ID self \<in> dom (map_of (nodes r))" and "valid_peers peers"
    and "nd_ID self \<in> nd_ID ` set peers"
    and "\<forall>p\<in>set peers. nd_ID p \<noteq> nd_ID self \<longrightarrow> map_of (nodes r) (nd_ID p) = None"
  shows "addPeers self peers r = Inl (PeerIsSelf (nd_ID self))"
  using assms
proof (induction peers arbitrary: r)
  case (Cons p peers)
  show ?case
  proof (cases "nd_ID p = nd_ID self")
    case False
    then obtain r1 where r1: "AddNode p r = Inr r1"
      using AddNode_succeeds [of p r] Cons.prems by (auto simp: valid_peers_Cons)
    note a = AddNode_InrD [OF r1]
    have "addPeers self peers r1 = Inl (PeerIsSelf (nd_ID self))"
    proof (rule Cons.IH [OF ring_inv_AddNode [OF Cons.prems(1) r1]])
      show "nd_ID self \<in> dom (map_of (nodes r1))" using Cons.prems(2) by (simp add: AddNode_dom [OF r1])
      show "valid_peers peers" "nd_ID self \<in> nd_ID ` set peers"
        using Cons.prems(3,4) False by (auto simp: valid_peers_Cons)
      show "\<forall>q\<in>set peers. nd_ID q \<noteq> nd_ID self \<longrightarrow> map_of (nodes r1) (nd_ID q) = None"
      proof (intro ballI impI)
        fix q
        assume q: "q \<in> set peers" "nd_ID q \<noteq> nd_ID self"
        have "nd_ID q \<noteq> nd_ID p"
          using Cons.prems(3) q(1) unfolding valid_peers_Cons by (metis imageI)
        with q Cons.prems(5) show "map_of (nodes r1) (nd_ID q) = None" by (simp add: a(6))
      qed
    qed
    with False r1 show ?thesis by simp
  qed simp
qed simp

lemma addPeers_InrD:
  assumes "addPeers self peers r = Inr r'" and "nd_ID self \<in> dom (map_of (nodes r))"
  shows "valid_peers peers \<and> nd_ID ` set peers \<inter> dom (map_of (nodes r)) = {}"
  using assms
proof (induction peers arbitrary: r)
  case (Cons p peers)
  from Cons.prems(1) obtain r1 where r1: "AddNode p r = Inr r1" "addPeers self peers r1 = Inr r'"
    by (auto split: if_splits sum.splits)
  note a = AddNode_InrD [OF r1(1)]
  have "nd_ID self \<in> dom (map_of (nodes r1))" using Cons.prems(2) by (simp add: AddNode_dom [OF r1(1)])
  from Cons.IH [OF r1(2) this] show ?case
    using a(1,2,3) unfolding AddNode_dom [OF r1(1)] by (auto simp: valid_peers_Cons)
qed (simp add: valid_peers_def)

lemma NewCluster_self:
  assumes "nd_ID self \<noteq> []" and "nd_Addr self \<noteq> []"
  obtains r where "AddNode self (NewRing cfg) = Inr r" and "ring_inv r"
    and "map_of (nodes r) = [nd_ID self \<mapsto> self]"
proof -
  obtain r where r: "AddNode self (NewRing cfg) = Inr r"
    using AddNode_succeeds [OF assms, of "NewRing cfg"] by (auto simp: NewRing_def)
  show thesis
    by (rule that [OF r ring_inv_AddNode [OF ring_inv_NewRing r]])
      (simp add: AddNode_InrD(6) [OF r] NewRing_def)
qed

subsection \<open>Full rings\<close>

lemma ring_full_AddNode:
  assumes "ring_full r" and "AddNode nd r = Inr r'"
    and "\<And>k. map_of (nodes r) k \<noteq> None \<Longrightarrow> vnode_set r k \<inter> vnode_set r (nd_ID nd) = {}"
  shows "ring_full r'"
proof -
  note a = AddNode_InrD [OF assms(2)]
  have v: "vnode_set r' = vnode_set r" using a(4,5) by (rule vnode_set_eqI)
  have "(map_of (lookup r') h = Some k) \<longleftrightarrow> map_of (nodes r') k \<noteq> None \<and> h \<in> vnode_set r k" for h k
  proof (cases "h \<in> vnode_set r (nd_ID nd)")
    case True
    then show ?thesis using assms(3) [of k] by (auto simp: a(6,7))
  next
    case False
    then have "map_of (lookup r') h = map_of (lookup r) h" by (simp add: a(7))
    then show ?thesis using assms(1) False by (auto simp: ring_full_def a(6))
  qed
  then show ?thesis by (simp add: ring_full_def v)
qed

lemma ring_full_AddNodeD:
  assumes "ring_inv r" and "ring_full r'" and "AddNode nd r = Inr r'"
  shows "ring_full r"
    and "map_of (nodes r) k \<noteq> None \<Longrightarrow> vnode_set r k \<inter> vnode_set r (nd_ID nd) = {}"
proof -
  note a = AddNode_InrD [OF assms(3)]
  have v: "vnode_set r' = vnode_set r" using a(4,5) by (rule vnode_set_eqI)
  have full: "map_of (lookup r') h = Some m" if "map_of (nodes r) m \<noteq> None" "h \<in> vnode_set r m" for h m
    using assms(2) that a(3) unfolding ring_full_def v by (auto simp: a(6))
  show disj: "vnode_set r k \<inter> vnode_set r (nd_ID nd) = {}" if "map_of (nodes r) k \<noteq> None" for k
  proof (rule ccontr)
    assume "vnode_set r k \<inter> vnode_set r (nd_ID nd) \<noteq> {}"
    then obtain h where h: "h \<in> vnode_set r k" "h \<in> vnode_set r (nd_ID nd)" by blast
    from full [OF that h(1)] h(2) have "k = nd_ID nd" by (simp add: a(7))
    with a(3) that show False by simp
  qed
  show "ring_full r"
    unfolding ring_full_def
  proof (intro allI iffI)
    fix h m
    assume "map_of (lookup r) h = Some m"
    with assms(1) show "map_of (nodes r) m \<noteq> None \<and> h \<in> vnode_set r m" unfolding ring_inv_def by blast
  next
    fix h m
    assume m: "map_of (nodes r) m \<noteq> None \<and> h \<in> vnode_set r m"
    then have "h \<notin> vnode_set r (nd_ID nd)" using disj by blast
    with full [of m h] m show "map_of (lookup r) h = Some m" by (simp add: a(7))
  qed
qed

lemma ring_full_disjoint:
  assumes "ring_full r" and "map_of (nodes r) k \<noteq> None" and "map_of (nodes r) m \<noteq> None" and "k \<noteq> m"
  shows "vnode_set r k \<inter> vnode_set r m = {}"
proof (rule ccontr)
  assume "vnode_set r k \<inter> vnode_set r m \<noteq> {}"
  then obtain h where "h \<in> vnode_set r k" and "h \<in> vnode_set r m" by blast
  with assms(1-3) have "map_of (lookup r) h = Some k" and "map_of (lookup r) h = Some m"
    unfolding ring_full_def by blast+
  with assms(4) show False by simp
qed

lemma ring_full_RemoveNode:
  assumes "ring_full r" and "RemoveNode k r = Inr r'"
  shows "ring_full r'"
proof -
  note a = RemoveNode_InrD [OF assms(2)]
  have v: "vnode_set r' = vnode_set r" using a(2,3) by (rule vnode_set_eqI)
  have "(map_of (lookup r') h = Some m) \<longleftrightarrow> map_of (nodes r') m \<noteq> None \<and> h \<in> vnode_set r m" for h m
  proof (cases "h \<in> vnode_set r k")
    case True
    then show ?thesis using ring_full_disjoint [OF assms(1) a(1), of m] by (auto simp: a(4,5))
  next
    case False
    then have "map_of (lookup r') h = map_of (lookup r) h" by (simp add: a(5))
    then show ?thesis using assms(1) False by (auto simp: ring_full_def a(4))
  qed
  then show ?thesis by (simp add: ring_full_def v)
qed

lemma ring_full_NewRing: "ring_full (NewRing cfg)"
  by (simp add: ring_full_def NewRing_def)

text \<open>A full ring is determined by its configuration and its members.\<close>

lemma ring_full_same:
  assumes "ring_inv r" and "ring_inv r'" and "ring_full r" and "ring_full r'"
    and "vnodes r' = vnodes r" and "hashf r' = hashf r" and "map_of (nodes r') = map_of (nodes r)"
  shows "Lookup r' key = Lookup r key"
proof -
  have v: "vnode_set r' = vnode_set r" using assms(5,6) by (rule vnode_set_eqI)
  have lk: "map_of (lookup r') = map_of (lookup r)"
  proof
    fix h
    have "map_of (lookup r') h = Some k \<longleftrightarrow> map_of (lookup r) h = Some k" for k
      using assms(3,4) unfolding ring_full_def v assms(7) by blast
    then show "map_of (lookup r') h = map_of (lookup r) h"
      by (cases "map_of (lookup r) h") (auto simp: not_None_eq [symmetric] simp del: not_None_eq)
  qed
  have "set (hashes r') = set (hashes r)" using assms(1,2) lk unfolding ring_inv_def by simp
  from LookupN_cong(2) [OF assms(1,2) this assms(6) lk assms(7)] show ?thesis .
qed

lemma copyMembers_ok:
  assumes "ring_inv t" and "ring_full t" and "valid_peers ns"
    and "nd_ID ` set ns \<inter> dom (map_of (nodes t)) = {}"
    and "\<And>k m. k \<in> nd_ID ` set ns \<Longrightarrow> m \<in> nd_ID ` set ns \<union> dom (map_of (nodes t)) \<Longrightarrow> k \<noteq> m \<Longrightarrow>
          vnode_set t m \<inter> vnode_set t k = {}"
  shows "\<exists>t'. copyMembers ns t = Inr t' \<and> ring_inv t' \<and> ring_full t' \<and> vnodes t' = vnodes t \<and>
    hashf t' = hashf t \<and>
    map_of (nodes t') = map_of (nodes t) ++ map_of (map (\<lambda>nd. (nd_ID nd, nd)) ns)"
  using assms
proof (induction ns arbitrary: t)
  case (Cons p ns)
  obtain t1 where t1: "AddNode p t = Inr t1"
    using AddNode_succeeds [of p t] Cons.prems(3,4) by (auto simp: valid_peers_Cons)
  note a = AddNode_InrD [OF t1]
  have v: "vnode_set t1 = vnode_set t" using a(4,5) by (rule vnode_set_eqI)
  have inv1: "ring_inv t1" by (rule ring_inv_AddNode [OF Cons.prems(1) t1])
  have full1: "ring_full t1"
  proof (rule ring_full_AddNode [OF Cons.prems(2) t1])
    fix k
    assume k: "map_of (nodes t) k \<noteq> None"
    then have "k \<noteq> nd_ID p" using Cons.prems(4) by auto
    with k show "vnode_set t k \<inter> vnode_set t (nd_ID p) = {}"
      using Cons.prems(5) [of "nd_ID p" k] by auto
  qed
  have ns: "valid_peers ns" "nd_ID p \<notin> nd_ID ` set ns" using Cons.prems(3) by (auto simp: valid_peers_Cons)
  have disj: "nd_ID ` set ns \<inter> dom (map_of (nodes t1)) = {}"
    using Cons.prems(4) ns(2) unfolding AddNode_dom [OF t1] by auto
  have "vnode_set t1 m \<inter> vnode_set t1 k = {}"
    if "k \<in> nd_ID ` set ns" "m \<in> nd_ID ` set ns \<union> dom (map_of (nodes t1))" "k \<noteq> m" for k m
    using that Cons.prems(5) [of k m] unfolding v AddNode_dom [OF t1] by auto
  from Cons.IH [OF inv1 full1 ns(1) disj this] obtain t' where
    t': "copyMembers ns t1 = Inr t'" "ring_inv t'" "ring_full t'" "vnodes t' = vnodes t1"
    "hashf t' = hashf t1"
    "map_of (nodes t') = map_of (nodes t1) ++ map_of (map (\<lambda>nd. (nd_ID nd, nd)) ns)" by blast
  have "map_of (map (\<lambda>nd. (nd_ID nd, nd)) ns) (nd_ID p) = None"
    using ns(2) by (simp add: map_of_map_key_None)
  then have "map_of (nodes t') = map_of (nodes t) ++ map_of (map (\<lambda>nd. (nd_ID nd, nd)) (p # ns))"
    unfolding t'(6) a(6) by (auto simp: fun_eq_iff map_add_def split: option.splits)
  moreover have "copyMembers (p # ns) t = Inr t'" by (simp add: t1 t'(1))
  ultimately show ?case using t'(2-5) a(4,5) by (intro exI [of _ t']) (simp only: simp_thms)
qed simp

lemma copy_ring:
  assumes "ring_inv r" and "ring_full r"
  shows "\<exists>t. copyMembers (ring_Members r) (NewRing (ring_cfg r)) = Inr t \<and> ring_inv t \<and> ring_full t \<and>
    vnodes t = vnodes r \<and> hashf t = hashf r \<and> map_of (nodes t) = map_of (nodes r)"
proof -
  let ?t = "NewRing (ring_cfg r)" and ?ns = "ring_Members r"
  have t: "vnodes ?t = vnodes r" "hashf ?t = hashf r" "nodes ?t = []"
    using assms(1) by (auto simp: NewRing_def ring_cfg_def ring_inv_def)
  have v: "vnode_set ?t = vnode_set r" using t(1,2) by (rule vnode_set_eqI)
  have mem: "map_of (nodes r) (nd_ID nd) = Some nd" if "nd \<in> set ?ns" for nd
    using that by (simp add: members_map_of [OF assms(1)])
  have valid: "valid_peers ?ns"
    unfolding valid_peers_def
  proof (intro conjI ballI)
    fix nd
    assume "nd \<in> set ?ns"
    with assms(1) show "nd_ID nd \<noteq> []" and "nd_Addr nd \<noteq> []"
      unfolding ring_inv_def by (blast dest: mem)+
  qed (rule ring_Members_distinct [OF assms(1)])
  have dist: "distinct (map nd_ID ?ns)" by (rule ring_Members_distinct [OF assms(1)])
  have "vnode_set ?t m \<inter> vnode_set ?t k = {}"
    if "k \<in> nd_ID ` set ?ns" "m \<in> nd_ID ` set ?ns \<union> dom (map_of (nodes ?t))" "k \<noteq> m" for k m
    using that ring_full_disjoint [OF assms(2), of m k] mem unfolding v t(3) by auto
  moreover have "nd_ID ` set ?ns \<inter> dom (map_of (nodes ?t)) = {}" by (simp add: t(3))
  ultimately obtain t' where t': "copyMembers ?ns ?t = Inr t'" "ring_inv t'" "ring_full t'"
    "vnodes t' = vnodes ?t" "hashf t' = hashf ?t"
    "map_of (nodes t') = map_of (nodes ?t) ++ map_of (map (\<lambda>nd. (nd_ID nd, nd)) ?ns)"
    using copyMembers_ok [OF ring_inv_NewRing ring_full_NewRing valid] by blast
  have "map_of (map (\<lambda>nd. (nd_ID nd, nd)) ?ns) = map_of (nodes r)"
  proof
    fix k
    show "map_of (map (\<lambda>nd. (nd_ID nd, nd)) ?ns) k = map_of (nodes r) k"
    proof (cases "map_of (nodes r) k")
      case None
      then have "k \<notin> nd_ID ` set ?ns" using mem by auto
      with None show ?thesis by (simp add: map_of_map_key_None)
    next
      case (Some nd)
      with assms(1) have "nd_ID nd = k" by (simp add: ring_inv_def)
      with Some have "nd \<in> set ?ns" by (simp add: members_map_of [OF assms(1)])
      from map_of_map_key_mem [OF dist this] Some \<open>nd_ID nd = k\<close> show ?thesis by simp
    qed
  qed
  with t' t show ?thesis by (intro exI [of _ t']) simp
qed

lemma countChange_eq: "countChange r t i x = (if owner_changes r t i then x + 1 else x)"
  by (auto simp: countChange_def owner_changes_def split: option.splits)

lemma fold_countChange: "fold (countChange r t) [0..<n] c = c + card {i. i < n \<and> owner_changes r t i}"
proof (induction n)
  case (Suc n)
  have "{i. i < Suc n \<and> owner_changes r t i} =
      (if owner_changes r t n then insert n {i. i < n \<and> owner_changes r t i}
       else {i. i < n \<and> owner_changes r t i})"
    by (auto simp: less_Suc_eq)
  then show ?case using Suc by (simp add: countChange_eq)
qed simp

lemma estimateMovement_eq:
  assumes "ring_inv (cl_ring c)" and "ring_full (cl_ring c)" and "nodes (cl_ring c) \<noteq> []"
  shows "\<exists>t. ring_inv t \<and> ring_full t \<and> vnodes t = vnodes (cl_ring c) \<and> hashf t = hashf (cl_ring c) \<and>
    map_of (nodes t) = map_of (nodes (cl_ring c)) \<and>
    estimateMovement app c = (case app t of Inl err \<Rightarrow> Inl err
      | Inr t' \<Rightarrow> Inr (of_nat (card (moved (cl_ring c) t')) / of_nat samples))"
proof -
  obtain t where t: "copyMembers (ring_Members (cl_ring c)) (NewRing (ring_cfg (cl_ring c))) = Inr t"
    "ring_inv t" "ring_full t" "vnodes t = vnodes (cl_ring c)" "hashf t = hashf (cl_ring c)"
    "map_of (nodes t) = map_of (nodes (cl_ring c))"
    using copy_ring [OF assms(1,2)] by blast
  have "estimateMovement app c = (case app t of Inl err \<Rightarrow> Inl err
      | Inr t' \<Rightarrow> Inr (of_nat (card (moved (cl_ring c) t')) / of_nat samples))"
    using assms(3) t(1)
    by (cases "app t") (simp_all add: estimateMovement_def ring_Len_def fold_countChange moved_def)
  with t(2-6) show ?thesis by blast
qed

lemma moved_cong: "(\<And>key. Lookup t key = Lookup t' key) \<Longrightarrow> moved r t = moved r t'"
  by (simp add: moved_def owner_changes_def)

lemma moved_finite: "finite (moved r t)" and card_moved: "card (moved r t) \<le> samples"
proof -
  have sub: "moved r t \<subseteq> {..<samples}" by (auto simp: moved_def)
  show "finite (moved r t)" by (rule finite_subset [OF sub]) simp
  from card_mono [OF _ sub] show "card (moved r t) \<le> samples" by simp
qed

subsection \<open>The peer list\<close>

lemma parsePeer_loop_valid:
  assumes "parsePeer_loop parts peers seen = Inr result"
    and "valid_peers peers" and "set seen = nd_ID ` set peers"
  shows "valid_peers result"
  using assms
proof (induction parts peers seen rule: parsePeer_loop.induct)
  case (2 part0 parts peers seen)
  obtain id0 addr0 ok where cut: "Cut (TrimSpace part0) (CHR ''='') = (id0, addr0, ok)"
    by (cases "Cut (TrimSpace part0) (CHR ''='')")
  show ?case
  proof (cases "TrimSpace part0 = []")
    case True
    with 2 show ?thesis by simp
  next
    case False
    let ?p = "\<lparr>nd_ID = TrimSpace id0, nd_Addr = TrimSpace addr0\<rparr>"
    from "2.prems"(1) False cut have ok: "ok" "TrimSpace id0 \<noteq> []" "TrimSpace addr0 \<noteq> []"
        "TrimSpace id0 \<notin> set seen"
        "parsePeer_loop parts (peers @ [?p]) (TrimSpace id0 # seen) = Inr result"
      by (auto simp: Let_def split: if_splits)
    moreover have "valid_peers (peers @ [?p])" using "2.prems"(2,3) ok by (auto simp: valid_peers_def)
    moreover have "set (TrimSpace id0 # seen) = nd_ID ` set (peers @ [?p])" using "2.prems"(3) by auto
    ultimately show ?thesis
      using "2.IH"(2) [OF refl False cut [symmetric] refl refl _ refl refl] by auto
  qed
qed simp

lemma ParsePeers_valid: "ParsePeers raw = Inr peers \<Longrightarrow> valid_peers peers"
  by (auto simp: ParsePeers_def Let_def valid_peers_def split: if_splits
      dest!: parsePeer_loop_valid [unfolded valid_peers_def])

definition peer_ok :: "Node \<Rightarrow> bool" where
  "peer_ok p \<longleftrightarrow>
     nd_ID p \<noteq> [] \<and> hd (nd_ID p) \<notin> spacelike \<and> last (nd_ID p) \<notin> spacelike \<and>
     nd_Addr p \<noteq> [] \<and> hd (nd_Addr p) \<notin> spacelike \<and> last (nd_Addr p) \<notin> spacelike \<and>
     CHR '','' \<notin> set (nd_ID p) \<and> CHR ''='' \<notin> set (nd_ID p) \<and> CHR '','' \<notin> set (nd_Addr p)"

lemma Split_free: "c \<notin> set a \<Longrightarrow> Split a c = [a]"
  by (induction a) auto

lemma Split_first: "c \<notin> set a \<Longrightarrow> Split (a @ c # s) c = a # Split s c"
  by (induction a) auto

lemma Split_join_peers:
  assumes "\<forall>p\<in>set ps. peer_ok p" and "ps \<noteq> []"
  shows "Split (join_peers ps) (CHR '','') = map (\<lambda>p. nd_ID p @ ''='' @ nd_Addr p) ps"
  using assms
proof (induction ps rule: join_peers.induct)
  case (2 p)
  then show ?case by (simp add: Split_free peer_ok_def)
next
  case (3 p q ps)
  then have "CHR '','' \<notin> set (nd_ID p @ ''='' @ nd_Addr p)" by (simp add: peer_ok_def)
  from Split_first [OF this, of "join_peers (q # ps)"] 3 show ?case by simp
qed simp

lemma TrimSpace_peer: "peer_ok p \<Longrightarrow> TrimSpace (nd_ID p @ CHR ''='' # nd_Addr p) = nd_ID p @ CHR ''='' # nd_Addr p"
  by (rule TrimSpace_free) (simp add: peer_ok_def)

lemma node_eta [simp]: "\<lparr>nd_ID = nd_ID p, nd_Addr = nd_Addr p\<rparr> = p"
  by (cases p) simp

lemma parsePeer_loop_ok:
  assumes "\<forall>p\<in>set ps. peer_ok p" and "distinct (map nd_ID ps)" and "nd_ID ` set ps \<inter> set seen = {}"
  shows "parsePeer_loop (map (\<lambda>p. nd_ID p @ ''='' @ nd_Addr p) ps) peers seen = Inr (peers @ ps)"
  using assms
proof (induction ps arbitrary: peers seen)
  case (Cons p ps)
  then have p: "peer_ok p" by simp
  have t: "TrimSpace (nd_ID p) = nd_ID p" "TrimSpace (nd_Addr p) = nd_Addr p"
    using p by (auto simp: peer_ok_def intro!: TrimSpace_free)
  have c: "Cut (nd_ID p @ CHR ''='' # nd_Addr p) (CHR ''='') = (nd_ID p, nd_Addr p, True)"
    using p by (simp add: Cut_found peer_ok_def)
  have "parsePeer_loop (map (\<lambda>p. nd_ID p @ ''='' @ nd_Addr p) ps) (peers @ [p]) (nd_ID p # seen) =
      Inr ((peers @ [p]) @ ps)"
    using Cons.prems by (intro Cons.IH) auto
  then show ?case using Cons.prems(3) p by (simp add: TrimSpace_peer c t peer_ok_def Let_def)
qed simp

lemma join_peers_ends:
  assumes "\<forall>p\<in>set ps. peer_ok p" and "ps \<noteq> []"
  shows "join_peers ps \<noteq> [] \<and> hd (join_peers ps) = hd (nd_ID (hd ps)) \<and>
    last (join_peers ps) = last (nd_Addr (last ps))"
  using assms by (induction ps rule: join_peers.induct) (auto simp: peer_ok_def)

lemma demo_full: "ring_full demo_ring"
proof -
  let ?r0 = "NewRing \<lparr>VirtualNodes = 2, Hash = None\<rparr>"
  obtain r1 where r1: "AddNode demo_n1 ?r0 = Inr r1"
    using AddNode_succeeds [of demo_n1 ?r0] by (auto simp: NewRing_def demo_n1_def)
  note a = AddNode_InrD [OF r1]
  obtain r2 where r2: "AddNode demo_n2 r1 = Inr r2"
    using AddNode_succeeds [of demo_n2 r1] by (auto simp: a(6) NewRing_def demo_n1_def demo_n2_def)
  note b = AddNode_InrD [OF r2]
  have demo: "demo_ring = r2" by (simp add: demo_ring_def r1 r2)
  have v: "vnode_set r1 = vnode_set demo_ring" unfolding demo using b(4,5) by (intro vnode_set_eqI) simp_all
  have "ring_full r1" by (rule ring_full_AddNode [OF ring_full_NewRing r1]) (simp add: NewRing_def)
  then show ?thesis
    unfolding demo
  proof (rule ring_full_AddNode [OF _ r2])
    fix k
    assume "map_of (nodes r1) k \<noteq> None"
    then have "k = ''n1''" by (auto simp: a(6) NewRing_def demo_n1_def split: if_splits)
    then show "vnode_set r1 k \<inter> vnode_set r1 (nd_ID demo_n2) = {}"
      using demo_no_collision(1) by (simp add: v demo_n2_def)
  qed
qed

lemma demo_no_collision3:
  "vnode_set demo_ring ''n1'' \<inter> vnode_set demo_ring ''n3'' = {}"
  "vnode_set demo_ring ''n2'' \<inter> vnode_set demo_ring ''n3'' = {}"
  by code_simp+

lemma demo_join_full: "AddNode demo_n3 demo_ring = Inr r' \<Longrightarrow> ring_full r'"
  by (erule ring_full_AddNode [OF demo_full])
    (use demo_no_collision3 in \<open>auto simp: demo_ring_nodes demo_n3_def split: if_splits\<close>)

section \<open>Properties\<close>

text \<open>
  C27: Printing a list of peers in the form \<open>id=addr,id=addr\<close> and parsing it with \<open>ParsePeers\<close> gives
  the list back, for identifiers and addresses that contain no separator and neither start nor end
  with white space, with distinct identifiers.
\<close>

theorem ParsePeers_roundtrip:
  assumes "\<forall>p\<in>set ps. peer_ok p" and "distinct (map nd_ID ps)"
  shows "ParsePeers (join_peers ps) = Inr ps"
proof (cases "ps = []")
  case False
  have "hd ps \<in> set ps" "last ps \<in> set ps" using False by simp_all
  then have "TrimSpace (join_peers ps) = join_peers ps"
    using join_peers_ends [OF assms(1) False] assms(1) by (intro TrimSpace_free) (simp add: peer_ok_def)
  with join_peers_ends [OF assms(1) False] parsePeer_loop_ok [OF assms, of "[]" "[]"]
  show ?thesis by (simp add: ParsePeers_def Split_join_peers [OF assms(1) False])
qed (simp add: ParsePeers_def)

theorem ParsePeers_roundtrip_witness:
  "ParsePeers (join_peers [demo_n1, demo_n2]) = Inr [demo_n1, demo_n2]"
  by (rule ParsePeers_roundtrip) (simp_all add: peer_ok_def demo_n1_def demo_n2_def spacelike_def spaces_def)

text \<open>
  C28: A peer list that \<open>ParsePeers\<close> accepts makes a cluster exactly when it does not name the local
  node: \<open>NewCluster\<close> then succeeds, the cluster is well formed and its members are the local node
  and the peers; otherwise it reports the local identifier in the peer list.
\<close>

theorem peers_make_cluster:
  assumes "ParsePeers raw = Inr peers" and "nd_ID self \<noteq> []" and "nd_Addr self \<noteq> []"
  shows "if nd_ID self \<in> nd_ID ` set peers
    then NewCluster self peers cfg = Inl (PeerIsSelf (nd_ID self))
    else \<exists>c. NewCluster self peers cfg = Inr c \<and> cluster_inv c \<and> SelfID c = nd_ID self \<and>
      set (cluster_Members c) = insert self (set peers) \<and> distinct (map nd_ID (cluster_Members c))"
proof -
  obtain r where r: "AddNode self (NewRing cfg) = Inr r" "ring_inv r"
    "map_of (nodes r) = [nd_ID self \<mapsto> self]" by (rule NewCluster_self [OF assms(2,3)])
  have valid: "valid_peers peers" by (rule ParsePeers_valid [OF assms(1)])
  show ?thesis
  proof (cases "nd_ID self \<in> nd_ID ` set peers")
    case True
    have "addPeers self peers r = Inl (PeerIsSelf (nd_ID self))"
      by (rule addPeers_self [OF r(2) _ valid True]) (simp_all add: r(3))
    with True show ?thesis by (simp add: NewCluster_def assms(2,3) r(1))
  next
    case False
    have "nd_ID self \<in> dom (map_of (nodes r))" "nd_ID ` set peers \<inter> dom (map_of (nodes r)) = {}"
      using False by (simp_all add: r(3))
    from addPeers_ok [OF r(2) this(1) valid this(2)]
    obtain r' where r': "addPeers self peers r = Inr r'" "ring_inv r'"
      "\<forall>nd. map_of (nodes r') (nd_ID nd) = Some nd \<longleftrightarrow>
        map_of (nodes r) (nd_ID nd) = Some nd \<or> nd \<in> set peers" by blast
    have "nd \<in> set (ring_Members r') \<longleftrightarrow> nd \<in> insert self (set peers)" for nd
      using r'(3) by (auto simp: members_map_of [OF r'(2)] r(3))
    then have "set (ring_Members r') = insert self (set peers)" by blast
    moreover have "NewCluster self peers cfg = Inr \<lparr>cl_ring = r', selfID = nd_ID self\<rparr>"
      by (simp add: NewCluster_def assms(2,3) r(1) r'(1))
    ultimately show ?thesis using False r'(2) ring_Members_distinct [OF r'(2)]
      by (simp add: cluster_inv_def SelfID_def cluster_Members_def)
  qed
qed

theorem peers_make_cluster_witness:
  "ParsePeers ''n2=h2:1'' = Inr [demo_n2] \<and>
   (\<exists>c. NewCluster demo_n1 [demo_n2] DefaultRingConfig = Inr c \<and> cluster_inv c \<and> SelfID c = nd_ID demo_n1 \<and>
      set (cluster_Members c) = insert demo_n1 (set [demo_n2]) \<and> distinct (map nd_ID (cluster_Members c)))"
proof -
  have p: "ParsePeers ''n2=h2:1'' = Inr [demo_n2]" by code_simp
  from peers_make_cluster [OF p, of demo_n1 DefaultRingConfig] p show ?thesis
    by (simp add: demo_n1_def demo_n2_def)
qed

text \<open>
  C29: When the ring after a join is free of hash collisions, \<open>EstimateKeyMovementAfterJoin\<close> reports
  exactly the fraction of the sampled keys whose owner differs between the cluster before and after
  the \<open>Join\<close>, each of these keys is then owned by the new node, and the cluster itself is not changed.
\<close>

theorem estimate_join_exact:
  assumes "cluster_inv c" and "nodes (cl_ring c) \<noteq> []" and "Join node c = Inr c'" and "ring_full (cl_ring c')"
  shows "EstimateKeyMovementAfterJoin node c =
      Inr (of_nat (card (moved (cl_ring c) (cl_ring c'))) / of_nat samples) \<and>
    (\<forall>i\<in>moved (cl_ring c) (cl_ring c'). Owner c' (sample_key i) = Some node)"
proof -
  let ?r = "cl_ring c" and ?r' = "cl_ring c'"
  have inv: "ring_inv ?r" using assms(1) by (simp add: cluster_inv_def)
  have add: "AddNode node ?r = Inr ?r'" using Join_InrD [OF assms(3)] by auto
  note a = AddNode_InrD [OF add]
  have inv': "ring_inv ?r'" by (rule ring_inv_AddNode [OF inv add])
  note full = ring_full_AddNodeD [OF inv assms(4) add]
  obtain t where t: "ring_inv t" "ring_full t" "vnodes t = vnodes ?r" "hashf t = hashf ?r"
    "map_of (nodes t) = map_of (nodes ?r)"
    "estimateMovement (AddNode node) c = (case AddNode node t of Inl err \<Rightarrow> Inl err
      | Inr t' \<Rightarrow> Inr (of_nat (card (moved ?r t')) / of_nat samples))"
    using estimateMovement_eq [OF inv full(1) assms(2), where app = "AddNode node"] by blast
  obtain t' where t': "AddNode node t = Inr t'"
    using AddNode_succeeds [of node t] a(1-3) t(5) by auto
  note b = AddNode_InrD [OF t']
  have v: "vnode_set t = vnode_set ?r" using t(3,4) by (rule vnode_set_eqI)
  have "ring_full t'" using full(2) by (intro ring_full_AddNode [OF t(2) t']) (simp add: t(5) v)
  moreover have "map_of (nodes t') = map_of (nodes ?r')" by (simp add: a(6) b(6) t(5))
  ultimately have "Lookup t' key = Lookup ?r' key" for key
    using ring_full_same [OF inv' ring_inv_AddNode [OF t(1) t'] assms(4), of key] a(4,5) b(4,5) t(3,4) by simp
  then have "moved ?r t' = moved ?r ?r'" by (rule moved_cong)
  moreover have "Owner c' (sample_key i) = Some node" if "i \<in> moved ?r ?r'" for i
    using that AddNode_owner [OF inv add, of "sample_key i"]
    by (auto simp: moved_def owner_changes_def Owner_def)
  ultimately show ?thesis by (simp add: EstimateKeyMovementAfterJoin_def t(6) t')
qed

theorem estimate_join_exact_witness:
  "\<exists>c'. Join demo_n3 \<lparr>cl_ring = demo_ring, selfID = ''n1''\<rparr> = Inr c' \<and>
    EstimateKeyMovementAfterJoin demo_n3 \<lparr>cl_ring = demo_ring, selfID = ''n1''\<rparr> =
      Inr (of_nat (card (moved demo_ring (cl_ring c'))) / of_nat samples) \<and>
    (\<forall>i\<in>moved demo_ring (cl_ring c'). Owner c' (sample_key i) = Some demo_n3)"
proof -
  let ?c = "\<lparr>cl_ring = demo_ring, selfID = ''n1''\<rparr>"
  obtain r' where r': "AddNode demo_n3 demo_ring = Inr r'" using demo_join by blast
  then have j: "Join demo_n3 ?c = Inr (?c\<lparr>cl_ring := r'\<rparr>)" by (simp add: Join_def)
  from estimate_join_exact [OF _ _ j] demo_join_full [OF r'] j show ?thesis
    by (simp add: cluster_inv_def demo_ring_inv demo_ring_nodes)
qed

end
