(* ===== verification/Raft_Node.thy ===== *)
theory Raft_Node
  imports Prelude "HOL-Library.Monad_Syntax"
begin

text \<open>
  One Raft node: \<open>internal/raft/node.go\<close>, \<open>command.go\<close>, \<open>config.go\<close> and \<open>rpc.go\<close>. Each stretch of
  code that runs under the node's mutex is one function from the state to the state and the list of
  its effects: the RPCs it starts, the entries it hands to the state machine and the proposals it
  answers. Reading the clock and the random source is the argument \<open>env\<close>. Indices and terms are
  natural numbers; the one place where a term can leave the \<open>uint64\<close> range, the increment that
  starts an election, wraps around explicitly. An index out of range is a panic, the value \<open>None\<close>.

  The callback \<open>apply\<close> is a parameter: it updates the state \<open>'s\<close> of its owner and may call
  \<open>AddPeer\<close> and \<open>RemovePeer\<close> of the node, which is what the callback of \<open>cmd/node/main.go\<close> does.
  The code releases the mutex while the callback runs; here the loop over the committed entries is
  one step.
\<close>

section \<open>Definitions\<close>

subsection \<open>Commands, entries and messages\<close>

type_synonym CommandType = string

definition CommandNoop :: CommandType where "CommandNoop = ''noop''"
definition CommandAddMember :: CommandType where "CommandAddMember = ''add_member''"
definition CommandRemoveMember :: CommandType where "CommandRemoveMember = ''remove_member''"

record Command =
  c_Type :: CommandType
  c_NodeID :: string
  c_Addr :: string
  c_Key :: string
  c_Value :: "bytes option"
  c_TTL :: duration

definition empty_Command :: "CommandType \<Rightarrow> Command" where
  "empty_Command t = \<lparr>c_Type = t, c_NodeID = [], c_Addr = [], c_Key = [], c_Value = None, c_TTL = 0\<rparr>"

record Entry =
  e_Term :: nat
  e_Index :: nat
  e_Command :: Command

datatype Role = RoleFollower | RoleCandidate | RoleLeader

record RequestVoteRequest =
  rv_Term :: nat
  rv_CandidateID :: string
  rv_LastLogIndex :: nat
  rv_LastLogTerm :: nat

record RequestVoteResponse =
  rvr_Term :: nat
  rvr_VoteGranted :: bool

record AppendEntriesRequest =
  ae_Term :: nat
  ae_LeaderID :: string
  ae_PrevLogIndex :: nat
  ae_PrevLogTerm :: nat
  ae_Entries :: "Entry list"
  ae_LeaderCommit :: nat

record AppendEntriesResponse =
  aer_Term :: nat
  aer_Success :: bool

record Status =
  st_ID :: string
  st_Role :: Role
  st_Term :: nat
  st_LeaderID :: string
  st_CommitIndex :: nat
  st_LastApplied :: nat
  st_LogLength :: nat

subsection \<open>Configuration\<close>

record raft_config =
  ElectionTimeoutMin :: duration
  ElectionTimeoutMax :: duration
  HeartbeatInterval :: duration
  RPCTimeout :: duration

definition DefaultRaftConfig :: raft_config where
  "DefaultRaftConfig = \<lparr>ElectionTimeoutMin = 150 * millisecond, ElectionTimeoutMax = 300 * millisecond,
     HeartbeatInterval = 50 * millisecond, RPCTimeout = 500 * millisecond\<rparr>"

definition raft_normalize :: "raft_config \<Rightarrow> raft_config" where
  "raft_normalize c0 =
     (let c1 = (if ElectionTimeoutMin c0 \<le> 0
                then c0\<lparr>ElectionTimeoutMin := ElectionTimeoutMin DefaultRaftConfig\<rparr> else c0);
          c2 = (if ElectionTimeoutMax c1 \<le> ElectionTimeoutMin c1
                then c1\<lparr>ElectionTimeoutMax := wrap64 (ElectionTimeoutMin c1 + 150 * millisecond)\<rparr> else c1);
          c3 = (if HeartbeatInterval c2 \<le> 0
                then c2\<lparr>HeartbeatInterval := HeartbeatInterval DefaultRaftConfig\<rparr> else c2)
      in (if RPCTimeout c3 \<le> 0 then c3\<lparr>RPCTimeout := RPCTimeout DefaultRaftConfig\<rparr> else c3))"

subsection \<open>The node\<close>

text \<open>The channel of a waiting \<open>Propose\<close> call is a number.\<close>

record proposal =
  pr_command :: Command
  pr_notify :: nat

record RaftNode =
  r_id :: string
  r_addr :: string
  r_peers :: "(string, string) gomap"
  r_role :: Role
  r_currentTerm :: nat
  r_votedFor :: string
  r_log :: "Entry list"
  r_commitIndex :: nat
  r_lastApplied :: nat
  r_leaderID :: string
  r_nextIndex :: "(string, nat) gomap"
  r_matchIndex :: "(string, nat) gomap"
  r_electionDeadline :: time
  r_heartbeatDeadline :: time
  r_cfg :: raft_config
  r_proposals :: "(nat, proposal) gomap"

text \<open>The clock and the value that \<open>rng.Int63n\<close> draws, reduced to its range where it is used.\<close>

record env =
  en_now :: time
  en_rand :: int

datatype effect =
    SendRequestVote string string RequestVoteRequest
  | SendAppendEntries string string AppendEntriesRequest
  | ApplyEntry Entry
  | Notify nat

datatype peer_op = AddPeerOp string string | RemovePeerOp string

type_synonym 's apply_fun = "Entry \<Rightarrow> 's \<Rightarrow> 's \<times> peer_op list"

datatype raft_error = ErrNotLeader | ErrProposalDropped

definition resetElectionDeadline :: "env \<Rightarrow> RaftNode \<Rightarrow> RaftNode" where
  "resetElectionDeadline e n =
     (let jitter0 = wrap64 (ElectionTimeoutMax (r_cfg n) - ElectionTimeoutMin (r_cfg n));
          jitter = (if jitter0 \<le> 0 then millisecond else jitter0)
      in n\<lparr>r_electionDeadline := en_now e + ElectionTimeoutMin (r_cfg n) + en_rand e mod jitter\<rparr>)"

definition resetHeartbeatDeadline :: "env \<Rightarrow> RaftNode \<Rightarrow> RaftNode" where
  "resetHeartbeatDeadline e n = n\<lparr>r_heartbeatDeadline := en_now e + HeartbeatInterval (r_cfg n)\<rparr>"

definition NewNode :: "env \<Rightarrow> string \<Rightarrow> string \<Rightarrow> (string, string) gomap \<Rightarrow> raft_config \<Rightarrow> RaftNode" where
  "NewNode e i addr peers cfg = resetElectionDeadline e
     \<lparr>r_id = i, r_addr = addr, r_peers = peers, r_role = RoleFollower, r_currentTerm = 0, r_votedFor = [],
      r_log = [\<lparr>e_Term = 0, e_Index = 0, e_Command = empty_Command CommandNoop\<rparr>],
      r_commitIndex = 0, r_lastApplied = 0, r_leaderID = [], r_nextIndex = [], r_matchIndex = [],
      r_electionDeadline = 0, r_heartbeatDeadline = 0, r_cfg = raft_normalize cfg, r_proposals = []\<rparr>"

definition peerAddrs :: "RaftNode \<Rightarrow> (string, string) gomap" where
  "peerAddrs n = filter (\<lambda>(k, addr). k \<noteq> r_id n) (r_peers n)"

definition nth_entry :: "Entry list \<Rightarrow> nat \<Rightarrow> Entry option" where
  "nth_entry l i = (if i < length l then Some (l ! i) else None)"

definition lastLogIndexTerm :: "RaftNode \<Rightarrow> (nat \<times> nat) option" where
  "lastLogIndexTerm n =
     (if r_log n = [] then None
      else Some (length (r_log n) - 1, e_Term (r_log n ! (length (r_log n) - 1))))"

definition majority :: "RaftNode \<Rightarrow> nat" where
  "majority n = length (r_peers n) div 2 + 1"

definition becomeFollower :: "env \<Rightarrow> nat \<Rightarrow> string \<Rightarrow> RaftNode \<Rightarrow> RaftNode" where
  "becomeFollower e trm leader n = resetElectionDeadline e
     (n\<lparr>r_role := RoleFollower, r_currentTerm := trm, r_votedFor := [], r_leaderID := leader\<rparr>)"

definition replicateTo :: "string \<times> string \<Rightarrow> RaftNode \<Rightarrow> (RaftNode \<times> effect) option" where
  "replicateTo p n =
     (let (peerID, addr) = p;
          len = length (r_log n);
          (next1, n1) = (case map_of (r_nextIndex n) peerID of
             None \<Rightarrow> (len, n\<lparr>r_nextIndex := AList.update peerID len (r_nextIndex n)\<rparr>)
           | Some next0 \<Rightarrow> if next0 = 0 then (len, n\<lparr>r_nextIndex := AList.update peerID len (r_nextIndex n)\<rparr>)
                         else (next0, n));
          (next, n2) = (if len < next1 then (len, n1\<lparr>r_nextIndex := AList.update peerID len (r_nextIndex n1)\<rparr>)
                        else (next1, n1))
      in if next = 0 then None
         else do {
           prev \<leftarrow> nth_entry (r_log n2) (next - 1);
           Some (n2, SendAppendEntries peerID addr
             \<lparr>ae_Term = r_currentTerm n2, ae_LeaderID = r_id n2, ae_PrevLogIndex = next - 1,
              ae_PrevLogTerm = e_Term prev, ae_Entries = drop next (r_log n2),
              ae_LeaderCommit = r_commitIndex n2\<rparr>)
         })"

fun replicateAll :: "(string \<times> string) list \<Rightarrow> RaftNode \<Rightarrow> (RaftNode \<times> effect list) option" where
  "replicateAll [] n = Some (n, [])"
| "replicateAll (p # ps) n = do {
     (n1, m) \<leftarrow> replicateTo p n;
     (n2, ms) \<leftarrow> replicateAll ps n1;
     Some (n2, m # ms)
   }"

definition replicate_log :: "RaftNode \<Rightarrow> (RaftNode \<times> effect list) option" where
  "replicate_log n = (if r_role n \<noteq> RoleLeader then Some (n, []) else replicateAll (peerAddrs n) n)"

definition becomeLeader :: "env \<Rightarrow> RaftNode \<Rightarrow> (RaftNode \<times> effect list) option" where
  "becomeLeader e n =
     (let ids = filter (\<lambda>k. k \<noteq> r_id n) (map fst (r_peers n))
      in replicate_log (resetHeartbeatDeadline e
           (n\<lparr>r_role := RoleLeader, r_leaderID := r_id n,
              r_nextIndex := map (\<lambda>k. (k, length (r_log n))) ids,
              r_matchIndex := map (\<lambda>k. (k, 0)) ids\<rparr>)))"

subsection \<open>Elections\<close>

definition wrapu64 :: "nat \<Rightarrow> nat" where
  "wrapu64 x = x mod 2 ^ 64"

text \<open>
  The part of \<open>startElectionLocked\<close> under the mutex: the new term, the vote for oneself and the
  requests to the peers. The goroutines that it starts share the election record: the votes counted
  so far and the \<open>sync.Once\<close> that guards the transition to leader.
\<close>

record election =
  el_term :: nat
  el_majority :: nat
  el_votes :: nat
  el_once :: bool

definition startElection :: "env \<Rightarrow> RaftNode \<Rightarrow> (RaftNode \<times> election \<times> effect list) option" where
  "startElection e n =
     (let n1 = resetElectionDeadline e
            (n\<lparr>r_role := RoleCandidate, r_currentTerm := wrapu64 (r_currentTerm n + 1), r_votedFor := r_id n,
               r_leaderID := []\<rparr>)
      in do {
        (lastIndex, lastTerm) \<leftarrow> lastLogIndexTerm n1;
        Some (n1, \<lparr>el_term = r_currentTerm n1, el_majority = majority n1, el_votes = 1, el_once = False\<rparr>,
          map (\<lambda>(peerID, addr). SendRequestVote peerID addr
            \<lparr>rv_Term = r_currentTerm n1, rv_CandidateID = r_id n1, rv_LastLogIndex = lastIndex,
             rv_LastLogTerm = lastTerm\<rparr>) (peerAddrs n1))
      })"

text \<open>The guarded transition, run once all needed votes are in, or at once without peers.\<close>

definition electionWon :: "env \<Rightarrow> nat \<Rightarrow> RaftNode \<Rightarrow> (RaftNode \<times> effect list) option" where
  "electionWon e trm n =
     (if r_role n = RoleCandidate \<and> r_currentTerm n = trm then becomeLeader e n else Some (n, []))"

text \<open>
  The goroutine of one vote request once its RPC has returned: \<open>None\<close> is an RPC error, whose
  response is the zero value. The first part runs under the mutex and says whether to go on, the
  second counts the vote and says whether the election is won by it.
\<close>

definition voteReply :: "env \<Rightarrow> RequestVoteResponse option \<Rightarrow> RaftNode \<Rightarrow> RaftNode \<times> bool" where
  "voteReply e reply n =
     (let resp = (case reply of None \<Rightarrow> \<lparr>rvr_Term = 0, rvr_VoteGranted = False\<rparr> | Some resp \<Rightarrow> resp)
      in if r_currentTerm n < rvr_Term resp then (becomeFollower e (rvr_Term resp) [] n, False)
         else (n, reply \<noteq> None \<and> rvr_VoteGranted resp))"

definition countVote :: "election \<Rightarrow> election \<times> bool" where
  "countVote el =
     (let votes = el_votes el + 1
      in if el_majority el \<le> votes \<and> \<not> el_once el
         then (el\<lparr>el_votes := votes, el_once := True\<rparr>, True)
         else (el\<lparr>el_votes := votes\<rparr>, False))"

definition HandleRequestVote ::
  "env \<Rightarrow> RequestVoteRequest \<Rightarrow> RaftNode \<Rightarrow> (RaftNode \<times> RequestVoteResponse) option" where
  "HandleRequestVote e req n =
     (if rv_Term req < r_currentTerm n
      then Some (n, \<lparr>rvr_Term = r_currentTerm n, rvr_VoteGranted = False\<rparr>)
      else let n1 = (if r_currentTerm n < rv_Term req then becomeFollower e (rv_Term req) [] n else n)
           in do {
             (lastIndex, lastTerm) \<leftarrow> lastLogIndexTerm n1;
             let upToDate = (lastTerm < rv_LastLogTerm req \<or>
                             rv_LastLogTerm req = lastTerm \<and> lastIndex \<le> rv_LastLogIndex req);
             let canVote = ((r_votedFor n1 = [] \<or> r_votedFor n1 = rv_CandidateID req) \<and> upToDate);
             let n2 = (if canVote then resetElectionDeadline e (n1\<lparr>r_votedFor := rv_CandidateID req\<rparr>) else n1);
             Some (n2, \<lparr>rvr_Term = r_currentTerm n2, rvr_VoteGranted = canVote\<rparr>)
           })"

subsection \<open>Membership of the node\<close>

definition AddPeer :: "string \<Rightarrow> string \<Rightarrow> RaftNode \<Rightarrow> (RaftNode \<times> effect list) option" where
  "AddPeer i addr n =
     (let n1 = n\<lparr>r_peers := AList.update i addr (r_peers n)\<rparr>
      in if r_role n1 = RoleLeader
         then replicate_log (n1\<lparr>r_nextIndex := AList.update i (length (r_log n1)) (r_nextIndex n1),
                              r_matchIndex := AList.update i 0 (r_matchIndex n1)\<rparr>)
         else Some (n1, []))"

definition RemovePeer :: "string \<Rightarrow> RaftNode \<Rightarrow> RaftNode" where
  "RemovePeer i n = n\<lparr>r_peers := AList.delete i (r_peers n), r_nextIndex := AList.delete i (r_nextIndex n),
     r_matchIndex := AList.delete i (r_matchIndex n)\<rparr>"

fun peer_ops :: "peer_op list \<Rightarrow> RaftNode \<Rightarrow> (RaftNode \<times> effect list) option" where
  "peer_ops [] n = Some (n, [])"
| "peer_ops (AddPeerOp i addr # ops) n = do {
     (n1, ms) \<leftarrow> AddPeer i addr n;
     (n2, ms') \<leftarrow> peer_ops ops n1;
     Some (n2, ms @ ms')
   }"
| "peer_ops (RemovePeerOp i # ops) n = peer_ops ops (RemovePeer i n)"

subsection \<open>Applying committed entries\<close>

text \<open>
  One iteration of \<open>applyCommittedLocked\<close>. The proposal of the index is read before the callback
  runs; the answer is sent without blocking and the proposal deleted.
\<close>

definition applyNext :: "'s apply_fun \<Rightarrow> 's \<Rightarrow> RaftNode \<Rightarrow> ('s \<times> RaftNode \<times> effect list) option" where
  "applyNext ap s n =
     (let n1 = n\<lparr>r_lastApplied := r_lastApplied n + 1\<rparr>
      in do {
        ent \<leftarrow> nth_entry (r_log n1) (r_lastApplied n1);
        let prop = map_of (r_proposals n1) (r_lastApplied n1);
        let (s', ops) = ap ent s;
        (n2, ms) \<leftarrow> peer_ops ops n1;
        Some (case prop of
            None \<Rightarrow> (s', n2, ApplyEntry ent # ms)
          | Some p \<Rightarrow> (s', n2\<lparr>r_proposals := AList.delete (r_lastApplied n2) (r_proposals n2)\<rparr>,
                       ApplyEntry ent # ms @ [Notify (pr_notify p)]))
      })"

text \<open>The loop runs once for each index between \<open>lastApplied\<close> and \<open>commitIndex\<close>.\<close>

fun applyLoop :: "nat \<Rightarrow> 's apply_fun \<Rightarrow> 's \<Rightarrow> RaftNode \<Rightarrow> ('s \<times> RaftNode \<times> effect list) option" where
  "applyLoop 0 ap s n = Some (s, n, [])"
| "applyLoop (Suc k) ap s n =
     (if r_lastApplied n < r_commitIndex n
      then do {
        (s1, n1, ms) \<leftarrow> applyNext ap s n;
        (s2, n2, ms') \<leftarrow> applyLoop k ap s1 n1;
        Some (s2, n2, ms @ ms')
      }
      else Some (s, n, []))"

definition applyCommitted :: "'s apply_fun \<Rightarrow> 's \<Rightarrow> RaftNode \<Rightarrow> ('s \<times> RaftNode \<times> effect list) option" where
  "applyCommitted ap s n = applyLoop (r_commitIndex n - r_lastApplied n) ap s n"

subsection \<open>Replication of the log\<close>

definition appendEntry :: "Entry list \<Rightarrow> Entry \<Rightarrow> Entry list" where
  "appendEntry l ent = l @ [ent\<lparr>e_Index := length l\<rparr>]"

definition min64 :: "nat \<Rightarrow> nat \<Rightarrow> nat" where
  "min64 a b = (if a < b then a else b)"

definition HandleAppendEntries ::
  "'s apply_fun \<Rightarrow> env \<Rightarrow> AppendEntriesRequest \<Rightarrow> 's \<Rightarrow> RaftNode \<Rightarrow>
     ('s \<times> RaftNode \<times> effect list \<times> AppendEntriesResponse) option" where
  "HandleAppendEntries ap e req s n =
     (if ae_Term req < r_currentTerm n
      then Some (s, n, [], \<lparr>aer_Term = r_currentTerm n, aer_Success = False\<rparr>)
      else
        let n1 = (if r_currentTerm n < ae_Term req \<or> r_role n \<noteq> RoleFollower
                  then becomeFollower e (ae_Term req) (ae_LeaderID req) n
                  else n\<lparr>r_leaderID := ae_LeaderID req\<rparr>);
            n2 = resetElectionDeadline e n1
        in if length (r_log n2) \<le> ae_PrevLogIndex req
           then Some (s, n2, [], \<lparr>aer_Term = r_currentTerm n2, aer_Success = False\<rparr>)
           else do {
             prev \<leftarrow> nth_entry (r_log n2) (ae_PrevLogIndex req);
             if e_Term prev \<noteq> ae_PrevLogTerm req
             then Some (s, n2, [], \<lparr>aer_Term = r_currentTerm n2, aer_Success = False\<rparr>)
             else
               let insertAt = ae_PrevLogIndex req + 1;
                   log1 = (if insertAt < length (r_log n2) then take insertAt (r_log n2) else r_log n2);
                   log2 = foldl appendEntry log1 (ae_Entries req);
                   n3 = n2\<lparr>r_log := log2\<rparr>
               in if r_commitIndex n3 < ae_LeaderCommit req
                  then do {
                    let lastNewIndex = length (r_log n3) - 1;
                    (s', n4, ms) \<leftarrow> applyCommitted ap s
                      (n3\<lparr>r_commitIndex := min64 (ae_LeaderCommit req) lastNewIndex\<rparr>);
                    Some (s', n4, ms, \<lparr>aer_Term = r_currentTerm n4, aer_Success = True\<rparr>)
                  }
                  else Some (s, n3, [], \<lparr>aer_Term = r_currentTerm n3, aer_Success = True\<rparr>) })"

definition match_count :: "RaftNode \<Rightarrow> nat \<Rightarrow> nat" where
  "match_count n index = 1 + length (filter (\<lambda>k. k \<noteq> r_id n \<and>
     index \<le> (case map_of (r_matchIndex n) k of None \<Rightarrow> 0 | Some m \<Rightarrow> m)) (map fst (r_peers n)))"

definition commitAt :: "nat \<Rightarrow> RaftNode \<Rightarrow> RaftNode" where
  "commitAt index n =
     (if e_Term (r_log n ! index) \<noteq> r_currentTerm n then n
      else if majority n \<le> match_count n index then n\<lparr>r_commitIndex := index\<rparr>
      else n)"

definition advanceCommit :: "RaftNode \<Rightarrow> RaftNode" where
  "advanceCommit n = fold commitAt [r_commitIndex n + 1..<length (r_log n)] n"

definition appendReply ::
  "'s apply_fun \<Rightarrow> env \<Rightarrow> string \<Rightarrow> AppendEntriesRequest \<Rightarrow> AppendEntriesResponse option \<Rightarrow> 's \<Rightarrow> RaftNode \<Rightarrow>
     ('s \<times> RaftNode \<times> effect list) option" where
  "appendReply ap e peerID req reply s n =
     (case reply of
        None \<Rightarrow> Some (s, n, [])
      | Some resp \<Rightarrow>
          if r_currentTerm n < aer_Term resp then Some (s, becomeFollower e (aer_Term resp) [] n, [])
          else if r_role n \<noteq> RoleLeader \<or> ae_Term req \<noteq> r_currentTerm n then Some (s, n, [])
          else if \<not> aer_Success resp
          then let next = (case map_of (r_nextIndex n) peerID of None \<Rightarrow> 0 | Some i \<Rightarrow> i);
                   n1 = (if 1 < next then n\<lparr>r_nextIndex := AList.update peerID (next - 1) (r_nextIndex n)\<rparr> else n)
               in do { (n2, ms) \<leftarrow> replicate_log n1; Some (s, n2, ms) }
          else let n1 = (if ae_Entries req \<noteq> []
                         then let lastIndex = e_Index (last (ae_Entries req))
                              in n\<lparr>r_matchIndex := AList.update peerID lastIndex (r_matchIndex n),
                                   r_nextIndex := AList.update peerID (lastIndex + 1) (r_nextIndex n)\<rparr>
                         else n)
               in do {
                 (s2, n2, ms) \<leftarrow> applyCommitted ap s (advanceCommit n1);
                 (n3, ms') \<leftarrow> replicate_log n2;
                 Some (s2, n3, ms @ ms')
               })"

subsection \<open>Proposals and timers\<close>

text \<open>
  \<open>Propose\<close> up to the wait: the index under which the caller waits and the channel. The wait ends
  with the answer on the channel or with the context, which forgets the proposal.
\<close>

definition Propose ::
  "'s apply_fun \<Rightarrow> nat \<Rightarrow> Command \<Rightarrow> 's \<Rightarrow> RaftNode \<Rightarrow>
     (raft_error + nat \<times> 's \<times> RaftNode \<times> effect list) option" where
  "Propose ap waiter cmd s n =
     (if r_role n \<noteq> RoleLeader then Some (Inl ErrNotLeader)
      else let index = length (r_log n);
               n1 = n\<lparr>r_log := r_log n @ [\<lparr>e_Term = r_currentTerm n, e_Index = index, e_Command = cmd\<rparr>],
                      r_proposals := AList.update index \<lparr>pr_command = cmd, pr_notify = waiter\<rparr> (r_proposals n)\<rparr>
           in if peerAddrs n1 = []
              then do {
                (s2, n2, ms) \<leftarrow> applyCommitted ap s (n1\<lparr>r_commitIndex := index\<rparr>);
                Some (Inr (index, s2, n2, ms))
              }
              else do {
                (n2, ms) \<leftarrow> replicate_log n1;
                Some (Inr (index, s, n2, ms))
              })"

definition proposeCanceled :: "nat \<Rightarrow> RaftNode \<Rightarrow> RaftNode" where
  "proposeCanceled index n = n\<lparr>r_proposals := AList.delete index (r_proposals n)\<rparr>"

datatype tick_result =
    Idle RaftNode
  | Heartbeat RaftNode "effect list"
  | Elect RaftNode election "effect list"

text \<open>
  \<open>tick\<close>: the caller of a started election without peers runs the transition to leader itself, after
  it has released and taken the mutex again.
\<close>

definition tick :: "env \<Rightarrow> RaftNode \<Rightarrow> tick_result option" where
  "tick e n =
     (if r_role n = RoleLeader
      then if r_heartbeatDeadline n < en_now e
           then do { (n1, ms) \<leftarrow> replicate_log n; Some (Heartbeat (resetHeartbeatDeadline e n1) ms) }
           else Some (Idle n)
      else if r_electionDeadline n < en_now e
      then do {
        (n1, el, ms) \<leftarrow> startElection e n;
        if peerAddrs n1 = []
        then do { (n2, ms') \<leftarrow> electionWon e (el_term el) n1; Some (Elect n2 el (ms @ ms')) }
        else Some (Elect n1 el ms)
      }
      else Some (Idle n))"

definition ForceElectionTimeout :: "env \<Rightarrow> RaftNode \<Rightarrow> tick_result option" where
  "ForceElectionTimeout e n = tick e (n\<lparr>r_electionDeadline := en_now e - millisecond\<rparr>)"

definition AppendLocalEntry ::
  "'s apply_fun \<Rightarrow> Command \<Rightarrow> 's \<Rightarrow> RaftNode \<Rightarrow> (raft_error + 's \<times> RaftNode \<times> effect list) option" where
  "AppendLocalEntry ap cmd s n =
     (if r_role n \<noteq> RoleLeader then Some (Inl ErrNotLeader)
      else let index = length (r_log n)
           in do {
             (s2, n2, ms) \<leftarrow> applyCommitted ap s
               (n\<lparr>r_log := r_log n @ [\<lparr>e_Term = r_currentTerm n, e_Index = index, e_Command = cmd\<rparr>],
                  r_commitIndex := index\<rparr>);
             Some (Inr (s2, n2, ms))
           })"

subsection \<open>Observers\<close>

definition IsLeader :: "RaftNode \<Rightarrow> bool" where
  "IsLeader n = (r_role n = RoleLeader)"

definition LeaderID :: "RaftNode \<Rightarrow> string" where
  "LeaderID n = r_leaderID n"

definition LeaderAddr :: "RaftNode \<Rightarrow> string" where
  "LeaderAddr n =
     (if r_leaderID n = [] then []
      else if r_leaderID n = r_id n then r_addr n
      else case map_of (r_peers n) (r_leaderID n) of None \<Rightarrow> [] | Some addr \<Rightarrow> addr)"

definition raft_Status :: "RaftNode \<Rightarrow> Status" where
  "raft_Status n = \<lparr>st_ID = r_id n, st_Role = r_role n, st_Term = r_currentTerm n, st_LeaderID = r_leaderID n,
     st_CommitIndex = r_commitIndex n, st_LastApplied = r_lastApplied n, st_LogLength = length (r_log n)\<rparr>"

definition SetPeerAddr :: "string \<Rightarrow> string \<Rightarrow> RaftNode \<Rightarrow> RaftNode" where
  "SetPeerAddr i addr n = n\<lparr>r_peers := AList.update i addr (r_peers n)\<rparr>"

definition SetAddr :: "string \<Rightarrow> RaftNode \<Rightarrow> RaftNode" where
  "SetAddr addr n = n\<lparr>r_addr := addr\<rparr>"

section \<open>Invariant and frame\<close>

text \<open>
  Entries carry their position, the sentinel keeps the log non-empty, and between critical sections
  every committed entry has been applied.
\<close>

definition indexed :: "Entry list \<Rightarrow> bool" where
  "indexed l \<longleftrightarrow> (\<forall>i < length l. e_Index (l ! i) = i)"

definition raft_inv :: "RaftNode \<Rightarrow> bool" where
  "raft_inv n \<longleftrightarrow> r_log n \<noteq> [] \<and> indexed (r_log n) \<and> r_commitIndex n \<le> r_lastApplied n \<and>
     distinct (map fst (r_peers n))"

text \<open>What the replication bookkeeping and the callbacks never touch.\<close>

definition core :: "RaftNode \<Rightarrow> RaftNode" where
  "core n = n\<lparr>r_peers := [], r_nextIndex := [], r_matchIndex := [], r_lastApplied := 0, r_proposals := []\<rparr>"

lemma core_update [simp]:
  "core (n\<lparr>r_peers := a\<rparr>) = core n" "core (n\<lparr>r_nextIndex := b\<rparr>) = core n"
  "core (n\<lparr>r_matchIndex := c\<rparr>) = core n" "core (n\<lparr>r_lastApplied := d\<rparr>) = core n"
  "core (n\<lparr>r_proposals := f\<rparr>) = core n"
  by (simp_all add: core_def)

lemma coreD:
  assumes "core n' = core n"
  shows "r_id n' = r_id n" "r_addr n' = r_addr n" "r_role n' = r_role n"
    "r_currentTerm n' = r_currentTerm n" "r_votedFor n' = r_votedFor n" "r_log n' = r_log n"
    "r_commitIndex n' = r_commitIndex n" "r_leaderID n' = r_leaderID n" "r_cfg n' = r_cfg n"
  using assms by (cases n; cases n'; simp add: core_def)+

text \<open>The entries that a list of effects hands to the state machine, and the answered proposals.\<close>

fun applied :: "effect list \<Rightarrow> Entry list" where
  "applied [] = []"
| "applied (ApplyEntry ent # es) = ent # applied es"
| "applied (_ # es) = applied es"

fun notified :: "effect list \<Rightarrow> nat list" where
  "notified [] = []"
| "notified (Notify w # es) = w # notified es"
| "notified (_ # es) = notified es"

definition is_append :: "effect \<Rightarrow> bool" where
  "is_append m = (case m of SendAppendEntries _ _ _ \<Rightarrow> True | _ \<Rightarrow> False)"

section \<open>Lemmas\<close>

lemma applied_append [simp]: "applied (xs @ ys) = applied xs @ applied ys"
  by (induction xs rule: applied.induct) simp_all

lemma applied_appends [simp]: "\<forall>m\<in>set ms. is_append m \<Longrightarrow> applied ms = []"
  by (induction ms rule: applied.induct) (auto simp: is_append_def)

lemma notified_appends [simp]: "\<forall>m\<in>set ms. is_append m \<Longrightarrow> notified ms = []"
  by (induction ms rule: notified.induct) (auto simp: is_append_def)

lemma notified_append [simp]: "notified (xs @ ys) = notified xs @ notified ys"
  by (induction xs rule: notified.induct) simp_all

text \<open>The requests a leader sends carry its own term, identity and a suffix of its log.\<close>

definition append_of :: "RaftNode \<Rightarrow> effect \<Rightarrow> bool" where
  "append_of n m \<longleftrightarrow> (\<exists>peerID addr next. m = SendAppendEntries peerID addr
     \<lparr>ae_Term = r_currentTerm n, ae_LeaderID = r_id n, ae_PrevLogIndex = next,
      ae_PrevLogTerm = e_Term (r_log n ! next), ae_Entries = drop (next + 1) (r_log n),
      ae_LeaderCommit = r_commitIndex n\<rparr> \<and> next < length (r_log n) \<and> (peerID, addr) \<in> set (r_peers n) \<and>
     peerID \<noteq> r_id n)"

lemma append_of_is_append: "append_of n m \<Longrightarrow> is_append m"
  by (auto simp: append_of_def is_append_def)

lemma appends_silent: "\<forall>m\<in>set ms. append_of n m \<Longrightarrow> applied ms = [] \<and> notified ms = []"
  using append_of_is_append applied_appends notified_appends by blast

lemma replicateTo_ok:
  assumes "r_log n \<noteq> []" and "p \<in> set (peerAddrs n)"
  shows "\<exists>ni m. replicateTo p n = Some (n\<lparr>r_nextIndex := ni\<rparr>, m) \<and> append_of n m"
proof -
  obtain peerID addr where p: "p = (peerID, addr)" by (cases p)
  have mem: "(peerID, addr) \<in> set (r_peers n)" "peerID \<noteq> r_id n" using assms(2) by (auto simp: p peerAddrs_def)
  have self: "n\<lparr>r_nextIndex := r_nextIndex n\<rparr> = n" by simp
  let ?len = "length (r_log n)"
  obtain nxt ni where nxt: "0 < nxt" "nxt \<le> ?len"
    and eq: "replicateTo p n = Some (n\<lparr>r_nextIndex := ni\<rparr>, SendAppendEntries peerID addr
             \<lparr>ae_Term = r_currentTerm n, ae_LeaderID = r_id n, ae_PrevLogIndex = nxt - 1,
              ae_PrevLogTerm = e_Term (r_log n ! (nxt - 1)), ae_Entries = drop nxt (r_log n),
              ae_LeaderCommit = r_commitIndex n\<rparr>)"
  proof (cases "map_of (r_nextIndex n) peerID")
    case None
    then show thesis
      using assms(1) by (intro that [of ?len "AList.update peerID ?len (r_nextIndex n)"])
        (auto simp: replicateTo_def p nth_entry_def Let_def)
  next
    case (Some k)
    consider "k = 0" | "0 < k" "k \<le> ?len" | "?len < k" by linarith
    then show thesis
    proof cases
      case 1
      with Some show thesis
        using assms(1) by (intro that [of ?len "AList.update peerID ?len (r_nextIndex n)"])
          (auto simp: replicateTo_def p nth_entry_def Let_def)
    next
      case 2
      with Some show thesis
        using self by (intro that [of k "r_nextIndex n"])
          (auto simp: replicateTo_def p nth_entry_def Let_def)
    next
      case 3
      with Some show thesis
        using assms(1) by (intro that [of ?len "AList.update peerID ?len (r_nextIndex n)"])
          (auto simp: replicateTo_def p nth_entry_def Let_def)
    qed
  qed
  have "append_of n (SendAppendEntries peerID addr
      \<lparr>ae_Term = r_currentTerm n, ae_LeaderID = r_id n, ae_PrevLogIndex = nxt - 1,
       ae_PrevLogTerm = e_Term (r_log n ! (nxt - 1)), ae_Entries = drop nxt (r_log n),
       ae_LeaderCommit = r_commitIndex n\<rparr>)"
    unfolding append_of_def using nxt mem
    by (intro exI [of _ peerID] exI [of _ addr] exI [of _ "nxt - 1"]) auto
  with eq show ?thesis by blast
qed

lemma append_of_nextIndex [simp]: "append_of (n\<lparr>r_nextIndex := ni\<rparr>) = append_of n"
  by (simp add: append_of_def fun_eq_iff)

lemma replicateAll_ok:
  assumes "r_log n \<noteq> []" and "set ps \<subseteq> set (peerAddrs n)"
  shows "\<exists>ni ms. replicateAll ps n = Some (n\<lparr>r_nextIndex := ni\<rparr>, ms) \<and> (\<forall>m\<in>set ms. append_of n m)"
  using assms
proof (induction ps arbitrary: n)
  case Nil
  then show ?case by (intro exI [of _ "r_nextIndex n"] exI [of _ "[]"]) simp
next
  case (Cons p ps)
  obtain ni m where 1: "replicateTo p n = Some (n\<lparr>r_nextIndex := ni\<rparr>, m)" "append_of n m"
    using replicateTo_ok [of n p] Cons.prems by auto
  have "\<exists>ni' ms. replicateAll ps (n\<lparr>r_nextIndex := ni\<rparr>) = Some (n\<lparr>r_nextIndex := ni, r_nextIndex := ni'\<rparr>, ms) \<and>
      (\<forall>m\<in>set ms. append_of (n\<lparr>r_nextIndex := ni\<rparr>) m)"
    using Cons.prems by (intro Cons.IH) (auto simp: peerAddrs_def)
  with 1 show ?case by auto
qed

lemma replicate_log_ok:
  assumes "r_log n \<noteq> []"
  shows "\<exists>ni ms. replicate_log n = Some (n\<lparr>r_nextIndex := ni\<rparr>, ms) \<and> (\<forall>m\<in>set ms. append_of n m) \<and>
    (r_role n \<noteq> RoleLeader \<longrightarrow> ms = [])"
proof (cases "r_role n = RoleLeader")
  case True
  then show ?thesis using replicateAll_ok [OF assms, of "peerAddrs n"] by (simp add: replicate_log_def)
next
  case False
  then show ?thesis
    by (intro exI [of _ "r_nextIndex n"] exI [of _ "[]"]) (simp add: replicate_log_def)
qed

lemma AddPeer_ok:
  assumes "r_log n \<noteq> []" and "distinct (map fst (r_peers n))"
  shows "\<exists>n' ms. AddPeer i addr n = Some (n', ms) \<and> core n' = core n \<and> applied ms = [] \<and> notified ms = [] \<and>
    r_lastApplied n' = r_lastApplied n \<and> r_proposals n' = r_proposals n \<and>
    r_peers n' = AList.update i addr (r_peers n) \<and> distinct (map fst (r_peers n'))"
proof -
  let ?n = "n\<lparr>r_peers := AList.update i addr (r_peers n)\<rparr>"
  let ?m = "?n\<lparr>r_nextIndex := AList.update i (length (r_log n)) (r_nextIndex n), r_matchIndex := AList.update i 0 (r_matchIndex n)\<rparr>"
  have d: "distinct (map fst (AList.update i addr (r_peers n)))" using assms(2) by (rule distinct_update)
  obtain ni ms where r: "replicate_log ?m = Some (?m\<lparr>r_nextIndex := ni\<rparr>, ms)" "\<forall>m\<in>set ms. append_of ?m m"
    using replicate_log_ok [of ?m] assms(1) by auto
  then have "applied ms = []" "notified ms = []" by (blast dest: appends_silent)+
  with r d show ?thesis by (cases "r_role n = RoleLeader") (auto simp: AddPeer_def Let_def)
qed

lemma peer_ops_ok:
  assumes "r_log n \<noteq> []" and "distinct (map fst (r_peers n))"
  shows "\<exists>n' ms. peer_ops ops n = Some (n', ms) \<and> core n' = core n \<and> applied ms = [] \<and> notified ms = [] \<and>
    r_lastApplied n' = r_lastApplied n \<and> r_proposals n' = r_proposals n \<and> distinct (map fst (r_peers n'))"
  using assms
proof (induction ops n rule: peer_ops.induct)
  case (2 i addr ops n)
  obtain n1 ms where 1: "AddPeer i addr n = Some (n1, ms)" "core n1 = core n" "applied ms = []" "notified ms = []"
    "r_lastApplied n1 = r_lastApplied n" "r_proposals n1 = r_proposals n" "distinct (map fst (r_peers n1))"
    using AddPeer_ok [OF 2(2,3), of i addr] by blast
  have "r_log n1 \<noteq> []" using 2(2) coreD [OF 1(2)] by simp
  from 2(1) [OF 1(1) refl this 1(7)] 1 show ?case by auto
next
  case (3 i ops n)
  then show ?case by (auto simp: RemovePeer_def distinct_delete)
qed simp

text \<open>A callback that leaves the membership of the node alone.\<close>

definition static :: "'s apply_fun \<Rightarrow> bool" where
  "static ap \<longleftrightarrow> (\<forall>ent s. snd (ap ent s) = [])"

definition is_send :: "effect \<Rightarrow> bool" where
  "is_send m = (case m of SendRequestVote _ _ _ \<Rightarrow> True | SendAppendEntries _ _ _ \<Rightarrow> True | _ \<Rightarrow> False)"

lemma applyNext_ok:
  assumes "r_lastApplied n + 1 < length (r_log n)" and "distinct (map fst (r_peers n))"
  shows "\<exists>n' ms. applyNext ap s n = Some (fst (ap (r_log n ! (r_lastApplied n + 1)) s), n', ms) \<and>
    core n' = core n \<and> applied ms = [r_log n ! (r_lastApplied n + 1)] \<and>
    notified ms = (case map_of (r_proposals n) (r_lastApplied n + 1) of None \<Rightarrow> [] | Some p \<Rightarrow> [pr_notify p]) \<and>
    r_lastApplied n' = r_lastApplied n + 1 \<and> distinct (map fst (r_peers n')) \<and>
    (static ap \<longrightarrow> r_peers n' = r_peers n \<and> (\<forall>m\<in>set ms. \<not> is_send m))"
proof -
  let ?e = "r_log n ! (r_lastApplied n + 1)" and ?n = "n\<lparr>r_lastApplied := r_lastApplied n + 1\<rparr>"
  obtain s' ops where ap: "ap ?e s = (s', ops)" by (cases "ap ?e s")
  have "r_log ?n \<noteq> []" using assms(1) by auto
  then obtain n2 ms where 2: "peer_ops ops ?n = Some (n2, ms)" "core n2 = core ?n" "applied ms = []" "notified ms = []"
    "r_lastApplied n2 = r_lastApplied ?n" "r_proposals n2 = r_proposals ?n" "distinct (map fst (r_peers n2))"
    using peer_ops_ok [of ?n ops] assms(2) by auto
  show ?thesis
    using assms(1) ap 2
    by (cases "map_of (r_proposals n) (r_lastApplied n + 1)")
      (auto simp: applyNext_def nth_entry_def Let_def static_def is_send_def dest!: spec [of _ ?e] spec [of _ s])
qed

lemma applyLoop_ok:
  assumes "r_commitIndex n < length (r_log n) \<or> r_commitIndex n \<le> r_lastApplied n"
    and "distinct (map fst (r_peers n))" and "k = r_commitIndex n - r_lastApplied n"
  shows "\<exists>n' ms. applyLoop k ap s n = Some (fold (\<lambda>ent s. fst (ap ent s)) (applied ms) s, n', ms) \<and>
    core n' = core n \<and> r_lastApplied n' = max (r_lastApplied n) (r_commitIndex n) \<and>
    distinct (map fst (r_peers n')) \<and>
    applied ms = map (\<lambda>i. r_log n ! i) [r_lastApplied n + 1..<r_commitIndex n + 1] \<and>
    (static ap \<longrightarrow> r_peers n' = r_peers n \<and> (\<forall>m\<in>set ms. \<not> is_send m))"
  using assms
proof (induction k arbitrary: s n)
  case 0
  then show ?case by (intro exI [of _ n] exI [of _ "[]"]) auto
next
  case (Suc k)
  then have less: "r_lastApplied n < r_commitIndex n" and len: "r_lastApplied n + 1 < length (r_log n)" by auto
  let ?e = "r_log n ! (r_lastApplied n + 1)"
  obtain n1 ms where 1: "applyNext ap s n = Some (fst (ap ?e s), n1, ms)" "core n1 = core n" "applied ms = [?e]"
    "r_lastApplied n1 = r_lastApplied n + 1" "distinct (map fst (r_peers n1))"
    "static ap \<longrightarrow> r_peers n1 = r_peers n \<and> (\<forall>m\<in>set ms. \<not> is_send m)"
    using applyNext_ok [OF len Suc.prems(2), of ap s] by blast
  note c = coreD [OF 1(2)]
  have "\<exists>n' ms. applyLoop k ap (fst (ap ?e s)) n1 = Some (fold (\<lambda>ent s. fst (ap ent s)) (applied ms) (fst (ap ?e s)), n', ms) \<and>
    core n' = core n1 \<and> r_lastApplied n' = max (r_lastApplied n1) (r_commitIndex n1) \<and>
    distinct (map fst (r_peers n')) \<and>
    applied ms = map (\<lambda>i. r_log n1 ! i) [r_lastApplied n1 + 1..<r_commitIndex n1 + 1] \<and>
    (static ap \<longrightarrow> r_peers n' = r_peers n1 \<and> (\<forall>m\<in>set ms. \<not> is_send m))"
    using Suc.prems less 1(4,5) by (intro Suc.IH) (auto simp: c)
  then obtain n' ms' where 2: "applyLoop k ap (fst (ap ?e s)) n1 =
      Some (fold (\<lambda>ent s. fst (ap ent s)) (applied ms') (fst (ap ?e s)), n', ms')"
    "core n' = core n1" "r_lastApplied n' = max (r_lastApplied n1) (r_commitIndex n1)"
    "distinct (map fst (r_peers n'))"
    "applied ms' = map (\<lambda>i. r_log n1 ! i) [r_lastApplied n1 + 1..<r_commitIndex n1 + 1]"
    "static ap \<longrightarrow> r_peers n' = r_peers n1 \<and> (\<forall>m\<in>set ms'. \<not> is_send m)" by blast
  have upt: "[Suc (r_lastApplied n)..<Suc (r_commitIndex n)] =
      Suc (r_lastApplied n) # [Suc (Suc (r_lastApplied n))..<Suc (r_commitIndex n)]"
    using less by (simp add: upt_conv_Cons del: upt_Suc)
  show ?case
    using 1 2 less by (intro exI [of _ n'] exI [of _ "ms @ ms'"]) (auto simp: upt c simp del: upt_Suc)
qed

lemma applyCommitted_ok:
  assumes "r_commitIndex n < length (r_log n) \<or> r_commitIndex n \<le> r_lastApplied n"
    and "distinct (map fst (r_peers n))"
  obtains n' ms where "applyCommitted ap s n = Some (fold (\<lambda>ent s. fst (ap ent s)) (applied ms) s, n', ms)"
    "core n' = core n" "r_lastApplied n' = max (r_lastApplied n) (r_commitIndex n)"
    "distinct (map fst (r_peers n'))"
    "applied ms = map (\<lambda>i. r_log n ! i) [r_lastApplied n + 1..<r_commitIndex n + 1]"
    "static ap \<longrightarrow> r_peers n' = r_peers n \<and> (\<forall>m\<in>set ms. \<not> is_send m)"
  using applyLoop_ok [OF assms refl, of ap s] unfolding applyCommitted_def by blast

subsection \<open>The log of a follower\<close>

lemma indexed_append: "indexed l \<Longrightarrow> e_Index ent = length l \<Longrightarrow> indexed (l @ [ent])"
  by (auto simp: indexed_def nth_append less_Suc_eq)

lemma indexed_take: "indexed l \<Longrightarrow> indexed (take k l)"
  by (simp add: indexed_def)

lemma indexed_appendEntries: "indexed l \<Longrightarrow> indexed (foldl appendEntry l es)"
  by (induction es arbitrary: l) (simp_all add: appendEntry_def indexed_append)

lemma appendEntries_nonempty: "l \<noteq> [] \<Longrightarrow> foldl appendEntry l es \<noteq> []"
  by (induction es arbitrary: l) (simp_all add: appendEntry_def)

text \<open>Entries that already carry their position are appended as they are.\<close>

lemma appendEntries_positioned:
  assumes "\<And>i. i < length es \<Longrightarrow> e_Index (es ! i) = length l + i"
  shows "foldl appendEntry l es = l @ es"
  using assms
proof (induction es arbitrary: l)
  case (Cons ent es)
  have "e_Index ent = length l" using Cons.prems [of 0] by simp
  then have "appendEntry l ent = l @ [ent]" by (simp add: appendEntry_def)
  moreover have "foldl appendEntry (l @ [ent]) es = (l @ [ent]) @ es"
    using Cons.prems [of "Suc _"] by (intro Cons.IH) force
  ultimately show ?case by simp
qed simp

lemma appendEntries_length: "length (foldl appendEntry l es) = length l + length es"
  by (induction es arbitrary: l) (simp_all add: appendEntry_def)

lemma appendEntries_prefix: "k \<le> length l \<Longrightarrow> take k (foldl appendEntry l es) = take k l"
  by (induction es arbitrary: l) (simp_all add: appendEntry_def)

lemma reset_simps [simp]:
  "r_id (resetElectionDeadline e n) = r_id n" "r_addr (resetElectionDeadline e n) = r_addr n"
  "r_peers (resetElectionDeadline e n) = r_peers n" "r_role (resetElectionDeadline e n) = r_role n"
  "r_currentTerm (resetElectionDeadline e n) = r_currentTerm n"
  "r_votedFor (resetElectionDeadline e n) = r_votedFor n" "r_log (resetElectionDeadline e n) = r_log n"
  "r_commitIndex (resetElectionDeadline e n) = r_commitIndex n"
  "r_lastApplied (resetElectionDeadline e n) = r_lastApplied n"
  "r_leaderID (resetElectionDeadline e n) = r_leaderID n"
  "r_proposals (resetElectionDeadline e n) = r_proposals n"
  "r_id (resetHeartbeatDeadline e n) = r_id n" "r_peers (resetHeartbeatDeadline e n) = r_peers n"
  "r_role (resetHeartbeatDeadline e n) = r_role n" "r_currentTerm (resetHeartbeatDeadline e n) = r_currentTerm n"
  "r_votedFor (resetHeartbeatDeadline e n) = r_votedFor n" "r_log (resetHeartbeatDeadline e n) = r_log n"
  "r_commitIndex (resetHeartbeatDeadline e n) = r_commitIndex n"
  "r_lastApplied (resetHeartbeatDeadline e n) = r_lastApplied n"
  "r_proposals (resetHeartbeatDeadline e n) = r_proposals n"
  by (simp_all add: resetElectionDeadline_def resetHeartbeatDeadline_def Let_def)

lemma becomeFollower_simps [simp]:
  "r_id (becomeFollower e t l n) = r_id n" "r_peers (becomeFollower e t l n) = r_peers n"
  "r_role (becomeFollower e t l n) = RoleFollower" "r_currentTerm (becomeFollower e t l n) = t"
  "r_votedFor (becomeFollower e t l n) = []" "r_log (becomeFollower e t l n) = r_log n"
  "r_commitIndex (becomeFollower e t l n) = r_commitIndex n"
  "r_lastApplied (becomeFollower e t l n) = r_lastApplied n"
  "r_leaderID (becomeFollower e t l n) = l" "r_proposals (becomeFollower e t l n) = r_proposals n"
  by (simp_all add: becomeFollower_def)

lemma raft_inv_reset [simp]:
  "raft_inv (resetElectionDeadline e n) = raft_inv n"
  "raft_inv (resetHeartbeatDeadline e n) = raft_inv n"
  "raft_inv (becomeFollower e t l n) = raft_inv n"
  by (simp_all add: raft_inv_def)

lemma raft_inv_fields [simp]:
  "raft_inv (n\<lparr>r_nextIndex := a\<rparr>) = raft_inv n" "raft_inv (n\<lparr>r_matchIndex := b\<rparr>) = raft_inv n"
  "raft_inv (n\<lparr>r_votedFor := c\<rparr>) = raft_inv n" "raft_inv (n\<lparr>r_leaderID := d\<rparr>) = raft_inv n"
  "raft_inv (n\<lparr>r_role := f\<rparr>) = raft_inv n" "raft_inv (n\<lparr>r_currentTerm := g\<rparr>) = raft_inv n"
  "raft_inv (n\<lparr>r_proposals := h\<rparr>) = raft_inv n" "raft_inv (n\<lparr>r_addr := i\<rparr>) = raft_inv n"
  "raft_inv (n\<lparr>r_electionDeadline := j\<rparr>) = raft_inv n" "raft_inv (n\<lparr>r_heartbeatDeadline := k\<rparr>) = raft_inv n"
  by (simp_all add: raft_inv_def)

lemma raft_invD: "raft_inv n \<Longrightarrow> r_log n \<noteq> [] \<and> distinct (map fst (r_peers n))"
  by (simp add: raft_inv_def)

text \<open>After the loop the invariant holds again, from a state that may have fresh commits.\<close>

definition raft_pre :: "RaftNode \<Rightarrow> bool" where
  "raft_pre n \<longleftrightarrow> r_log n \<noteq> [] \<and> indexed (r_log n) \<and> distinct (map fst (r_peers n)) \<and>
     (r_commitIndex n < length (r_log n) \<or> r_commitIndex n \<le> r_lastApplied n)"

lemma applyCommitted_inv:
  assumes "raft_pre n"
  obtains n' ms where "applyCommitted ap s n = Some (fold (\<lambda>ent s. fst (ap ent s)) (applied ms) s, n', ms)"
    "core n' = core n" "raft_inv n'" "r_lastApplied n' = max (r_lastApplied n) (r_commitIndex n)"
    "applied ms = map (\<lambda>i. r_log n ! i) [r_lastApplied n + 1..<r_commitIndex n + 1]"
    "static ap \<longrightarrow> r_peers n' = r_peers n \<and> (\<forall>m\<in>set ms. \<not> is_send m)"
proof -
  obtain n' ms where *: "applyCommitted ap s n = Some (fold (\<lambda>ent s. fst (ap ent s)) (applied ms) s, n', ms)"
    "core n' = core n" "r_lastApplied n' = max (r_lastApplied n) (r_commitIndex n)"
    "distinct (map fst (r_peers n'))"
    "applied ms = map (\<lambda>i. r_log n ! i) [r_lastApplied n + 1..<r_commitIndex n + 1]"
    "static ap \<longrightarrow> r_peers n' = r_peers n \<and> (\<forall>m\<in>set ms. \<not> is_send m)"
    using applyCommitted_ok [of n ap s] assms unfolding raft_pre_def by metis
  moreover have "raft_inv n'"
    using assms * coreD [OF *(2)] unfolding raft_inv_def raft_pre_def by simp
  ultimately show thesis using that by blast
qed

lemma replicate_log_inv:
  assumes "raft_inv n"
  obtains n' ms where "replicate_log n = Some (n', ms)" "core n' = core n" "raft_inv n'"
    "r_lastApplied n' = r_lastApplied n" "\<forall>m\<in>set ms. append_of n m" "r_role n \<noteq> RoleLeader \<Longrightarrow> ms = []"
    "r_peers n' = r_peers n" "r_matchIndex n' = r_matchIndex n" "r_proposals n' = r_proposals n"
proof -
  obtain ni ms where "replicate_log n = Some (n\<lparr>r_nextIndex := ni\<rparr>, ms)" "\<forall>m\<in>set ms. append_of n m"
    "r_role n \<noteq> RoleLeader \<longrightarrow> ms = []" using replicate_log_ok [of n] assms by (auto simp: raft_inv_def)
  then show thesis using assms by (intro that [of "n\<lparr>r_nextIndex := ni\<rparr>" ms]) simp_all
qed

subsection \<open>Outcome of each critical section\<close>

text \<open>What a vote request leaves unchanged, and when it is granted.\<close>

definition up_to_date :: "RequestVoteRequest \<Rightarrow> Entry list \<Rightarrow> bool" where
  "up_to_date req l \<longleftrightarrow> e_Term (last l) < rv_LastLogTerm req \<or>
     rv_LastLogTerm req = e_Term (last l) \<and> length l - 1 \<le> rv_LastLogIndex req"

lemma HandleRequestVote_outcome:
  assumes "raft_inv n"
  obtains n' resp where "HandleRequestVote e req n = Some (n', resp)" "raft_inv n'"
    "r_id n' = r_id n" "r_peers n' = r_peers n" "r_log n' = r_log n" "r_commitIndex n' = r_commitIndex n"
    "r_lastApplied n' = r_lastApplied n" "rvr_Term resp = r_currentTerm n'"
    "r_currentTerm n' = max (r_currentTerm n) (rv_Term req)"
    "r_currentTerm n < rv_Term req \<Longrightarrow> r_role n' = RoleFollower"
    "rv_Term req \<le> r_currentTerm n \<Longrightarrow> r_role n' = r_role n"
    "rvr_VoteGranted resp \<longleftrightarrow> r_currentTerm n \<le> rv_Term req \<and> up_to_date req (r_log n) \<and>
       (r_currentTerm n < rv_Term req \<or> r_votedFor n = [] \<or> r_votedFor n = rv_CandidateID req)"
    "r_votedFor n' = (if rvr_VoteGranted resp then rv_CandidateID req
       else if r_currentTerm n < rv_Term req then [] else r_votedFor n)"
proof (cases "rv_Term req < r_currentTerm n")
  case True
  then show thesis
    using assms by (intro that [of n "\<lparr>rvr_Term = r_currentTerm n, rvr_VoteGranted = False\<rparr>"])
      (simp_all add: HandleRequestVote_def)
next
  case False
  define n1 where "n1 = (if r_currentTerm n < rv_Term req then becomeFollower e (rv_Term req) [] n else n)"
  have n1: "raft_inv n1" "r_id n1 = r_id n" "r_peers n1 = r_peers n" "r_log n1 = r_log n"
    "r_commitIndex n1 = r_commitIndex n" "r_lastApplied n1 = r_lastApplied n" "r_currentTerm n1 = rv_Term req"
    "r_role n1 = (if r_currentTerm n < rv_Term req then RoleFollower else r_role n)"
    "r_votedFor n1 = (if r_currentTerm n < rv_Term req then [] else r_votedFor n)"
    using assms False by (simp_all add: n1_def)
  define ok where "ok = ((r_votedFor n1 = [] \<or> r_votedFor n1 = rv_CandidateID req) \<and> up_to_date req (r_log n))"
  define n2 where "n2 = (if ok then resetElectionDeadline e (n1\<lparr>r_votedFor := rv_CandidateID req\<rparr>) else n1)"
  have ne: "r_log n \<noteq> []" using assms by (simp add: raft_inv_def)
  have eq: "HandleRequestVote e req n = Some (n2, \<lparr>rvr_Term = r_currentTerm n2, rvr_VoteGranted = ok\<rparr>)"
    using False ne unfolding HandleRequestVote_def n1_def [symmetric] Let_def
    by (simp add: lastLogIndexTerm_def n1(4) ok_def n2_def up_to_date_def last_conv_nth)
  show thesis
    by (rule that [OF eq]) (use n1 False in \<open>auto simp: n2_def ok_def\<close>)
qed

lemma becomeLeader_outcome:
  assumes "raft_inv n"
  obtains n' ms where "becomeLeader e n = Some (n', ms)" "raft_inv n'" "r_role n' = RoleLeader"
    "r_id n' = r_id n" "r_peers n' = r_peers n" "r_log n' = r_log n" "r_commitIndex n' = r_commitIndex n"
    "r_currentTerm n' = r_currentTerm n" "r_votedFor n' = r_votedFor n" "r_lastApplied n' = r_lastApplied n"
    "\<forall>m\<in>set ms. append_of n' m" "r_matchIndex n' = map (\<lambda>k. (k, 0)) (filter (\<lambda>k. k \<noteq> r_id n) (map fst (r_peers n)))"
proof -
  let ?ids = "filter (\<lambda>k. k \<noteq> r_id n) (map fst (r_peers n))"
  define l where "l = resetHeartbeatDeadline e (n\<lparr>r_role := RoleLeader, r_leaderID := r_id n,
              r_nextIndex := map (\<lambda>k. (k, length (r_log n))) ?ids, r_matchIndex := map (\<lambda>k. (k, 0)) ?ids\<rparr>)"
  have l: "raft_inv l" "r_role l = RoleLeader" "r_id l = r_id n" "r_peers l = r_peers n" "r_log l = r_log n"
    "r_commitIndex l = r_commitIndex n" "r_currentTerm l = r_currentTerm n" "r_votedFor l = r_votedFor n"
    "r_lastApplied l = r_lastApplied n" "r_matchIndex l = map (\<lambda>k. (k, 0)) ?ids"
    using assms by (simp_all add: l_def) (simp add: resetHeartbeatDeadline_def)
  obtain ni ms where r: "replicate_log l = Some (l\<lparr>r_nextIndex := ni\<rparr>, ms)" "\<forall>m\<in>set ms. append_of l m"
    using replicate_log_ok [of l] raft_invD [OF l(1)] by blast
  then have eq: "becomeLeader e n = Some (l\<lparr>r_nextIndex := ni\<rparr>, ms)" by (simp add: becomeLeader_def l_def Let_def)
  show thesis by (rule that [OF eq]) (use l r in simp_all)
qed

lemma electionWon_outcome:
  assumes "raft_inv n"
  obtains n' ms where "electionWon e t n = Some (n', ms)" "raft_inv n'"
    "r_id n' = r_id n" "r_peers n' = r_peers n" "r_log n' = r_log n" "r_commitIndex n' = r_commitIndex n"
    "r_currentTerm n' = r_currentTerm n" "r_votedFor n' = r_votedFor n" "r_lastApplied n' = r_lastApplied n"
    "r_role n' = (if r_role n = RoleCandidate \<and> r_currentTerm n = t then RoleLeader else r_role n)"
    "\<forall>m\<in>set ms. append_of n' m" "\<not> (r_role n = RoleCandidate \<and> r_currentTerm n = t) \<Longrightarrow> ms = []"
proof (cases "r_role n = RoleCandidate \<and> r_currentTerm n = t")
  case True
  obtain n' ms where "becomeLeader e n = Some (n', ms)" "raft_inv n'" "r_role n' = RoleLeader"
    "r_id n' = r_id n" "r_peers n' = r_peers n" "r_log n' = r_log n" "r_commitIndex n' = r_commitIndex n"
    "r_currentTerm n' = r_currentTerm n" "r_votedFor n' = r_votedFor n" "r_lastApplied n' = r_lastApplied n"
    "\<forall>m\<in>set ms. append_of n' m" using becomeLeader_outcome [OF assms, of e] by metis
  with True show thesis by (intro that [of n' ms]) (simp_all add: electionWon_def)
next
  case False
  with assms show thesis by (intro that [of n "[]"]) (auto simp: electionWon_def)
qed

lemma startElection_outcome:
  assumes "raft_inv n"
  obtains n' el ms where "startElection e n = Some (n', el, ms)" "raft_inv n'" "r_role n' = RoleCandidate"
    "r_id n' = r_id n" "r_peers n' = r_peers n" "r_log n' = r_log n" "r_commitIndex n' = r_commitIndex n"
    "r_lastApplied n' = r_lastApplied n"
    "r_currentTerm n' = wrapu64 (r_currentTerm n + 1)" "r_votedFor n' = r_id n"
    "el = \<lparr>el_term = r_currentTerm n', el_majority = majority n, el_votes = 1, el_once = False\<rparr>"
    "ms = map (\<lambda>(peerID, addr). SendRequestVote peerID addr
       \<lparr>rv_Term = r_currentTerm n', rv_CandidateID = r_id n, rv_LastLogIndex = length (r_log n) - 1,
        rv_LastLogTerm = e_Term (last (r_log n))\<rparr>) (peerAddrs n)"
proof -
  let ?n = "resetElectionDeadline e
            (n\<lparr>r_role := RoleCandidate, r_currentTerm := wrapu64 (r_currentTerm n + 1), r_votedFor := r_id n,
               r_leaderID := []\<rparr>)"
  have ne: "r_log n \<noteq> []" using assms by (simp add: raft_inv_def)
  then have eq: "startElection e n = Some (?n,
      \<lparr>el_term = r_currentTerm ?n, el_majority = majority n, el_votes = 1, el_once = False\<rparr>,
      map (\<lambda>(peerID, addr). SendRequestVote peerID addr
       \<lparr>rv_Term = r_currentTerm ?n, rv_CandidateID = r_id n, rv_LastLogIndex = length (r_log n) - 1,
        rv_LastLogTerm = e_Term (last (r_log n))\<rparr>) (peerAddrs n))"
    by (simp add: startElection_def Let_def lastLogIndexTerm_def majority_def peerAddrs_def last_conv_nth)
  show thesis by (rule that [OF eq]) (simp_all add: assms)
qed

lemma voteReply_outcome:
  obtains n' go where "voteReply e (Some resp) n = (n', go)" "raft_inv n' = raft_inv n" "r_id n' = r_id n"
    "r_peers n' = r_peers n" "r_log n' = r_log n" "r_currentTerm n' = max (r_currentTerm n) (rvr_Term resp)"
    "r_currentTerm n < rvr_Term resp \<Longrightarrow> r_role n' = RoleFollower \<and> r_votedFor n' = [] \<and> \<not> go"
    "rvr_Term resp \<le> r_currentTerm n \<Longrightarrow> n' = n \<and> go = rvr_VoteGranted resp"
proof (cases "r_currentTerm n < rvr_Term resp")
  case True
  then show thesis by (intro that [of "becomeFollower e (rvr_Term resp) [] n" False]) (simp_all add: voteReply_def)
next
  case False
  then show thesis by (intro that [of n "rvr_VoteGranted resp"]) (simp_all add: voteReply_def)
qed

definition accepts_append :: "AppendEntriesRequest \<Rightarrow> RaftNode \<Rightarrow> bool" where
  "accepts_append req n \<longleftrightarrow> r_currentTerm n \<le> ae_Term req \<and> ae_PrevLogIndex req < length (r_log n) \<and>
     e_Term (r_log n ! ae_PrevLogIndex req) = ae_PrevLogTerm req"

definition appended :: "AppendEntriesRequest \<Rightarrow> Entry list \<Rightarrow> Entry list" where
  "appended req l = foldl appendEntry (take (ae_PrevLogIndex req + 1) l) (ae_Entries req)"

lemma appended_inv: "indexed l \<Longrightarrow> l \<noteq> [] \<Longrightarrow> indexed (appended req l) \<and> appended req l \<noteq> []"
  by (simp add: appended_def indexed_appendEntries indexed_take appendEntries_nonempty)

lemma HandleAppendEntries_outcome:
  assumes "raft_inv n"
  obtains s' n' ms resp where "HandleAppendEntries ap e req s n = Some (s', n', ms, resp)" "raft_inv n'"
    "r_id n' = r_id n" "aer_Term resp = r_currentTerm n'" "aer_Success resp = accepts_append req n"
    "r_currentTerm n' = max (r_currentTerm n) (ae_Term req)"
    "r_log n' = (if accepts_append req n then appended req (r_log n) else r_log n)"
    "r_commitIndex n' = (if accepts_append req n \<and> r_commitIndex n < ae_LeaderCommit req
       then min64 (ae_LeaderCommit req) (length (appended req (r_log n)) - 1) else r_commitIndex n)"
    "ae_Term req < r_currentTerm n \<Longrightarrow> r_role n' = r_role n \<and> r_votedFor n' = r_votedFor n"
    "r_currentTerm n \<le> ae_Term req \<Longrightarrow> r_role n' = RoleFollower \<and> r_votedFor n' =
       (if r_currentTerm n < ae_Term req \<or> r_role n \<noteq> RoleFollower then [] else r_votedFor n)"
    "s' = fold (\<lambda>ent s. fst (ap ent s)) (applied ms) s"
    "applied ms = map (\<lambda>i. r_log n' ! i) [r_lastApplied n + 1..<r_commitIndex n' + 1]"
    "static ap \<Longrightarrow> r_peers n' = r_peers n \<and> (\<forall>m\<in>set ms. \<not> is_send m)"
proof (cases "ae_Term req < r_currentTerm n")
  case True
  then have "\<not> accepts_append req n" by (simp add: accepts_append_def)
  with True assms show thesis
    by (intro that [of s n "[]" "\<lparr>aer_Term = r_currentTerm n, aer_Success = False\<rparr>"])
      (auto simp: HandleAppendEntries_def raft_inv_def)
next
  case False
  define n2 where "n2 = resetElectionDeadline e (if r_currentTerm n < ae_Term req \<or> r_role n \<noteq> RoleFollower
    then becomeFollower e (ae_Term req) (ae_LeaderID req) n else n\<lparr>r_leaderID := ae_LeaderID req\<rparr>)"
  have n2: "raft_inv n2" "r_id n2 = r_id n" "r_peers n2 = r_peers n" "r_log n2 = r_log n"
    "r_commitIndex n2 = r_commitIndex n" "r_lastApplied n2 = r_lastApplied n" "r_currentTerm n2 = ae_Term req"
    "r_role n2 = RoleFollower"
    "r_votedFor n2 = (if r_currentTerm n < ae_Term req \<or> r_role n \<noteq> RoleFollower then [] else r_votedFor n)"
    using assms False by (auto simp: n2_def)
  have acc: "accepts_append req n \<longleftrightarrow> ae_PrevLogIndex req < length (r_log n) \<and>
      e_Term (r_log n ! ae_PrevLogIndex req) = ae_PrevLogTerm req" using False by (simp add: accepts_append_def)
  have inv: "r_log n \<noteq> []" "indexed (r_log n)" "r_commitIndex n \<le> r_lastApplied n"
    "distinct (map fst (r_peers n))" using assms by (simp_all add: raft_inv_def)
  have unfold: "HandleAppendEntries ap e req s n =
     (if \<not> accepts_append req n then Some (s, n2, [], \<lparr>aer_Term = ae_Term req, aer_Success = False\<rparr>)
      else if r_commitIndex n < ae_LeaderCommit req
      then do { (s', n4, ms) \<leftarrow> applyCommitted ap s (n2\<lparr>r_log := appended req (r_log n),
                  r_commitIndex := min64 (ae_LeaderCommit req) (length (appended req (r_log n)) - 1)\<rparr>);
                Some (s', n4, ms, \<lparr>aer_Term = r_currentTerm n4, aer_Success = True\<rparr>) }
      else Some (s, n2\<lparr>r_log := appended req (r_log n)\<rparr>, [], \<lparr>aer_Term = ae_Term req, aer_Success = True\<rparr>))"
    using False unfolding HandleAppendEntries_def n2_def [symmetric] Let_def
    by (auto simp: n2(4,5,7) acc appended_def nth_entry_def)
  show thesis
  proof (cases "accepts_append req n")
    case no: False
    with n2 False inv show thesis
      by (intro that [of s n2 "[]" "\<lparr>aer_Term = ae_Term req, aer_Success = False\<rparr>"])
        (auto simp: unfold)
  next
    case yes: True
    let ?l = "appended req (r_log n)"
    have l: "indexed ?l" "?l \<noteq> []" using appended_inv [OF inv(2,1), of req] by auto
    show thesis
    proof (cases "r_commitIndex n < ae_LeaderCommit req")
      case no: False
      have "raft_inv (n2\<lparr>r_log := ?l\<rparr>)" using n2(1) l by (simp add: raft_inv_def)
      with yes n2 False inv no show thesis
        by (intro that [of s "n2\<lparr>r_log := ?l\<rparr>" "[]" "\<lparr>aer_Term = ae_Term req, aer_Success = True\<rparr>"])
          (auto simp: unfold)
    next
      case commit: True
      let ?n3 = "n2\<lparr>r_log := ?l, r_commitIndex := min64 (ae_LeaderCommit req) (length ?l - 1)\<rparr>"
      have "raft_pre ?n3" using l inv n2(3) by (auto simp: raft_pre_def min64_def)
      then obtain n4 ms where *: "applyCommitted ap s ?n3 = Some (fold (\<lambda>ent s. fst (ap ent s)) (applied ms) s, n4, ms)"
        "core n4 = core ?n3" "raft_inv n4" "r_lastApplied n4 = max (r_lastApplied ?n3) (r_commitIndex ?n3)"
        "applied ms = map (\<lambda>i. r_log ?n3 ! i) [r_lastApplied ?n3 + 1..<r_commitIndex ?n3 + 1]"
        "static ap \<longrightarrow> r_peers n4 = r_peers ?n3 \<and> (\<forall>m\<in>set ms. \<not> is_send m)"
        by (rule applyCommitted_inv [of ?n3 ap s])
      note c = coreD [OF *(2)]
      from yes commit * c n2 False show thesis
        by (intro that [of "fold (\<lambda>ent s. fst (ap ent s)) (applied ms) s" n4 ms
              "\<lparr>aer_Term = ae_Term req, aer_Success = True\<rparr>"]) (simp_all add: unfold)
    qed
  qed
qed

text \<open>The scan only changes the commit index, to the last index of the current term that a majority holds.\<close>

lemma advanceCommit_eq:
  "fold commitAt its n = n\<lparr>r_commitIndex := fold (\<lambda>i c. if e_Term (r_log n ! i) = r_currentTerm n \<and>
     majority n \<le> match_count n i then i else c) its (r_commitIndex n)\<rparr>"
proof (induction its arbitrary: n)
  case (Cons i its)
  show ?case unfolding fold_simps id_apply comp_apply Cons
    by (simp add: commitAt_def majority_def match_count_def)
qed simp

lemma fold_last_index:
  "fold (\<lambda>i c. if P i then i else c) its c = c \<or>
   fold (\<lambda>i c. if P i then i else c) its c \<in> set its \<and> P (fold (\<lambda>i c. if P i then i else c) its c)"
proof (induction its arbitrary: c)
  case (Cons a its)
  show ?case using Cons [of "if P a then a else c"] by (auto split: if_splits)
qed simp

lemma advanceCommit_outcome:
  obtains c where "advanceCommit n = n\<lparr>r_commitIndex := c\<rparr>"
    "c = r_commitIndex n \<or> r_commitIndex n < c \<and> c < length (r_log n) \<and> e_Term (r_log n ! c) = r_currentTerm n \<and>
       majority n \<le> match_count n c"
proof -
  let ?P = "\<lambda>i. e_Term (r_log n ! i) = r_currentTerm n \<and> majority n \<le> match_count n i"
  let ?c = "fold (\<lambda>i c. if ?P i then i else c) [r_commitIndex n + 1..<length (r_log n)] (r_commitIndex n)"
  have "advanceCommit n = n\<lparr>r_commitIndex := ?c\<rparr>" unfolding advanceCommit_def by (rule advanceCommit_eq)
  moreover have "?c = r_commitIndex n \<or> r_commitIndex n < ?c \<and> ?c < length (r_log n) \<and> ?P ?c"
    using fold_last_index [of ?P "[r_commitIndex n + 1..<length (r_log n)]" "r_commitIndex n"] by auto
  ultimately show thesis by (rule that)
qed

lemma appendReply_outcome:
  assumes "raft_inv n"
  obtains s' n' ms where "appendReply ap e peerID req reply s n = Some (s', n', ms)" "raft_inv n'"
    "r_id n' = r_id n" "r_log n' = r_log n" "r_currentTerm n \<le> r_currentTerm n'"
    "r_currentTerm n < r_currentTerm n' \<Longrightarrow> r_role n' = RoleFollower \<and> r_votedFor n' = []"
    "r_currentTerm n' = r_currentTerm n \<Longrightarrow> r_role n' = r_role n \<and> r_votedFor n' = r_votedFor n"
    "static ap \<Longrightarrow> r_peers n' = r_peers n \<and> (\<forall>m\<in>set ms. is_send m \<longrightarrow> append_of n' m \<and> r_role n' = RoleLeader)"
proof (cases reply)
  case None
  with assms show thesis by (intro that [of s n "[]"]) (auto simp: appendReply_def)
next
  case (Some resp)
  consider (newer) "r_currentTerm n < aer_Term resp"
    | (stale) "\<not> r_currentTerm n < aer_Term resp" "r_role n \<noteq> RoleLeader \<or> ae_Term req \<noteq> r_currentTerm n"
    | (reject) "\<not> r_currentTerm n < aer_Term resp" "r_role n = RoleLeader" "ae_Term req = r_currentTerm n" "\<not> aer_Success resp"
    | (ack) "\<not> r_currentTerm n < aer_Term resp" "r_role n = RoleLeader" "ae_Term req = r_currentTerm n" "aer_Success resp"
    by blast
  then show thesis
  proof cases
    case newer
    with Some assms show thesis
      by (intro that [of s "becomeFollower e (aer_Term resp) [] n" "[]"]) (auto simp: appendReply_def)
  next
    case stale
    with Some assms show thesis by (intro that [of s n "[]"]) (auto simp: appendReply_def)
  next
    case reject
    define n1 where "n1 = (let next = (case map_of (r_nextIndex n) peerID of None \<Rightarrow> 0 | Some i \<Rightarrow> i)
      in if 1 < next then n\<lparr>r_nextIndex := AList.update peerID (next - 1) (r_nextIndex n)\<rparr> else n)"
    have n1: "raft_inv n1" "core n1 = core n" "r_peers n1 = r_peers n" using assms by (simp_all add: n1_def Let_def)
    obtain n2 ms where n2: "replicate_log n1 = Some (n2, ms)" "core n2 = core n1" "raft_inv n2"
      "\<forall>m\<in>set ms. append_of n1 m" "r_peers n2 = r_peers n1"
      by (rule replicate_log_inv [OF n1(1)])
    have eq: "appendReply ap e peerID req reply s n = Some (s, n2, ms)"
      using reject Some n2(1) by (simp add: appendReply_def n1_def Let_def)
    have "append_of n2 = append_of n1" using coreD [OF n2(2)] n2(5) by (simp add: append_of_def fun_eq_iff)
    then show thesis
      using reject(2) n1 n2 coreD [OF n1(2)] coreD [OF n2(2)] by (intro that [OF eq]) simp_all
  next
    case ack
    define n1 where "n1 = (if ae_Entries req \<noteq> []
                         then let lastIndex = e_Index (last (ae_Entries req))
                              in n\<lparr>r_matchIndex := AList.update peerID lastIndex (r_matchIndex n),
                                   r_nextIndex := AList.update peerID (lastIndex + 1) (r_nextIndex n)\<rparr>
                         else n)"
    have n1: "raft_inv n1" "core n1 = core n" "r_peers n1 = r_peers n" "r_lastApplied n1 = r_lastApplied n"
      using assms by (simp_all add: n1_def Let_def)
    obtain c where c: "advanceCommit n1 = n1\<lparr>r_commitIndex := c\<rparr>"
      "c = r_commitIndex n1 \<or> r_commitIndex n1 < c \<and> c < length (r_log n1) \<and>
        e_Term (r_log n1 ! c) = r_currentTerm n1 \<and> majority n1 \<le> match_count n1 c" by (rule advanceCommit_outcome)
    let ?n2 = "n1\<lparr>r_commitIndex := c\<rparr>"
    have "raft_pre ?n2" using n1(1) c(2) by (auto simp: raft_pre_def raft_inv_def)
    then obtain n3 ms where n3: "applyCommitted ap s ?n2 = Some (fold (\<lambda>ent s. fst (ap ent s)) (applied ms) s, n3, ms)"
      "core n3 = core ?n2" "raft_inv n3" "r_lastApplied n3 = max (r_lastApplied ?n2) (r_commitIndex ?n2)"
      "applied ms = map (\<lambda>i. r_log ?n2 ! i) [r_lastApplied ?n2 + 1..<r_commitIndex ?n2 + 1]"
      "static ap \<longrightarrow> r_peers n3 = r_peers ?n2 \<and> (\<forall>m\<in>set ms. \<not> is_send m)"
      by (rule applyCommitted_inv [of ?n2 ap s])
    obtain n4 ms' where n4: "replicate_log n3 = Some (n4, ms')" "core n4 = core n3" "raft_inv n4"
      "\<forall>m\<in>set ms'. append_of n3 m" "r_peers n4 = r_peers n3"
      by (rule replicate_log_inv [OF n3(3)])
    have eq: "appendReply ap e peerID req reply s n =
        Some (fold (\<lambda>ent s. fst (ap ent s)) (applied ms) s, n4, ms @ ms')"
      using ack Some n3(1) n4(1) unfolding appendReply_def n1_def [symmetric] c(1) by (simp add: c(1) [symmetric] n1_def [symmetric] Let_def)
    have "append_of n4 = append_of n3" using coreD [OF n4(2)] n4(5) by (simp add: append_of_def fun_eq_iff)
    then show thesis
      using ack(2) n1 n3 n4 coreD [OF n1(2)] coreD [OF n3(2)] coreD [OF n4(2)] by (intro that [OF eq]) auto
  qed
qed

lemma Propose_outcome:
  assumes "raft_inv n" and "r_role n = RoleLeader"
  obtains s' n' ms where "Propose ap w cmd s n = Some (Inr (length (r_log n), s', n', ms))" "raft_inv n'"
    "r_id n' = r_id n" "r_log n' = r_log n @ [\<lparr>e_Term = r_currentTerm n, e_Index = length (r_log n), e_Command = cmd\<rparr>]"
    "r_currentTerm n' = r_currentTerm n" "r_role n' = RoleLeader" "r_votedFor n' = r_votedFor n"
    "static ap \<Longrightarrow> r_peers n' = r_peers n \<and> (\<forall>m\<in>set ms. is_send m \<longrightarrow> append_of n' m)"
proof -
  let ?e = "\<lparr>e_Term = r_currentTerm n, e_Index = length (r_log n), e_Command = cmd\<rparr>"
  define n1 where "n1 = n\<lparr>r_log := r_log n @ [?e],
    r_proposals := AList.update (length (r_log n)) \<lparr>pr_command = cmd, pr_notify = w\<rparr> (r_proposals n)\<rparr>"
  have n1: "raft_inv n1" "r_id n1 = r_id n" "r_log n1 = r_log n @ [?e]" "r_currentTerm n1 = r_currentTerm n"
    "r_role n1 = RoleLeader" "r_votedFor n1 = r_votedFor n" "r_peers n1 = r_peers n" "r_lastApplied n1 = r_lastApplied n"
    using assms by (auto simp: n1_def raft_inv_def indexed_append)
  show thesis
  proof (cases "peerAddrs n1 = []")
    case True
    let ?n2 = "n1\<lparr>r_commitIndex := length (r_log n)\<rparr>"
    have "raft_pre ?n2" using n1(1,3) by (simp add: raft_pre_def raft_inv_def)
    then obtain n3 ms where n3: "applyCommitted ap s ?n2 = Some (fold (\<lambda>ent s. fst (ap ent s)) (applied ms) s, n3, ms)"
      "core n3 = core ?n2" "raft_inv n3" "r_lastApplied n3 = max (r_lastApplied ?n2) (r_commitIndex ?n2)"
      "applied ms = map (\<lambda>i. r_log ?n2 ! i) [r_lastApplied ?n2 + 1..<r_commitIndex ?n2 + 1]"
      "static ap \<longrightarrow> r_peers n3 = r_peers ?n2 \<and> (\<forall>m\<in>set ms. \<not> is_send m)"
      by (rule applyCommitted_inv [of ?n2 ap s])
    then have eq: "Propose ap w cmd s n =
        Some (Inr (length (r_log n), fold (\<lambda>ent s. fst (ap ent s)) (applied ms) s, n3, ms))"
      using True assms(2) unfolding Propose_def n1_def [symmetric] Let_def by simp
    show thesis using n1 n3 coreD [OF n3(2)] by (intro that [OF eq]) auto
  next
    case False
    obtain n2 ms where n2: "replicate_log n1 = Some (n2, ms)" "core n2 = core n1" "raft_inv n2"
      "\<forall>m\<in>set ms. append_of n1 m" "r_peers n2 = r_peers n1" by (rule replicate_log_inv [OF n1(1)])
    then have eq: "Propose ap w cmd s n = Some (Inr (length (r_log n), s, n2, ms))"
      using False assms(2) unfolding Propose_def n1_def [symmetric] Let_def by simp
    have "append_of n2 = append_of n1" using coreD [OF n2(2)] n2(5) by (simp add: append_of_def fun_eq_iff)
    then show thesis using n1 n2 coreD [OF n2(2)] by (intro that [OF eq]) auto
  qed
qed

subsection \<open>Runs of one node\<close>

text \<open>Everything that can happen to a node: an RPC from a peer, the reply to one of its own, a timer, a call.\<close>

datatype raft_input =
    VoteRequestIn RequestVoteRequest
  | VoteReplyIn "RequestVoteResponse option"
  | ElectionWonIn nat
  | AppendRequestIn AppendEntriesRequest
  | AppendReplyIn string AppendEntriesRequest "AppendEntriesResponse option"
  | ProposeIn nat Command
  | ProposeCanceledIn nat
  | TickIn
  | ForceTimeoutIn
  | AppendLocalIn Command
  | AddPeerIn string string
  | RemovePeerIn string
  | SetPeerAddrIn string string
  | SetAddrIn string

fun tick_node :: "tick_result \<Rightarrow> RaftNode" where
  "tick_node (Idle n) = n"
| "tick_node (Heartbeat n ms) = n"
| "tick_node (Elect n el ms) = n"

fun raft_step :: "'s apply_fun \<Rightarrow> env \<times> raft_input \<Rightarrow> 's \<times> RaftNode \<Rightarrow> ('s \<times> RaftNode) option" where
  "raft_step ap (e, VoteRequestIn req) (s, n) = map_option (\<lambda>(n', resp). (s, n')) (HandleRequestVote e req n)"
| "raft_step ap (e, VoteReplyIn reply) (s, n) = Some (s, fst (voteReply e reply n))"
| "raft_step ap (e, ElectionWonIn t) (s, n) = map_option (\<lambda>(n', ms). (s, n')) (electionWon e t n)"
| "raft_step ap (e, AppendRequestIn req) (s, n) =
     map_option (\<lambda>(s', n', ms, resp). (s', n')) (HandleAppendEntries ap e req s n)"
| "raft_step ap (e, AppendReplyIn p req reply) (s, n) =
     map_option (\<lambda>(s', n', ms). (s', n')) (appendReply ap e p req reply s n)"
| "raft_step ap (e, ProposeIn w cmd) (s, n) =
     map_option (\<lambda>r. case r of Inl err \<Rightarrow> (s, n) | Inr (i, s', n', ms) \<Rightarrow> (s', n')) (Propose ap w cmd s n)"
| "raft_step ap (e, ProposeCanceledIn i) (s, n) = Some (s, proposeCanceled i n)"
| "raft_step ap (e, TickIn) (s, n) = map_option (\<lambda>t. (s, tick_node t)) (tick e n)"
| "raft_step ap (e, ForceTimeoutIn) (s, n) = map_option (\<lambda>t. (s, tick_node t)) (ForceElectionTimeout e n)"
| "raft_step ap (e, AppendLocalIn cmd) (s, n) =
     map_option (\<lambda>r. case r of Inl err \<Rightarrow> (s, n) | Inr (s', n', ms) \<Rightarrow> (s', n')) (AppendLocalEntry ap cmd s n)"
| "raft_step ap (e, AddPeerIn i addr) (s, n) = map_option (\<lambda>(n', ms). (s, n')) (AddPeer i addr n)"
| "raft_step ap (e, RemovePeerIn i) (s, n) = Some (s, RemovePeer i n)"
| "raft_step ap (e, SetPeerAddrIn i addr) (s, n) = Some (s, SetPeerAddr i addr n)"
| "raft_step ap (e, SetAddrIn addr) (s, n) = Some (s, SetAddr addr n)"

fun raft_run :: "'s apply_fun \<Rightarrow> (env \<times> raft_input) list \<Rightarrow> 's \<times> RaftNode \<Rightarrow> ('s \<times> RaftNode) option" where
  "raft_run ap [] st = Some st"
| "raft_run ap (i # its) st = do { st' \<leftarrow> raft_step ap i st; raft_run ap its st' }"

lemma NewNode_inv: "distinct (map fst peers) \<Longrightarrow> raft_inv (NewNode e i addr peers cfg)"
  by (simp add: NewNode_def raft_inv_def indexed_def)

lemma AddPeer_inv:
  assumes "raft_inv n"
  shows "\<exists>n' ms. AddPeer i addr n = Some (n', ms) \<and> raft_inv n'"
proof -
  obtain n' ms where "AddPeer i addr n = Some (n', ms)" "core n' = core n" "r_lastApplied n' = r_lastApplied n"
    "distinct (map fst (r_peers n'))" using AddPeer_ok [of n i addr] assms by (auto simp: raft_inv_def)
  with assms coreD [of n' n] show ?thesis by (auto simp: raft_inv_def)
qed

lemma tick_inv:
  assumes "raft_inv n"
  shows "\<exists>t. tick e n = Some t \<and> raft_inv (tick_node t)"
proof (cases "r_role n = RoleLeader")
  case True
  obtain n' ms where "replicate_log n = Some (n', ms)" "raft_inv n'" by (rule replicate_log_inv [OF assms])
  with True assms show ?thesis by (simp add: tick_def)
next
  case False
  obtain n1 el ms where 1: "startElection e n = Some (n1, el, ms)" "raft_inv n1"
    by (rule startElection_outcome [OF assms, of e])
  obtain n2 ms' where "electionWon e (el_term el) n1 = Some (n2, ms')" "raft_inv n2"
    by (rule electionWon_outcome [OF 1(2), of e "el_term el"])
  with 1 False assms show ?thesis by (simp add: tick_def)
qed

lemma raft_step_inv:
  assumes "raft_inv n"
  shows "\<exists>s' n'. raft_step ap (e, i) (s, n) = Some (s', n') \<and> raft_inv n'"
proof (cases i)
  case (VoteRequestIn req)
  show ?thesis unfolding VoteRequestIn by (rule HandleRequestVote_outcome [OF assms, of e req]) simp
next
  case (VoteReplyIn reply)
  show ?thesis unfolding VoteReplyIn using assms by (auto simp: voteReply_def Let_def)
next
  case (ElectionWonIn t)
  show ?thesis unfolding ElectionWonIn by (rule electionWon_outcome [OF assms, of e t]) simp
next
  case (AppendRequestIn req)
  show ?thesis unfolding AppendRequestIn by (rule HandleAppendEntries_outcome [OF assms, of ap e req s]) simp
next
  case (AppendReplyIn p req reply)
  show ?thesis unfolding AppendReplyIn by (rule appendReply_outcome [OF assms, of ap e p req reply s]) simp
next
  case (ProposeIn w cmd)
  show ?thesis
  proof (cases "r_role n = RoleLeader")
    case True
    show ?thesis unfolding ProposeIn by (rule Propose_outcome [OF assms True, of ap w cmd s]) simp
  next
    case False
    with assms show ?thesis by (simp add: ProposeIn Propose_def)
  qed
next
  case (AppendLocalIn cmd)
  show ?thesis
  proof (cases "r_role n = RoleLeader")
    case True
    let ?n = "n\<lparr>r_log := r_log n @ [\<lparr>e_Term = r_currentTerm n, e_Index = length (r_log n), e_Command = cmd\<rparr>],
                  r_commitIndex := length (r_log n)\<rparr>"
    have pre: "raft_pre ?n" using assms by (auto simp: raft_pre_def raft_inv_def indexed_append)
    show ?thesis
      by (rule applyCommitted_inv [OF pre, of ap s]) (simp add: AppendLocalIn AppendLocalEntry_def True Let_def)
  next
    case False
    with assms show ?thesis by (simp add: AppendLocalIn AppendLocalEntry_def)
  qed
next
  case TickIn
  then show ?thesis using tick_inv [OF assms, of e] by auto
next
  case ForceTimeoutIn
  then show ?thesis
    using tick_inv [of "n\<lparr>r_electionDeadline := en_now e - millisecond\<rparr>" e] assms
    by (auto simp: ForceElectionTimeout_def)
next
  case (AddPeerIn p addr)
  then show ?thesis using AddPeer_inv [OF assms, of p addr] by auto
qed (use assms in \<open>auto simp: proposeCanceled_def RemovePeer_def SetPeerAddr_def SetAddr_def raft_inv_def
      distinct_delete distinct_update\<close>)

lemma raft_run_inv:
  "raft_inv n \<Longrightarrow> \<exists>s' n'. raft_run ap its (s, n) = Some (s', n') \<and> raft_inv n'"
proof (induction its arbitrary: s n)
  case (Cons i its)
  obtain e inp where i: "i = (e, inp)" by (cases i)
  obtain s1 n1 where 1: "raft_step ap (e, inp) (s, n) = Some (s1, n1)" "raft_inv n1"
    using raft_step_inv [OF Cons.prems, of ap e inp s] by blast
  from Cons.IH [OF 1(2), of s1] 1(1) show ?case by (simp add: i)
qed simp

lemma append_of_positioned:
  assumes "raft_inv l" and "append_of l (SendAppendEntries p addr req)"
  shows "ae_Term req = r_currentTerm l" and "ae_PrevLogIndex req < length (r_log l)"
    and "ae_PrevLogTerm req = e_Term (r_log l ! ae_PrevLogIndex req)"
    and "ae_Entries req = drop (ae_PrevLogIndex req + 1) (r_log l)"
  using assms(2) by (auto simp: append_of_def)

text \<open>A request of a leader applied to a log that agrees with the leader's up to the previous entry.\<close>

lemma appended_agrees:
  assumes "indexed ll" and "k < length ll" and "ae_PrevLogIndex req = k" and "ae_Entries req = take m (drop (k + 1) ll)"
    and "take (k + 1) fl = take (k + 1) ll"
  shows "appended req fl = take (k + 1 + m) ll"
proof -
  have len: "length (take (k + 1) fl) = k + 1" using assms(2,5) by simp
  have "foldl appendEntry (take (k + 1) fl) (ae_Entries req) = take (k + 1) fl @ ae_Entries req"
  proof (rule appendEntries_positioned)
    fix i
    assume i: "i < length (ae_Entries req)"
    then have "Suc (k + i) < length ll" unfolding assms(4) by auto
    with i show "e_Index (ae_Entries req ! i) = length (take (k + 1) fl) + i"
      using assms(1,2) unfolding assms(4) len by (simp add: indexed_def)
  qed
  then have "appended req fl = take (k + 1) ll @ take m (drop (k + 1) ll)"
    unfolding appended_def assms(3,4) by (simp only: assms(5))
  then show ?thesis by (simp only: take_add)
qed

section \<open>Properties\<close>

definition demo_env :: env where
  "demo_env = \<lparr>en_now = 0, en_rand = 0\<rparr>"

definition demo_apply :: "Entry list apply_fun" where
  "demo_apply ent s = (s @ [ent], [])"




definition demo_entry :: "nat \<Rightarrow> nat \<Rightarrow> string \<Rightarrow> Entry" where
  "demo_entry t i k = \<lparr>e_Term = t, e_Index = i, e_Command = (empty_Command CommandNoop)\<lparr>c_Key := k\<rparr>\<rparr>"

definition demo_follower :: RaftNode where
  "demo_follower = NewNode demo_env ''b'' ''h2'' [(''a'', ''h1''), (''c'', ''h3'')] DefaultRaftConfig"

definition demo_leader :: RaftNode where
  "demo_leader = (NewNode demo_env ''a'' ''h1'' [(''b'', ''h2''), (''c'', ''h3'')] DefaultRaftConfig)
     \<lparr>r_role := RoleLeader, r_currentTerm := 1, r_votedFor := ''a'',
      r_log := [demo_entry 0 0 [], demo_entry 1 1 ''x'', demo_entry 1 2 ''y'']\<rparr>"

definition demo_append :: AppendEntriesRequest where
  "demo_append = \<lparr>ae_Term = 1, ae_LeaderID = ''a'', ae_PrevLogIndex = 0, ae_PrevLogTerm = 0,
     ae_Entries = [demo_entry 1 1 ''x'', demo_entry 1 2 ''y''], ae_LeaderCommit = 0\<rparr>"

lemma demo_follower_inv: "raft_inv demo_follower"
  unfolding demo_follower_def by (rule NewNode_inv) simp

lemma demo_leader_inv: "raft_inv demo_leader"
  by (auto simp: demo_leader_def raft_inv_def indexed_def NewNode_def demo_entry_def less_Suc_eq)

lemma demo_log: "r_log demo_follower = [demo_entry 0 0 []]" "r_currentTerm demo_follower = 0"
  by (simp_all add: demo_follower_def NewNode_def demo_entry_def empty_Command_def)


text \<open>
  C32: An accepted request cuts the log after the entries it carries, whether or not they agree with
  it. So a delayed request that repeats entries the follower already has erases everything behind
  them: entries that the follower acknowledged and may have committed are gone, while its commit
  index stays, and the follower reports success.
\<close>

theorem delayed_append_erases:
  assumes "raft_inv n" and "ae_Term req = r_currentTerm n" and "ae_PrevLogIndex req = k" and "k < length (r_log n)"
    and "ae_PrevLogTerm req = e_Term (r_log n ! k)" and "ae_Entries req = take m (drop (k + 1) (r_log n))"
    and "k + 1 + m < length (r_log n)" and "ae_LeaderCommit req \<le> r_commitIndex n"
  shows "\<exists>s' n' ms resp. HandleAppendEntries ap e req s n = Some (s', n', ms, resp) \<and> aer_Success resp \<and>
    r_log n' = take (k + 1 + m) (r_log n) \<and> length (r_log n') < length (r_log n) \<and>
    r_commitIndex n' = r_commitIndex n"
proof -
  have acc: "accepts_append req n" using assms by (simp add: accepts_append_def)
  have app: "appended req (r_log n) = take (k + 1 + m) (r_log n)"
    using assms(1) by (intro appended_agrees [OF _ assms(4,3,6) refl]) (simp add: raft_inv_def)
  show ?thesis
    by (rule HandleAppendEntries_outcome [OF assms(1), of ap e req s]) (use acc app assms(7,8) in auto)
qed

theorem delayed_append_erases_witness:
  "\<exists>s' n' ms resp. HandleAppendEntries demo_apply demo_env
      \<lparr>ae_Term = 1, ae_LeaderID = ''c'', ae_PrevLogIndex = 0, ae_PrevLogTerm = 0,
       ae_Entries = [demo_entry 1 1 ''x''], ae_LeaderCommit = 0\<rparr> [] (demo_leader\<lparr>r_role := RoleFollower, r_commitIndex := 2, r_lastApplied := 2\<rparr>) =
      Some (s', n', ms, resp) \<and> aer_Success resp \<and>
    r_log n' = take (0 + 1 + 1) (r_log (demo_leader\<lparr>r_role := RoleFollower, r_commitIndex := 2, r_lastApplied := 2\<rparr>)) \<and>
    length (r_log n') < length (r_log (demo_leader\<lparr>r_role := RoleFollower, r_commitIndex := 2, r_lastApplied := 2\<rparr>)) \<and>
    r_commitIndex n' = r_commitIndex (demo_leader\<lparr>r_role := RoleFollower, r_commitIndex := 2, r_lastApplied := 2\<rparr>)"
  by (rule delayed_append_erases)
    (use demo_leader_inv in \<open>auto simp: raft_inv_def demo_leader_def demo_entry_def\<close>)


end
