(* ===== verification/Raft_Election.thy ===== *)
theory Raft_Election
  imports Raft_Node
begin

text \<open>
  A cluster of Raft nodes with a fixed membership: the goroutines of \<open>internal/raft/node.go\<close> that
  carry the RPCs, as a step relation. A message, once sent, stays in the set of messages, so that the
  network may lose, delay, reorder and duplicate; the transport is assumed to deliver a request to
  the node whose identifier it was sent to. The goroutine of a vote request counts its vote at most
  once, so the record of an election remembers the voters it has counted. A won election is recorded
  before the node takes the mutex to become leader, as other steps may come in between. The set
  \<open>nt_elected\<close> is a history variable: the nodes that became leader, with their terms.
\<close>

section \<open>Definitions\<close>

datatype msg =
    VoteReq string string RequestVoteRequest
  | VoteResp string string RequestVoteRequest RequestVoteResponse
  | AppReq string string AppendEntriesRequest
  | AppResp string string AppendEntriesRequest AppendEntriesResponse

record 's net =
  nt_nodes :: "string \<Rightarrow> RaftNode"
  nt_apps :: "string \<Rightarrow> 's"
  nt_msgs :: "msg set"
  nt_ballots :: "string \<times> nat \<Rightarrow> (election \<times> string set) option"
  nt_won :: "(string \<times> nat) set"
  nt_elected :: "(string \<times> nat) set"

definition sent :: "string \<Rightarrow> effect list \<Rightarrow> msg set" where
  "sent i ms = {VoteReq i p req | p addr req. SendRequestVote p addr req \<in> set ms} \<union>
     {AppReq i p req | p addr req. SendAppendEntries p addr req \<in> set ms}"

inductive net_step :: "'s apply_fun \<Rightarrow> string set \<Rightarrow> 's net \<Rightarrow> 's net \<Rightarrow> bool" for ap ids where
  timeout:
    "i \<in> ids \<Longrightarrow> r_role (nt_nodes s i) \<noteq> RoleLeader \<Longrightarrow> r_currentTerm (nt_nodes s i) + 1 < 2 ^ 64 \<Longrightarrow>
     startElection e (nt_nodes s i) = Some (n', el, ms) \<Longrightarrow>
     net_step ap ids s (s\<lparr>nt_nodes := (nt_nodes s)(i := n'), nt_msgs := nt_msgs s \<union> sent i ms,
       nt_ballots := (nt_ballots s)((i, el_term el) \<mapsto> (el, {})),
       nt_won := nt_won s \<union> (if peerAddrs n' = [] then {(i, el_term el)} else {})\<rparr>)"
| vote:
    "VoteReq c v req \<in> nt_msgs s \<Longrightarrow> HandleRequestVote e req (nt_nodes s v) = Some (n', resp) \<Longrightarrow>
     net_step ap ids s (s\<lparr>nt_nodes := (nt_nodes s)(v := n'), nt_msgs := insert (VoteResp v c req resp) (nt_msgs s)\<rparr>)"
| vote_refused:
    "VoteResp v c req resp \<in> nt_msgs s \<Longrightarrow> voteReply e (Some resp) (nt_nodes s c) = (n', False) \<Longrightarrow>
     net_step ap ids s (s\<lparr>nt_nodes := (nt_nodes s)(c := n')\<rparr>)"
| vote_counted:
    "VoteResp v c req resp \<in> nt_msgs s \<Longrightarrow> nt_ballots s (c, rv_Term req) = Some (el, counted) \<Longrightarrow> v \<notin> counted \<Longrightarrow>
     voteReply e (Some resp) (nt_nodes s c) = (n', True) \<Longrightarrow> countVote el = (el', win) \<Longrightarrow>
     net_step ap ids s (s\<lparr>nt_nodes := (nt_nodes s)(c := n'),
       nt_ballots := (nt_ballots s)((c, rv_Term req) \<mapsto> (el', insert v counted)),
       nt_won := nt_won s \<union> (if win then {(c, rv_Term req)} else {})\<rparr>)"
| win:
    "(c, t) \<in> nt_won s \<Longrightarrow> electionWon e t (nt_nodes s c) = Some (n', ms) \<Longrightarrow>
     net_step ap ids s (s\<lparr>nt_nodes := (nt_nodes s)(c := n'),
       nt_elected := nt_elected s \<union> (if r_role (nt_nodes s c) = RoleCandidate \<and> r_currentTerm (nt_nodes s c) = t
         then {(c, t)} else {}),
       nt_msgs := nt_msgs s \<union> sent c ms\<rparr>)"
| append:
    "AppReq l v req \<in> nt_msgs s \<Longrightarrow> HandleAppendEntries ap e req (nt_apps s v) (nt_nodes s v) = Some (a', n', ms, resp) \<Longrightarrow>
     net_step ap ids s (s\<lparr>nt_nodes := (nt_nodes s)(v := n'), nt_apps := (nt_apps s)(v := a'),
       nt_msgs := insert (AppResp v l req resp) (nt_msgs s \<union> sent v ms)\<rparr>)"
| append_reply:
    "AppResp v l req resp \<in> nt_msgs s \<Longrightarrow>
     appendReply ap e v req (Some resp) (nt_apps s l) (nt_nodes s l) = Some (a', n', ms) \<Longrightarrow>
     net_step ap ids s (s\<lparr>nt_nodes := (nt_nodes s)(l := n'), nt_apps := (nt_apps s)(l := a'), nt_msgs := nt_msgs s \<union> sent l ms\<rparr>)"
| heartbeat:
    "i \<in> ids \<Longrightarrow> r_role (nt_nodes s i) = RoleLeader \<Longrightarrow> replicate_log (nt_nodes s i) = Some (n', ms) \<Longrightarrow>
     net_step ap ids s (s\<lparr>nt_nodes := (nt_nodes s)(i := resetHeartbeatDeadline e n'), nt_msgs := nt_msgs s \<union> sent i ms\<rparr>)"
| propose:
    "i \<in> ids \<Longrightarrow> Propose ap w cmd (nt_apps s i) (nt_nodes s i) = Some (Inr (k, a', n', ms)) \<Longrightarrow>
     net_step ap ids s (s\<lparr>nt_nodes := (nt_nodes s)(i := n'), nt_apps := (nt_apps s)(i := a'), nt_msgs := nt_msgs s \<union> sent i ms\<rparr>)"
| cancel:
    "i \<in> ids \<Longrightarrow> net_step ap ids s (s\<lparr>nt_nodes := (nt_nodes s)(i := proposeCanceled k (nt_nodes s i))\<rparr>)"

text \<open>The start: every node is fresh and has the other members as its peers.\<close>

definition net_start :: "string set \<Rightarrow> 's net \<Rightarrow> bool" where
  "net_start ids s \<longleftrightarrow>
     (\<forall>i\<in>ids. \<exists>e addr peers cfg. nt_nodes s i = NewNode e i addr peers cfg \<and>
        distinct (map fst peers) \<and> fst ` set peers = ids - {i}) \<and>
     nt_msgs s = {} \<and> nt_ballots s = (\<lambda>_. None) \<and> nt_won s = {} \<and> nt_elected s = {}"

inductive net_reachable :: "'s apply_fun \<Rightarrow> string set \<Rightarrow> 's net \<Rightarrow> bool" for ap ids where
  start: "net_start ids s \<Longrightarrow> net_reachable ap ids s"
| step: "net_reachable ap ids s \<Longrightarrow> net_step ap ids s s' \<Longrightarrow> net_reachable ap ids s'"

section \<open>Invariant\<close>

definition granted :: "'s net \<Rightarrow> string \<Rightarrow> string \<Rightarrow> nat \<Rightarrow> bool" where
  "granted s v c t \<longleftrightarrow> (\<exists>req resp. VoteResp v c req resp \<in> nt_msgs s \<and> rvr_VoteGranted resp \<and> rv_Term req = t)"

definition quorum_for :: "string set \<Rightarrow> 's net \<Rightarrow> string \<Rightarrow> nat \<Rightarrow> bool" where
  "quorum_for ids s c t \<longleftrightarrow> c \<in> ids \<and> (\<exists>Q \<subseteq> ids. c \<in> Q \<and> (card ids - 1) div 2 + 1 \<le> card Q \<and>
     (\<forall>v\<in>Q - {c}. granted s v c t))"

definition node_ok :: "string set \<Rightarrow> (string \<times> nat) set \<Rightarrow> string \<Rightarrow> RaftNode \<Rightarrow> bool" where
  "node_ok ids E i n \<longleftrightarrow> r_id n = i \<and> raft_inv n \<and> fst ` set (r_peers n) = ids - {i} \<and>
     (r_role n \<noteq> RoleFollower \<longrightarrow> r_votedFor n = i) \<and> (r_role n = RoleLeader \<longrightarrow> (i, r_currentTerm n) \<in> E)"

definition nodes_ok :: "string set \<Rightarrow> 's net \<Rightarrow> bool" where
  "nodes_ok ids s \<longleftrightarrow> (\<forall>i\<in>ids. node_ok ids (nt_elected s) i (nt_nodes s i))"

definition msgs_ok :: "string set \<Rightarrow> 's net \<Rightarrow> bool" where
  "msgs_ok ids s \<longleftrightarrow>
     (\<forall>c v req. VoteReq c v req \<in> nt_msgs s \<longrightarrow> c \<in> ids \<and> v \<in> ids \<and> v \<noteq> c \<and> rv_CandidateID req = c) \<and>
     (\<forall>v c req resp. VoteResp v c req resp \<in> nt_msgs s \<longrightarrow> VoteReq c v req \<in> nt_msgs s) \<and>
     (\<forall>l v req. AppReq l v req \<in> nt_msgs s \<longrightarrow> l \<in> ids \<and> v \<in> ids \<and> v \<noteq> l \<and> (l, ae_Term req) \<in> nt_elected s) \<and>
     (\<forall>v l req resp. AppResp v l req resp \<in> nt_msgs s \<longrightarrow> AppReq l v req \<in> nt_msgs s)"

text \<open>A node that granted a vote is past that term or still follows with this vote.\<close>

definition bound_by :: "string \<Rightarrow> nat \<Rightarrow> RaftNode \<Rightarrow> bool" where
  "bound_by c t n \<longleftrightarrow> t < r_currentTerm n \<or> t = r_currentTerm n \<and> r_role n = RoleFollower \<and> r_votedFor n = c"

definition grants_ok :: "'s net \<Rightarrow> bool" where
  "grants_ok s \<longleftrightarrow> (\<forall>v c t. granted s v c t \<longrightarrow> bound_by c t (nt_nodes s v)) \<and>
     (\<forall>v c c' t. granted s v c t \<longrightarrow> granted s v c' t \<longrightarrow> c = c')"

definition ballot_ok :: "string set \<Rightarrow> 's net \<Rightarrow> string \<Rightarrow> nat \<Rightarrow> election \<Rightarrow> string set \<Rightarrow> bool" where
  "ballot_ok ids s c t el S \<longleftrightarrow> c \<in> ids \<and> el_majority el = (card ids - 1) div 2 + 1 \<and> el_votes el = card S + 1 \<and>
     finite S \<and> S \<subseteq> ids - {c} \<and> (\<forall>v\<in>S. granted s v c t)"

definition ballots_ok :: "string set \<Rightarrow> 's net \<Rightarrow> bool" where
  "ballots_ok ids s \<longleftrightarrow>
     (\<forall>c t el S. nt_ballots s (c, t) = Some (el, S) \<longrightarrow> ballot_ok ids s c t el S) \<and>
     (\<forall>c t. nt_ballots s (c, t) \<noteq> None \<longrightarrow> t \<le> r_currentTerm (nt_nodes s c)) \<and>
     (\<forall>c t. (c, t) \<in> nt_won s \<longrightarrow> quorum_for ids s c t)"

text \<open>A node that was elected in a term is past that term or still leads it.\<close>

definition led :: "nat \<Rightarrow> RaftNode \<Rightarrow> bool" where
  "led t n \<longleftrightarrow> t < r_currentTerm n \<or> t = r_currentTerm n \<and> r_role n = RoleLeader"

definition elected_ok :: "string set \<Rightarrow> 's net \<Rightarrow> bool" where
  "elected_ok ids s \<longleftrightarrow> (\<forall>c t. (c, t) \<in> nt_elected s \<longrightarrow> quorum_for ids s c t \<and> led t (nt_nodes s c) \<and>
     (\<forall>c'. \<not> granted s c c' t))"

definition election_inv :: "string set \<Rightarrow> 's net \<Rightarrow> bool" where
  "election_inv ids s \<longleftrightarrow> nodes_ok ids s \<and> msgs_ok ids s \<and> grants_ok s \<and> ballots_ok ids s \<and> elected_ok ids s"

lemmas election_defs = election_inv_def nodes_ok_def msgs_ok_def grants_ok_def ballots_ok_def elected_ok_def

section \<open>Lemmas\<close>

lemma grants_okD:
  "grants_ok s \<Longrightarrow> granted s v c t \<Longrightarrow> bound_by c t (nt_nodes s v)"
  "grants_ok s \<Longrightarrow> granted s v c t \<Longrightarrow> granted s v c' t \<Longrightarrow> c = c'"
  unfolding grants_ok_def by simp_all

lemma msgs_okD:
  assumes "msgs_ok ids s"
  shows "VoteReq c v req \<in> nt_msgs s \<Longrightarrow> c \<in> ids \<and> v \<in> ids \<and> v \<noteq> c \<and> rv_CandidateID req = c"
    and "VoteResp v c req resp \<in> nt_msgs s \<Longrightarrow> VoteReq c v req \<in> nt_msgs s"
    and "AppReq l v areq \<in> nt_msgs s \<Longrightarrow> l \<in> ids \<and> v \<in> ids \<and> v \<noteq> l \<and> (l, ae_Term areq) \<in> nt_elected s"
    and "AppResp v l areq aresp \<in> nt_msgs s \<Longrightarrow> AppReq l v areq \<in> nt_msgs s"
  using assms unfolding msgs_ok_def by blast+

lemma elected_okD:
  "elected_ok ids s \<Longrightarrow> (c, t) \<in> nt_elected s \<Longrightarrow> quorum_for ids s c t"
  "elected_ok ids s \<Longrightarrow> (c, t) \<in> nt_elected s \<Longrightarrow> led t (nt_nodes s c)"
  "elected_ok ids s \<Longrightarrow> (c, t) \<in> nt_elected s \<Longrightarrow> \<not> granted s c c' t"
  unfolding elected_ok_def by simp_all

text \<open>Two sets that each hold more than half of the members meet.\<close>

lemma majorities_meet:
  assumes "finite ids" and "odd (card ids)" and "P \<subseteq> ids" and "Q \<subseteq> ids"
    and "(card ids - 1) div 2 + 1 \<le> card P" and "(card ids - 1) div 2 + 1 \<le> card Q"
  shows "P \<inter> Q \<noteq> {}"
proof
  assume "P \<inter> Q = {}"
  then have "card (P \<union> Q) = card P + card Q"
    using assms(1,3,4) finite_subset by (intro card_Un_disjoint) auto
  moreover have "card (P \<union> Q) \<le> card ids" using assms(1,3,4) by (intro card_mono) auto
  moreover have "card ids = 2 * ((card ids - 1) div 2) + 1" using assms(2) by presburger
  ultimately show False using assms(5,6) by linarith
qed

lemma unique_leader:
  assumes "finite ids" and "odd (card ids)" and "grants_ok s" and "elected_ok ids s"
    and "(a, t) \<in> nt_elected s" and "(b, t) \<in> nt_elected s"
  shows "a = b"
proof (rule ccontr)
  assume ab: "a \<noteq> b"
  have a: "quorum_for ids s a t" "\<And>c'. \<not> granted s a c' t" and b: "quorum_for ids s b t" "\<And>c'. \<not> granted s b c' t"
    using elected_okD(1,3) [OF assms(4)] assms(5,6) by simp_all
  obtain P where P: "P \<subseteq> ids" "(card ids - 1) div 2 + 1 \<le> card P" "\<forall>v\<in>P - {a}. granted s v a t"
    using a(1) unfolding quorum_for_def by blast
  obtain Q where Q: "Q \<subseteq> ids" "(card ids - 1) div 2 + 1 \<le> card Q" "\<forall>v\<in>Q - {b}. granted s v b t"
    using b(1) unfolding quorum_for_def by blast
  obtain v where "v \<in> P" "v \<in> Q" using majorities_meet [OF assms(1,2) P(1) Q(1) P(2) Q(2)] by blast
  then have "v = a \<or> granted s v a t" and "v = b \<or> granted s v b t" using P(3) Q(3) by blast+
  with ab a(2) b(2) grants_okD(2) [OF assms(3)] show False by metis
qed

text \<open>What any step keeps of the node it runs on.\<close>

definition evolves :: "RaftNode \<Rightarrow> RaftNode \<Rightarrow> bool" where
  "evolves n n' \<longleftrightarrow> r_id n' = r_id n \<and> raft_inv n' \<and> r_peers n' = r_peers n \<and> r_currentTerm n \<le> r_currentTerm n' \<and>
     (r_role n' \<noteq> RoleFollower \<longrightarrow> r_votedFor n' = r_id n') \<and>
     (r_currentTerm n' = r_currentTerm n \<longrightarrow> r_role n = RoleFollower \<longrightarrow>
        r_role n' = RoleFollower \<and> (r_votedFor n \<noteq> [] \<longrightarrow> r_votedFor n' = r_votedFor n))"

text \<open>A leader stays leader within its term, and nobody becomes leader.\<close>

definition keeps_leader :: "RaftNode \<Rightarrow> RaftNode \<Rightarrow> bool" where
  "keeps_leader n n' \<longleftrightarrow> (r_currentTerm n' = r_currentTerm n \<longrightarrow> r_role n = RoleLeader \<longrightarrow> r_role n' = RoleLeader) \<and>
     (r_role n' = RoleLeader \<longrightarrow> r_role n = RoleLeader \<and> r_currentTerm n' = r_currentTerm n)"

lemma granted_nodes [simp]:
  "granted (s\<lparr>nt_nodes := ns\<rparr>) = granted s" "granted (s\<lparr>nt_apps := as\<rparr>) = granted s"
  "granted (s\<lparr>nt_ballots := bs\<rparr>) = granted s" "granted (s\<lparr>nt_won := ws\<rparr>) = granted s"
  "granted (s\<lparr>nt_elected := es\<rparr>) = granted s"
  by (simp_all add: granted_def fun_eq_iff)

lemma quorum_for_nodes [simp]:
  "quorum_for ids (s\<lparr>nt_nodes := ns\<rparr>) = quorum_for ids s" "quorum_for ids (s\<lparr>nt_apps := as\<rparr>) = quorum_for ids s"
  "quorum_for ids (s\<lparr>nt_ballots := bs\<rparr>) = quorum_for ids s" "quorum_for ids (s\<lparr>nt_won := ws\<rparr>) = quorum_for ids s"
  "quorum_for ids (s\<lparr>nt_elected := es\<rparr>) = quorum_for ids s"
  by (simp_all add: quorum_for_def fun_eq_iff)

lemma inv_apps [simp]:
  "election_inv ids (s\<lparr>nt_nodes := ns, nt_apps := as, nt_msgs := ms\<rparr>) = election_inv ids (s\<lparr>nt_nodes := ns, nt_msgs := ms\<rparr>)"
  by (simp add: election_defs ballot_ok_def granted_def quorum_for_def)

lemma granted_voter:
  assumes "msgs_ok ids s" and "granted s v c t"
  shows "v \<in> ids \<and> c \<in> ids \<and> v \<noteq> c"
  using assms unfolding msgs_ok_def granted_def by blast

lemma evolves_node_ok:
  assumes "node_ok ids E i n" and "evolves n n'" and "keeps_leader n n'"
  shows "node_ok ids E i n'"
proof -
  have "(i, r_currentTerm n') \<in> E" if "r_role n' = RoleLeader"
    using assms(1,3) that unfolding node_ok_def keeps_leader_def by metis
  moreover have "r_id n' = i" "raft_inv n'" "fst ` set (r_peers n') = ids - {i}"
    "r_role n' \<noteq> RoleFollower \<longrightarrow> r_votedFor n' = i"
    using assms(1,2) unfolding node_ok_def evolves_def by metis+
  ultimately show ?thesis unfolding node_ok_def by blast
qed

lemma evolves_bound: "bound_by c t n \<Longrightarrow> c \<noteq> [] \<Longrightarrow> evolves n n' \<Longrightarrow> bound_by c t n'"
  by (auto simp: bound_by_def evolves_def)

lemma evolves_led: "led t n \<Longrightarrow> evolves n n' \<Longrightarrow> keeps_leader n n' \<Longrightarrow> led t n'"
  unfolding led_def evolves_def keeps_leader_def by (elim disjE conjE) linarith+

lemma inv_node:
  assumes inv: "election_inv ids s" and i: "i \<in> ids" and nil: "[] \<notin> ids"
    and ev: "evolves (nt_nodes s i) n'" and kl: "keeps_leader (nt_nodes s i) n'"
  shows "election_inv ids (s\<lparr>nt_nodes := (nt_nodes s)(i := n')\<rparr>)"
proof -
  let ?s = "s\<lparr>nt_nodes := (nt_nodes s)(i := n')\<rparr>"
  have n: "nodes_ok ids s" and m: "msgs_ok ids s" and g: "grants_ok s" and b: "ballots_ok ids s" and e: "elected_ok ids s"
    using inv by (simp_all add: election_inv_def)
  have "nodes_ok ids ?s" using n i evolves_node_ok [OF _ ev kl] by (simp add: nodes_ok_def)
  moreover have "msgs_ok ids ?s" using m by (simp add: msgs_ok_def)
  moreover have "bound_by c t (nt_nodes ?s v)" if "granted s v c t" for v c t
  proof -
    have "bound_by c t (nt_nodes s v)" by (rule grants_okD(1) [OF g that])
    moreover have "c \<noteq> []" using granted_voter [OF m that] nil by auto
    ultimately show ?thesis using evolves_bound [OF _ _ ev] by (cases "v = i") simp_all
  qed
  then have "grants_ok ?s" using g by (simp add: grants_ok_def)
  moreover have "t \<le> r_currentTerm (nt_nodes ?s c)" if "t \<le> r_currentTerm (nt_nodes s c)" for c t
    using that ev by (cases "c = i") (simp_all add: evolves_def)
  then have "ballots_ok ids ?s" using b unfolding ballots_ok_def ballot_ok_def granted_nodes quorum_for_nodes
    by (simp del: fun_upd_apply not_None_eq)
  moreover have "led t (nt_nodes ?s c)" if "led t (nt_nodes s c)" for c t
    using that evolves_led [OF _ ev kl] by (cases "c = i") simp_all
  then have "elected_ok ids ?s" using e unfolding elected_ok_def granted_nodes quorum_for_nodes
    by (simp del: fun_upd_apply)
  ultimately show ?thesis by (simp add: election_inv_def)
qed

definition msg_ok :: "string set \<Rightarrow> 's net \<Rightarrow> msg \<Rightarrow> bool" where
  "msg_ok ids s m = (case m of
       VoteReq c v req \<Rightarrow> c \<in> ids \<and> v \<in> ids \<and> v \<noteq> c \<and> rv_CandidateID req = c
     | VoteResp v c req resp \<Rightarrow> False
     | AppReq l v req \<Rightarrow> l \<in> ids \<and> v \<in> ids \<and> v \<noteq> l \<and> (l, ae_Term req) \<in> nt_elected s
     | AppResp v l req resp \<Rightarrow> AppReq l v req \<in> nt_msgs s)"

lemma inv_msgs:
  assumes "election_inv ids s" and M: "\<And>m. m \<in> M \<Longrightarrow> msg_ok ids s m"
  shows "election_inv ids (s\<lparr>nt_msgs := nt_msgs s \<union> M\<rparr>)"
proof -
  let ?s = "s\<lparr>nt_msgs := nt_msgs s \<union> M\<rparr>"
  have "VoteResp v c req resp \<notin> M" for v c req resp using M [of "VoteResp v c req resp"] by (auto simp: msg_ok_def)
  then have g: "granted ?s = granted s" by (auto simp: granted_def fun_eq_iff)
  then have q: "quorum_for ids ?s = quorum_for ids s" by (simp add: quorum_for_def fun_eq_iff)
  have m: "msgs_ok ids s" using assms(1) by (simp add: election_inv_def)
  have "msgs_ok ids ?s"
    unfolding msgs_ok_def
  proof (intro conjI allI impI)
    fix c v req
    assume "VoteReq c v req \<in> nt_msgs ?s"
    then show "c \<in> ids" "v \<in> ids" "v \<noteq> c" "rv_CandidateID req = c"
      using msgs_okD(1) [OF m, of c v req] M [of "VoteReq c v req"] by (auto simp: msg_ok_def)
  next
    fix v c req resp
    assume "VoteResp v c req resp \<in> nt_msgs ?s"
    then show "VoteReq c v req \<in> nt_msgs ?s"
      using msgs_okD(2) [OF m] M [of "VoteResp v c req resp"] by (auto simp: msg_ok_def)
  next
    fix l v req
    assume "AppReq l v req \<in> nt_msgs ?s"
    then show "l \<in> ids" "v \<in> ids" "v \<noteq> l" "(l, ae_Term req) \<in> nt_elected ?s"
      using msgs_okD(3) [OF m, of l v req] M [of "AppReq l v req"] by (auto simp: msg_ok_def)
  next
    fix v l req resp
    assume "AppResp v l req resp \<in> nt_msgs ?s"
    then show "AppReq l v req \<in> nt_msgs ?s"
      using msgs_okD(4) [OF m] M [of "AppResp v l req resp"] by (auto simp: msg_ok_def)
  qed
  then show ?thesis
    using assms(1) by (simp add: election_inv_def nodes_ok_def grants_ok_def ballots_ok_def ballot_ok_def elected_ok_def g q)
qed

lemma granted_insert:
  "granted (s\<lparr>nt_msgs := insert (VoteResp v c req resp) (nt_msgs s)\<rparr>) v' c' t \<longleftrightarrow>
     granted s v' c' t \<or> v' = v \<and> c' = c \<and> t = rv_Term req \<and> rvr_VoteGranted resp"
  by (auto simp: granted_def)

lemma inv_vote:
  assumes inv: "election_inv ids s" and req: "VoteReq c v req \<in> nt_msgs s"
    and vote: "rvr_VoteGranted resp \<Longrightarrow> r_currentTerm (nt_nodes s v) = rv_Term req \<and>
      r_role (nt_nodes s v) = RoleFollower \<and> r_votedFor (nt_nodes s v) = c"
  shows "election_inv ids (s\<lparr>nt_msgs := insert (VoteResp v c req resp) (nt_msgs s)\<rparr>)"
proof (cases "rvr_VoteGranted resp")
  case False
  let ?s = "s\<lparr>nt_msgs := insert (VoteResp v c req resp) (nt_msgs s)\<rparr>"
  have g: "granted ?s = granted s" using False by (simp add: granted_insert fun_eq_iff)
  then have q: "quorum_for ids ?s = quorum_for ids s" by (simp add: quorum_for_def fun_eq_iff)
  have "msgs_ok ids ?s" using inv req by (auto simp: election_inv_def msgs_ok_def)
  then show ?thesis
    using inv by (simp add: election_inv_def nodes_ok_def grants_ok_def ballots_ok_def ballot_ok_def elected_ok_def g q)
next
  case True
  let ?s = "s\<lparr>nt_msgs := insert (VoteResp v c req resp) (nt_msgs s)\<rparr>"
  have G: "granted ?s v' c' t \<longleftrightarrow> granted s v' c' t \<or> v' = v \<and> c' = c \<and> t = rv_Term req" for v' c' t
    using True by (simp add: granted_insert)
  have n: "nodes_ok ids s" and m: "msgs_ok ids s" and g: "grants_ok s" and b: "ballots_ok ids s" and e: "elected_ok ids s"
    using inv by (simp_all add: election_inv_def)
  note vt = vote [OF True]
  have unvoted: "c' = c" if "granted s v c' (rv_Term req)" for c'
    using grants_okD(1) [OF g that] vt by (simp add: bound_by_def)
  have unled: "(v, rv_Term req) \<notin> nt_elected s"
    using elected_okD(2) [OF e, of v "rv_Term req"] vt by (auto simp: led_def)
  have q: "quorum_for ids ?s c' t" if "quorum_for ids s c' t" for c' t
    using that unfolding quorum_for_def G by blast
  have "nodes_ok ids ?s" using n by (simp add: nodes_ok_def)
  moreover have "msgs_ok ids ?s" using m req by (auto simp: msgs_ok_def)
  moreover have "grants_ok ?s"
    unfolding grants_ok_def
  proof (intro conjI allI impI)
    fix v' c' t
    assume "granted ?s v' c' t"
    then show "bound_by c' t (nt_nodes ?s v')"
      using grants_okD(1) [OF g] vt unfolding G by (auto simp: bound_by_def)
  next
    fix v' c1 c2 t
    assume "granted ?s v' c1 t" "granted ?s v' c2 t"
    then show "c1 = c2" using grants_okD(2) [OF g] unvoted unfolding G by metis
  qed
  moreover have "ballots_ok ids ?s"
    using b q unfolding ballots_ok_def ballot_ok_def G by simp
  moreover have "elected_ok ids ?s"
    unfolding elected_ok_def
  proof (intro allI impI)
    fix c' t
    assume "(c', t) \<in> nt_elected ?s"
    then have E: "(c', t) \<in> nt_elected s" by simp
    with unled elected_okD [OF e E] show "quorum_for ids ?s c' t \<and> led t (nt_nodes ?s c') \<and> (\<forall>c''. \<not> granted ?s c' c'' t)"
      unfolding G by (auto intro: q)
  qed
  ultimately show ?thesis by (simp add: election_inv_def)
qed

lemma inv_ballot:
  assumes "election_inv ids s" and "ballot_ok ids s c t el S" and "t \<le> r_currentTerm (nt_nodes s c)"
  shows "election_inv ids (s\<lparr>nt_ballots := (nt_ballots s)((c, t) \<mapsto> (el, S))\<rparr>)"
  using assms by (simp add: election_inv_def nodes_ok_def msgs_ok_def grants_ok_def ballots_ok_def ballot_ok_def elected_ok_def)

lemma inv_won:
  assumes "election_inv ids s" and "b \<Longrightarrow> quorum_for ids s c t"
  shows "election_inv ids (s\<lparr>nt_won := nt_won s \<union> (if b then {(c, t)} else {})\<rparr>)"
  using assms by (auto simp: election_inv_def nodes_ok_def msgs_ok_def grants_ok_def ballots_ok_def ballot_ok_def elected_ok_def)

lemma inv_win:
  assumes inv: "election_inv ids s" and won: "(c, t) \<in> nt_won s"
    and cand: "r_role (nt_nodes s c) = RoleCandidate" "r_currentTerm (nt_nodes s c) = t"
    and n': "r_id n' = r_id (nt_nodes s c)" "raft_inv n'" "r_peers n' = r_peers (nt_nodes s c)" "r_role n' = RoleLeader"
      "r_currentTerm n' = t" "r_votedFor n' = r_votedFor (nt_nodes s c)"
  shows "election_inv ids (s\<lparr>nt_nodes := (nt_nodes s)(c := n'), nt_elected := nt_elected s \<union> {(c, t)}\<rparr>)"
proof -
  let ?s = "s\<lparr>nt_nodes := (nt_nodes s)(c := n'), nt_elected := nt_elected s \<union> {(c, t)}\<rparr>"
  have n: "nodes_ok ids s" and m: "msgs_ok ids s" and g: "grants_ok s" and b: "ballots_ok ids s" and e: "elected_ok ids s"
    using inv by (simp_all add: election_inv_def)
  have q: "quorum_for ids s c t" using b won by (simp add: ballots_ok_def)
  then have c: "c \<in> ids" by (simp add: quorum_for_def)
  have silent: "\<not> granted s c c' t" for c'
    using grants_okD(1) [OF g, of c c' t] cand by (auto simp: bound_by_def)
  have "node_ok ids (nt_elected ?s) i (nt_nodes ?s i)" if "i \<in> ids" for i
  proof -
    have "node_ok ids (nt_elected s) i (nt_nodes s i)" using n that by (simp add: nodes_ok_def)
    then show ?thesis using n' cand by (cases "i = c") (simp_all add: node_ok_def)
  qed
  then have "nodes_ok ids ?s" by (simp add: nodes_ok_def)
  moreover have "msgs_ok ids ?s" using m by (simp add: msgs_ok_def)
  moreover have "bound_by c' t' (nt_nodes ?s v)" if "granted s v c' t'" for v c' t'
    using grants_okD(1) [OF g that] silent that cand n' by (cases "v = c") (auto simp: bound_by_def)
  then have "grants_ok ?s" using g by (simp add: grants_ok_def)
  moreover have "t' \<le> r_currentTerm (nt_nodes ?s c')" if "t' \<le> r_currentTerm (nt_nodes s c')" for c' t'
    using that n'(5) cand(2) by (cases "c' = c") simp_all
  then have "ballots_ok ids ?s" using b unfolding ballots_ok_def ballot_ok_def granted_nodes quorum_for_nodes
    by (simp del: fun_upd_apply not_None_eq)
  moreover have "led t' (nt_nodes ?s c')" if "led t' (nt_nodes s c')" for c' t'
    using that n' cand by (cases "c' = c") (auto simp: led_def)
  moreover have "led t (nt_nodes ?s c)" using n' by (simp add: led_def)
  ultimately show ?thesis
    using e q silent unfolding election_inv_def elected_ok_def granted_nodes quorum_for_nodes
    by (auto simp del: fun_upd_apply)
qed

subsection \<open>Every step keeps the invariant\<close>

lemma sentI:
  assumes "\<And>m. m \<in> set ms \<Longrightarrow> is_send m \<Longrightarrow> append_of n m" and "r_id n = i"
    and "i \<in> ids" and "fst ` set (r_peers n) = ids - {i}" and "(i, r_currentTerm n) \<in> nt_elected s"
    and "m \<in> sent i ms"
  shows "msg_ok ids s m"
proof -
  from assms(6) consider (vote) p addr req where "m = VoteReq i p req" "SendRequestVote p addr req \<in> set ms"
    | (app) p addr req where "m = AppReq i p req" "SendAppendEntries p addr req \<in> set ms"
    unfolding sent_def by blast
  then show ?thesis
  proof cases
    case vote
    then have "append_of n (SendRequestVote p addr req)" by (intro assms(1)) (simp_all add: is_send_def)
    then show ?thesis by (simp add: append_of_def)
  next
    case app
    then have "append_of n (SendAppendEntries p addr req)" by (intro assms(1)) (simp_all add: is_send_def)
    then have "ae_Term req = r_currentTerm n" "p \<in> fst ` set (r_peers n)" by (auto simp: append_of_def rev_image_eqI)
    then show ?thesis using assms(3-5) app(1) by (auto simp: msg_ok_def)
  qed
qed

lemma sent_none: "\<forall>m\<in>set ms. \<not> is_send m \<Longrightarrow> sent i ms = {}"
  unfolding sent_def is_send_def by fastforce

lemma election_invD:
  assumes "election_inv ids s"
  shows "nodes_ok ids s" "msgs_ok ids s" "grants_ok s" "ballots_ok ids s" "elected_ok ids s"
    and "i \<in> ids \<Longrightarrow> raft_inv (nt_nodes s i) \<and> r_id (nt_nodes s i) = i \<and>
      fst ` set (r_peers (nt_nodes s i)) = ids - {i} \<and> distinct (map fst (r_peers (nt_nodes s i))) \<and>
      (r_role (nt_nodes s i) \<noteq> RoleFollower \<longrightarrow> r_votedFor (nt_nodes s i) = i) \<and>
      (r_role (nt_nodes s i) = RoleLeader \<longrightarrow> (i, r_currentTerm (nt_nodes s i)) \<in> nt_elected s)"
  using assms by (auto simp: election_inv_def nodes_ok_def node_ok_def raft_inv_def)

lemma peers_majority:
  assumes "election_inv ids s" and "i \<in> ids" and "finite ids"
  shows "majority (nt_nodes s i) = (card ids - 1) div 2 + 1"
proof -
  have "length (r_peers (nt_nodes s i)) = card (fst ` set (r_peers (nt_nodes s i)))"
    using election_invD(6) [OF assms(1,2)] by (metis distinct_card length_map set_map)
  also have "\<dots> = card ids - 1" using election_invD(6) [OF assms(1,2)] assms(2,3) by simp
  finally show ?thesis by (simp add: majority_def)
qed

lemma startElectionD:
  assumes "raft_inv n" and "startElection e n = Some (n', el, ms)"
  shows "raft_inv n'" "r_role n' = RoleCandidate" "r_id n' = r_id n" "r_peers n' = r_peers n"
    "r_currentTerm n' = wrapu64 (r_currentTerm n + 1)" "r_votedFor n' = r_id n"
    "el = \<lparr>el_term = r_currentTerm n', el_majority = majority n, el_votes = 1, el_once = False\<rparr>"
    "SendRequestVote p addr req \<in> set ms \<Longrightarrow> (p, addr) \<in> set (peerAddrs n) \<and> rv_CandidateID req = r_id n"
    "SendAppendEntries p addr areq \<notin> set ms"
  by (rule startElection_outcome [OF assms(1), of e]; use assms(2) in auto)+

lemma HandleRequestVoteD:
  assumes "raft_inv n" and "HandleRequestVote e req n = Some (n', resp)"
  shows "raft_inv n'" "r_id n' = r_id n" "r_peers n' = r_peers n"
    "r_currentTerm n' = max (r_currentTerm n) (rv_Term req)"
    "r_role n' = (if r_currentTerm n < rv_Term req then RoleFollower else r_role n)"
    "rvr_VoteGranted resp \<Longrightarrow> r_currentTerm n \<le> rv_Term req \<and>
       (r_currentTerm n < rv_Term req \<or> r_votedFor n = [] \<or> r_votedFor n = rv_CandidateID req)"
    "r_votedFor n' = (if rvr_VoteGranted resp then rv_CandidateID req
       else if r_currentTerm n < rv_Term req then [] else r_votedFor n)"
  by (rule HandleRequestVote_outcome [OF assms(1), of e req]; use assms(2) in simp)+

lemma step_timeout:
  assumes inv: "election_inv ids s" and fin: "finite ids" and nil: "[] \<notin> ids" and i: "i \<in> ids"
    and role: "r_role (nt_nodes s i) \<noteq> RoleLeader" and small: "r_currentTerm (nt_nodes s i) + 1 < 2 ^ 64"
    and el: "startElection e (nt_nodes s i) = Some (n', el, ms)"
  shows "election_inv ids (s\<lparr>nt_nodes := (nt_nodes s)(i := n'), nt_msgs := nt_msgs s \<union> sent i ms,
       nt_ballots := (nt_ballots s)((i, el_term el) \<mapsto> (el, {})),
       nt_won := nt_won s \<union> (if peerAddrs n' = [] then {(i, el_term el)} else {})\<rparr>)"
proof -
  let ?n = "nt_nodes s i"
  note ni = election_invD(6) [OF inv i]
  have n': "raft_inv n'" "r_role n' = RoleCandidate" "r_id n' = i" "r_peers n' = r_peers ?n"
    "r_currentTerm n' = r_currentTerm ?n + 1" "r_votedFor n' = i"
    "el = \<lparr>el_term = r_currentTerm n', el_majority = majority ?n, el_votes = 1, el_once = False\<rparr>"
    using startElectionD(1-7) [OF conjunct1 [OF ni] el] ni small by (simp_all add: wrapu64_def)
  let ?s1 = "s\<lparr>nt_nodes := (nt_nodes s)(i := n')\<rparr>"
  have s1: "election_inv ids ?s1"
    using n' ni role by (intro inv_node [OF inv i nil]) (simp_all add: evolves_def keeps_leader_def)
  let ?s2 = "?s1\<lparr>nt_msgs := nt_msgs ?s1 \<union> sent i ms\<rparr>"
  have s2: "election_inv ids ?s2"
  proof (rule inv_msgs [OF s1])
    fix m
    assume "m \<in> sent i ms"
    then obtain p addr req where s: "m = VoteReq i p req" "SendRequestVote p addr req \<in> set ms"
      using startElectionD(9) [OF conjunct1 [OF ni] el] unfolding sent_def by blast
    then have m: "m = VoteReq i p req" "(p, addr) \<in> set (r_peers ?n)" "p \<noteq> i" "rv_CandidateID req = i"
      using startElectionD(8) [OF conjunct1 [OF ni] el s(2)] conjunct1 [OF conjunct2 [OF ni]] by (auto simp: peerAddrs_def)
    have "p \<in> fst ` set (r_peers ?n)" using m(2) by (simp add: rev_image_eqI)
    then have "p \<in> ids" using ni by simp
    with m i show "msg_ok ids ?s1 m" by (simp add: msg_ok_def)
  qed
  let ?s3 = "?s2\<lparr>nt_ballots := (nt_ballots ?s2)((i, el_term el) \<mapsto> (el, {}))\<rparr>"
  have s3: "election_inv ids ?s3"
    by (rule inv_ballot [OF s2]) (simp_all add: ballot_ok_def i n'(7) peers_majority [OF inv i fin])
  have "quorum_for ids ?s3 i (el_term el)" if "peerAddrs n' = []"
  proof -
    have "p = i" if "p \<in> fst ` set (r_peers ?n)" for p
      using that \<open>peerAddrs n' = []\<close> n'(3,4) by (auto simp: peerAddrs_def filter_empty_conv)
    then have "ids = {i}" using i ni by blast
    then show ?thesis unfolding quorum_for_def by (intro conjI exI [of _ "{i}"]) auto
  qed
  then have "election_inv ids (?s3\<lparr>nt_won := nt_won ?s3 \<union> (if peerAddrs n' = [] then {(i, el_term el)} else {})\<rparr>)"
    by (rule inv_won [OF s3])
  then show ?thesis by simp
qed

lemma step_vote:
  assumes inv: "election_inv ids s" and nil: "[] \<notin> ids" and req: "VoteReq c v req \<in> nt_msgs s"
    and h: "HandleRequestVote e req (nt_nodes s v) = Some (n', resp)"
  shows "election_inv ids (s\<lparr>nt_nodes := (nt_nodes s)(v := n'), nt_msgs := insert (VoteResp v c req resp) (nt_msgs s)\<rparr>)"
proof -
  let ?n = "nt_nodes s v"
  have m: "c \<in> ids" "v \<in> ids" "v \<noteq> c" "rv_CandidateID req = c" using msgs_okD(1) [OF election_invD(2) [OF inv] req] by auto
  note nv = election_invD(6) [OF inv m(2)]
  note D = HandleRequestVoteD [OF conjunct1 [OF nv] h]
  have n': "raft_inv n'" "r_id n' = v" "r_peers n' = r_peers ?n" using D(1-3) nv by simp_all
  have cv: "v \<noteq> []" "c \<noteq> []" using m nil by auto
  have foll: "r_role n' = RoleFollower \<and> r_currentTerm n' = rv_Term req \<and> r_votedFor n' = c" if g: "rvr_VoteGranted resp"
  proof (cases "r_role ?n = RoleFollower")
    case True
    then show ?thesis using D(4-7) g m(4) by auto
  next
    case False
    then have "r_votedFor ?n = v" using nv by simp
    then have "r_currentTerm ?n < rv_Term req" using D(6) [OF g] m(3,4) cv by auto
    then show ?thesis using D(4,5,7) g m(4) by simp
  qed
  let ?s1 = "s\<lparr>nt_nodes := (nt_nodes s)(v := n')\<rparr>"
  have "evolves ?n n'"
  proof (cases "rvr_VoteGranted resp")
    case True
    then have "r_currentTerm ?n \<le> r_currentTerm n'"
      "r_currentTerm n' = r_currentTerm ?n \<Longrightarrow> r_votedFor ?n \<noteq> [] \<Longrightarrow> r_votedFor n' = r_votedFor ?n"
      using D(6) m(4) foll [OF True] by (metis, metis less_irrefl)
    then show ?thesis using foll [OF True] n' conjunct1 [OF conjunct2 [OF nv]] unfolding evolves_def by simp
  next
    case False
    have "r_currentTerm ?n \<le> r_currentTerm n'" using D(4) by simp
    moreover have "r_role n' = r_role ?n \<and> r_votedFor n' = r_votedFor ?n" if "r_currentTerm n' = r_currentTerm ?n"
      using D(4,5,7) False that by (simp add: max_def split: if_splits)
    moreover have "r_role n' = RoleFollower" if "r_currentTerm n' \<noteq> r_currentTerm ?n"
      using D(4,5) that by (simp add: max_def split: if_splits)
    ultimately show ?thesis using n' nv unfolding evolves_def by metis
  qed
  moreover have "keeps_leader ?n n'"
    unfolding keeps_leader_def using D(4,5) by auto
  ultimately have s1: "election_inv ids ?s1" by (rule inv_node [OF inv m(2) nil])
  have "election_inv ids (?s1\<lparr>nt_msgs := insert (VoteResp v c req resp) (nt_msgs ?s1)\<rparr>)"
    by (rule inv_vote [OF s1]) (use req foll in simp_all)
  then show ?thesis by simp
qed

lemma voteReplyD:
  assumes "voteReply e (Some resp) n = (n', go)"
  shows "raft_inv n' = raft_inv n" "r_id n' = r_id n" "r_peers n' = r_peers n" "r_currentTerm n \<le> r_currentTerm n'"
    "r_currentTerm n' = r_currentTerm n \<Longrightarrow> n' = n" "r_currentTerm n' \<noteq> r_currentTerm n \<Longrightarrow> r_role n' = RoleFollower"
    "go \<Longrightarrow> n' = n \<and> rvr_VoteGranted resp"
  by (rule voteReply_outcome [of e resp n]; use assms in \<open>cases "r_currentTerm n < rvr_Term resp"; simp\<close>)+

lemma step_vote_refused:
  assumes inv: "election_inv ids s" and nil: "[] \<notin> ids" and m: "VoteResp v c req resp \<in> nt_msgs s"
    and h: "voteReply e (Some resp) (nt_nodes s c) = (n', go)"
  shows "election_inv ids (s\<lparr>nt_nodes := (nt_nodes s)(c := n')\<rparr>)"
proof -
  have c: "c \<in> ids" using msgs_okD(1,2) [OF election_invD(2) [OF inv]] m by blast
  note nc = election_invD(6) [OF inv c] and D = voteReplyD [OF h]
  have "evolves (nt_nodes s c) n' \<and> keeps_leader (nt_nodes s c) n'"
  proof (cases "r_currentTerm n' = r_currentTerm (nt_nodes s c)")
    case True
    then show ?thesis using D(5) nc by (simp add: evolves_def keeps_leader_def)
  next
    case False
    then show ?thesis using D(1-4,6) nc by (simp add: evolves_def keeps_leader_def)
  qed
  then show ?thesis using inv_node [OF inv c nil] by blast
qed

lemma step_vote_counted:
  assumes inv: "election_inv ids s" and fin: "finite ids" and m: "VoteResp v c req resp \<in> nt_msgs s"
    and b: "nt_ballots s (c, rv_Term req) = Some (el, counted)" and v: "v \<notin> counted"
    and h: "voteReply e (Some resp) (nt_nodes s c) = (n', True)" and cv: "countVote el = (el', won)"
  shows "election_inv ids (s\<lparr>nt_nodes := (nt_nodes s)(c := n'),
       nt_ballots := (nt_ballots s)((c, rv_Term req) \<mapsto> (el', insert v counted)),
       nt_won := nt_won s \<union> (if won then {(c, rv_Term req)} else {})\<rparr>)"
proof -
  let ?t = "rv_Term req"
  have ids: "c \<in> ids" "v \<in> ids" "v \<noteq> c" using msgs_okD(1,2) [OF election_invD(2) [OF inv]] m by blast+
  have n': "n' = nt_nodes s c" "rvr_VoteGranted resp" using voteReplyD(7) [OF h] by simp_all
  have g: "granted s v c ?t" using m n'(2) unfolding granted_def by blast
  have B: "ballot_ok ids s c ?t el counted" "?t \<le> r_currentTerm (nt_nodes s c)"
    using election_invD(4) [OF inv] b unfolding ballots_ok_def by auto
  have el': "el_majority el' = el_majority el" "el_votes el' = el_votes el + 1" "won \<Longrightarrow> el_majority el \<le> el_votes el'"
    using cv by (auto simp: countVote_def Let_def split: if_splits)
  let ?s1 = "s\<lparr>nt_ballots := (nt_ballots s)((c, ?t) \<mapsto> (el', insert v counted))\<rparr>"
  have "ballot_ok ids s c ?t el' (insert v counted)"
    using B(1) el' ids g v unfolding ballot_ok_def by simp
  then have s1: "election_inv ids ?s1" by (rule inv_ballot [OF inv _ B(2)])
  have "quorum_for ids ?s1 c ?t" if won
  proof -
    let ?Q = "insert c (insert v counted)"
    have "finite counted" "c \<notin> counted" using B(1) by (auto simp: ballot_ok_def)
    then have "card ?Q = card counted + 2" using v ids(3) by simp
    then have "(card ids - 1) div 2 + 1 \<le> card ?Q" using B(1) el'(2) el'(3) [OF that] by (simp add: ballot_ok_def)
    moreover have "\<forall>w\<in>?Q - {c}. granted s w c ?t" using B(1) g by (auto simp: ballot_ok_def)
    moreover have "?Q \<subseteq> ids" using B(1) ids by (auto simp: ballot_ok_def)
    ultimately show ?thesis unfolding quorum_for_nodes quorum_for_def using ids(1) by blast
  qed
  then have "election_inv ids (?s1\<lparr>nt_won := nt_won ?s1 \<union> (if won then {(c, ?t)} else {})\<rparr>)" by (rule inv_won [OF s1])
  moreover have "(nt_nodes s)(c := n') = nt_nodes s" using n'(1) by simp
  ultimately show ?thesis by simp
qed

lemma electionWonD:
  assumes "raft_inv n" and "electionWon e t n = Some (n', ms)"
  shows "raft_inv n'" "r_id n' = r_id n" "r_peers n' = r_peers n" "r_currentTerm n' = r_currentTerm n"
    "r_votedFor n' = r_votedFor n"
    "r_role n' = (if r_role n = RoleCandidate \<and> r_currentTerm n = t then RoleLeader else r_role n)"
    "m \<in> set ms \<Longrightarrow> append_of n' m" "\<not> (r_role n = RoleCandidate \<and> r_currentTerm n = t) \<Longrightarrow> ms = []"
  by (rule electionWon_outcome [OF assms(1), of e t]; use assms(2) in auto)+

lemma step_win:
  assumes inv: "election_inv ids s" and nil: "[] \<notin> ids" and won: "(c, t) \<in> nt_won s"
    and h: "electionWon e t (nt_nodes s c) = Some (n', ms)"
  shows "election_inv ids (s\<lparr>nt_nodes := (nt_nodes s)(c := n'),
       nt_elected := nt_elected s \<union> (if r_role (nt_nodes s c) = RoleCandidate \<and> r_currentTerm (nt_nodes s c) = t
         then {(c, t)} else {}),
       nt_msgs := nt_msgs s \<union> sent c ms\<rparr>)"
proof -
  have c: "c \<in> ids" using election_invD(4) [OF inv] won by (simp add: ballots_ok_def quorum_for_def)
  note nc = election_invD(6) [OF inv c]
  note D = electionWonD [OF conjunct1 [OF nc] h]
  show ?thesis
  proof (cases "r_role (nt_nodes s c) = RoleCandidate \<and> r_currentTerm (nt_nodes s c) = t")
    case True
    let ?s1 = "s\<lparr>nt_nodes := (nt_nodes s)(c := n'), nt_elected := nt_elected s \<union> {(c, t)}\<rparr>"
    have s1: "election_inv ids ?s1" by (rule inv_win [OF inv won]) (use True D(1-6) in simp_all)
    have "election_inv ids (?s1\<lparr>nt_msgs := nt_msgs ?s1 \<union> sent c ms\<rparr>)"
      by (rule inv_msgs [OF s1], rule sentI [where n = n' and i = c and ms = ms]) (use D(2-4,7) nc c True in simp_all)
    then show ?thesis using True by simp
  next
    case False
    have "evolves (nt_nodes s c) n' \<and> keeps_leader (nt_nodes s c) n'"
      using D(1-6) False nc by (simp add: evolves_def keeps_leader_def)
    then have "election_inv ids (s\<lparr>nt_nodes := (nt_nodes s)(c := n')\<rparr>)" using inv_node [OF inv c nil] by blast
    moreover have "sent c ms = {}" unfolding D(8) [OF False] by (simp add: sent_def)
    ultimately show ?thesis unfolding if_not_P [OF False] by simp
  qed
qed

lemma inv_sends:
  assumes inv: "election_inv ids s" and i: "i \<in> ids" and nil: "[] \<notin> ids"
    and ev: "evolves (nt_nodes s i) n'" "keeps_leader (nt_nodes s i) n'"
    and ms: "\<And>m. m \<in> set ms \<Longrightarrow> is_send m \<Longrightarrow> append_of n' m \<and> r_role n' = RoleLeader"
  shows "election_inv ids (s\<lparr>nt_nodes := (nt_nodes s)(i := n'), nt_msgs := nt_msgs s \<union> sent i ms\<rparr>)"
proof (cases "\<exists>m\<in>set ms. is_send m")
  case True
  let ?s1 = "s\<lparr>nt_nodes := (nt_nodes s)(i := n')\<rparr>"
  have lead: "r_role n' = RoleLeader" using True ms by blast
  have s1: "election_inv ids ?s1" by (rule inv_node [OF inv i nil ev])
  have n': "r_id n' = i" "fst ` set (r_peers n') = ids - {i}" "(i, r_currentTerm n') \<in> nt_elected s"
    using election_invD(6) [OF s1 i] lead by simp_all
  have "election_inv ids (?s1\<lparr>nt_msgs := nt_msgs ?s1 \<union> sent i ms\<rparr>)"
    by (rule inv_msgs [OF s1], rule sentI [where n = n' and i = i and ms = ms]) (use ms n' i in simp_all)
  then show ?thesis by simp
next
  case False
  then have "sent i ms = {}" by (intro sent_none) blast
  then show ?thesis using inv_node [OF inv i nil ev] by simp
qed

lemma HandleAppendEntriesD:
  assumes "raft_inv n" and "static ap" and "HandleAppendEntries ap e req s n = Some (s', n', ms, resp)"
  shows "raft_inv n'" "r_id n' = r_id n" "r_peers n' = r_peers n" "r_currentTerm n' = max (r_currentTerm n) (ae_Term req)"
    "ae_Term req < r_currentTerm n \<Longrightarrow> r_role n' = r_role n \<and> r_votedFor n' = r_votedFor n"
    "r_currentTerm n \<le> ae_Term req \<Longrightarrow> r_role n' = RoleFollower \<and> r_votedFor n' =
       (if r_currentTerm n < ae_Term req \<or> r_role n \<noteq> RoleFollower then [] else r_votedFor n)"
    "m \<in> set ms \<Longrightarrow> \<not> is_send m"
  by (rule HandleAppendEntries_outcome [OF assms(1), of ap e req s]; use assms(2,3) in simp)+

lemma step_append:
  assumes inv: "election_inv ids s" and fin: "finite ids" "odd (card ids)" and nil: "[] \<notin> ids" and ap: "static ap"
    and m: "AppReq l v req \<in> nt_msgs s"
    and h: "HandleAppendEntries ap e req (nt_apps s v) (nt_nodes s v) = Some (a', n', ms, resp)"
  shows "election_inv ids (s\<lparr>nt_nodes := (nt_nodes s)(v := n'), nt_apps := (nt_apps s)(v := a'),
       nt_msgs := insert (AppResp v l req resp) (nt_msgs s \<union> sent v ms)\<rparr>)"
proof -
  let ?n = "nt_nodes s v"
  have l: "v \<in> ids" "v \<noteq> l" "(l, ae_Term req) \<in> nt_elected s" using msgs_okD(3) [OF election_invD(2) [OF inv] m] by auto
  note nv = election_invD(6) [OF inv l(1)]
  note D = HandleAppendEntriesD [OF conjunct1 [OF nv] ap h]
  have other: "r_role ?n \<noteq> RoleLeader" if "ae_Term req = r_currentTerm ?n"
    using unique_leader [OF fin election_invD(3,5) [OF inv] l(3), of v] nv l(2) that by auto
  have ev: "evolves ?n n' \<and> keeps_leader ?n n'"
  proof (cases "ae_Term req < r_currentTerm ?n")
    case True
    then show ?thesis using D(1-4) D(5) [OF True] nv by (simp add: evolves_def keeps_leader_def)
  next
    case False
    then have le: "r_currentTerm ?n \<le> ae_Term req" by simp
    then show ?thesis using D(1-4) D(6) [OF le] nv other by (auto simp: evolves_def keeps_leader_def)
  qed
  let ?s1 = "s\<lparr>nt_nodes := (nt_nodes s)(v := n'), nt_msgs := nt_msgs s \<union> sent v ms\<rparr>"
  have s1: "election_inv ids ?s1"
    by (rule inv_sends [OF inv l(1) nil]) (use ev D(7) in simp_all)
  have "election_inv ids (?s1\<lparr>nt_msgs := nt_msgs ?s1 \<union> {AppResp v l req resp}\<rparr>)"
    by (rule inv_msgs [OF s1]) (use m in \<open>simp add: msg_ok_def\<close>)
  then show ?thesis by simp
qed

lemma appendReplyD:
  assumes "raft_inv n" and "static ap" and "appendReply ap e p req reply s n = Some (s', n', ms)"
  shows "raft_inv n'" "r_id n' = r_id n" "r_peers n' = r_peers n" "r_currentTerm n \<le> r_currentTerm n'"
    "r_currentTerm n < r_currentTerm n' \<Longrightarrow> r_role n' = RoleFollower \<and> r_votedFor n' = []"
    "r_currentTerm n' = r_currentTerm n \<Longrightarrow> r_role n' = r_role n \<and> r_votedFor n' = r_votedFor n"
    "m \<in> set ms \<Longrightarrow> is_send m \<Longrightarrow> append_of n' m \<and> r_role n' = RoleLeader"
  by (rule appendReply_outcome [OF assms(1), of ap e p req reply s]; use assms(2,3) in simp)+

lemma step_append_reply:
  assumes inv: "election_inv ids s" and nil: "[] \<notin> ids" and ap: "static ap" and m: "AppResp v l req resp \<in> nt_msgs s"
    and h: "appendReply ap e v req (Some resp) (nt_apps s l) (nt_nodes s l) = Some (a', n', ms)"
  shows "election_inv ids (s\<lparr>nt_nodes := (nt_nodes s)(l := n'), nt_apps := (nt_apps s)(l := a'), nt_msgs := nt_msgs s \<union> sent l ms\<rparr>)"
proof -
  have l: "l \<in> ids" using msgs_okD(3,4) [OF election_invD(2) [OF inv]] m by blast
  note nl = election_invD(6) [OF inv l]
  note D = appendReplyD [OF conjunct1 [OF nl] ap h]
  have ev: "evolves (nt_nodes s l) n' \<and> keeps_leader (nt_nodes s l) n'"
  proof (cases "r_currentTerm n' = r_currentTerm (nt_nodes s l)")
    case True
    then show ?thesis using D(1-3) D(6) [OF True] nl by (simp add: evolves_def keeps_leader_def)
  next
    case False
    then have lt: "r_currentTerm (nt_nodes s l) < r_currentTerm n'" using D(4) by simp
    then show ?thesis using D(1-4) D(5) [OF lt] nl by (simp add: evolves_def keeps_leader_def)
  qed
  show ?thesis
    unfolding inv_apps by (rule inv_sends [OF inv l nil]) (use ev D(7) in simp_all)
qed

lemma same_node: "evolves n n'" "keeps_leader n n'"
  if "raft_inv n'" "r_id n' = r_id n" "r_peers n' = r_peers n" "r_currentTerm n' = r_currentTerm n" "r_role n' = r_role n"
    "r_votedFor n' = r_votedFor n" "r_role n \<noteq> RoleFollower \<longrightarrow> r_votedFor n = r_id n"
  using that by (simp_all add: evolves_def keeps_leader_def)

lemma step_heartbeat:
  assumes inv: "election_inv ids s" and nil: "[] \<notin> ids" and i: "i \<in> ids" and lead: "r_role (nt_nodes s i) = RoleLeader"
    and h: "replicate_log (nt_nodes s i) = Some (n', ms)"
  shows "election_inv ids (s\<lparr>nt_nodes := (nt_nodes s)(i := resetHeartbeatDeadline e n'), nt_msgs := nt_msgs s \<union> sent i ms\<rparr>)"
proof -
  note ni = election_invD(6) [OF inv i]
  have D: "raft_inv n'" "core n' = core (nt_nodes s i)" "\<forall>m\<in>set ms. append_of (nt_nodes s i) m" "r_peers n' = r_peers (nt_nodes s i)"
    by (rule replicate_log_inv [OF conjunct1 [OF ni]]; use h in simp)+
  let ?n = "resetHeartbeatDeadline e n'"
  have "raft_inv ?n" using D(1) by (simp add: resetHeartbeatDeadline_def)
  moreover have "append_of ?n = append_of (nt_nodes s i)"
    using coreD [OF D(2)] D(4) by (simp add: append_of_def resetHeartbeatDeadline_def fun_eq_iff)
  ultimately show ?thesis
    using coreD [OF D(2)] D(3,4) ni lead
    by (intro inv_sends [OF inv i nil] same_node) (simp_all add: resetHeartbeatDeadline_def)
qed

lemma ProposeD:
  assumes "raft_inv n" and "static ap" and "Propose ap w cmd s n = Some (Inr (k, s', n', ms))"
  shows "r_role n = RoleLeader" "raft_inv n'" "r_id n' = r_id n" "r_peers n' = r_peers n" "r_currentTerm n' = r_currentTerm n"
    "r_role n' = RoleLeader" "r_votedFor n' = r_votedFor n" "m \<in> set ms \<Longrightarrow> is_send m \<Longrightarrow> append_of n' m"
proof -
  show lead: "r_role n = RoleLeader" using assms(3) by (auto simp: Propose_def split: if_splits)
  show "raft_inv n'" "r_id n' = r_id n" "r_peers n' = r_peers n" "r_currentTerm n' = r_currentTerm n"
    "r_role n' = RoleLeader" "r_votedFor n' = r_votedFor n" "m \<in> set ms \<Longrightarrow> is_send m \<Longrightarrow> append_of n' m"
    by (rule Propose_outcome [OF assms(1) lead, of ap w cmd s]; use assms(2,3) in simp)+
qed

lemma step_propose:
  assumes inv: "election_inv ids s" and nil: "[] \<notin> ids" and ap: "static ap" and i: "i \<in> ids"
    and h: "Propose ap w cmd (nt_apps s i) (nt_nodes s i) = Some (Inr (k, a', n', ms))"
  shows "election_inv ids (s\<lparr>nt_nodes := (nt_nodes s)(i := n'), nt_apps := (nt_apps s)(i := a'), nt_msgs := nt_msgs s \<union> sent i ms\<rparr>)"
proof -
  note ni = election_invD(6) [OF inv i]
  note D = ProposeD [OF conjunct1 [OF ni] ap h]
  show ?thesis
    unfolding inv_apps by (rule inv_sends [OF inv i nil]; (rule same_node)?) (use D ni in simp_all)
qed

lemma step_cancel:
  assumes inv: "election_inv ids s" and nil: "[] \<notin> ids" and i: "i \<in> ids"
  shows "election_inv ids (s\<lparr>nt_nodes := (nt_nodes s)(i := proposeCanceled k (nt_nodes s i))\<rparr>)"
  using election_invD(6) [OF inv i]
  by (intro inv_node [OF inv i nil] same_node) (simp_all add: proposeCanceled_def raft_inv_def)

lemma net_step_inv:
  assumes "net_step ap ids s s'" and "election_inv ids s" and "finite ids" and "odd (card ids)" and "[] \<notin> ids" and "static ap"
  shows "election_inv ids s'"
  using assms(1)
proof cases
  case timeout
  show ?thesis unfolding timeout(1) by (rule step_timeout [OF assms(2,3,5) timeout(2-5)])
next
  case vote
  show ?thesis unfolding vote(1) by (rule step_vote [OF assms(2,5) vote(2-3)])
next
  case vote_refused
  show ?thesis unfolding vote_refused(1) by (rule step_vote_refused [OF assms(2,5) vote_refused(2-3)])
next
  case vote_counted
  show ?thesis unfolding vote_counted(1) by (rule step_vote_counted [OF assms(2,3) vote_counted(2-6)])
next
  case win
  show ?thesis unfolding win(1) by (rule step_win [OF assms(2,5) win(2-3)])
next
  case append
  show ?thesis unfolding append(1) by (rule step_append [OF assms(2-6) append(2-3)])
next
  case append_reply
  show ?thesis unfolding append_reply(1) by (rule step_append_reply [OF assms(2,5,6) append_reply(2-3)])
next
  case heartbeat
  show ?thesis unfolding heartbeat(1) by (rule step_heartbeat [OF assms(2,5) heartbeat(2-4)])
next
  case propose
  show ?thesis unfolding propose(1) by (rule step_propose [OF assms(2,5,6) propose(2-3)])
next
  case cancel
  show ?thesis unfolding cancel(1) by (rule step_cancel [OF assms(2,5) cancel(2)])
qed

lemma net_start_inv:
  assumes "net_start ids s"
  shows "election_inv ids s"
proof -
  have "node_ok ids {} i (nt_nodes s i)" if i: "i \<in> ids" for i
  proof -
    obtain e addr peers cfg where n: "nt_nodes s i = NewNode e i addr peers cfg" "distinct (map fst peers)"
      "fst ` set peers = ids - {i}" using bspec [OF conjunct1 [OF assms [unfolded net_start_def]] i] by blast
    show ?thesis unfolding node_ok_def n(1) using NewNode_inv [OF n(2)] n(3) by (simp add: NewNode_def)
  qed
  moreover have "nt_msgs s = {}" "nt_ballots s = (\<lambda>_. None)" "nt_won s = {}" "nt_elected s = {}"
    using conjunct2 [OF assms [unfolded net_start_def]] by simp_all
  ultimately show ?thesis by (simp add: election_defs granted_def)
qed

lemma net_reachable_inv:
  assumes "net_reachable ap ids s" and "finite ids" and "odd (card ids)" and "[] \<notin> ids" and "static ap"
  shows "election_inv ids s"
  using assms(1)
proof induction
  case (start s)
  then show ?case by (rule net_start_inv)
next
  case (step s s')
  then show ?case using net_step_inv assms(2-5) by blast
qed

subsection \<open>An election that succeeds\<close>

definition may_vote :: "RequestVoteRequest \<Rightarrow> RaftNode \<Rightarrow> bool" where
  "may_vote req n \<longleftrightarrow> raft_inv n \<and> r_currentTerm n < rv_Term req \<and> up_to_date req (r_log n)"

lemma may_vote_grants:
  assumes "may_vote req n"
  obtains n' resp where "HandleRequestVote e req n = Some (n', resp)" "rvr_VoteGranted resp" "rvr_Term resp = rv_Term req"
  by (rule HandleRequestVote_outcome [of n e req]) (use assms in \<open>auto simp: may_vote_def\<close>)

text \<open>One vote: the voter answers and the candidate counts it.\<close>

lemma one_vote:
  assumes "VoteReq c v req \<in> nt_msgs s" and "may_vote req (nt_nodes s v)" and "v \<noteq> c"
    and "r_currentTerm (nt_nodes s c) = rv_Term req"
    and "nt_ballots s (c, rv_Term req) = Some (el, C)" and "v \<notin> C" and "countVote el = (el', won)"
  shows "\<exists>s'. (net_step ap ids)\<^sup>*\<^sup>* s s' \<and> (\<forall>i. i \<noteq> v \<longrightarrow> nt_nodes s' i = nt_nodes s i) \<and> nt_msgs s \<subseteq> nt_msgs s' \<and>
    nt_ballots s' (c, rv_Term req) = Some (el', insert v C) \<and>
    nt_won s' = nt_won s \<union> (if won then {(c, rv_Term req)} else {})"
proof -
  obtain n' resp where h: "HandleRequestVote e req (nt_nodes s v) = Some (n', resp)" "rvr_VoteGranted resp"
    "rvr_Term resp = rv_Term req" by (rule may_vote_grants [OF assms(2)])
  let ?s1 = "s\<lparr>nt_nodes := (nt_nodes s)(v := n'), nt_msgs := insert (VoteResp v c req resp) (nt_msgs s)\<rparr>"
  have 1: "net_step ap ids s ?s1" by (rule net_step.vote [OF assms(1) h(1)])
  have r: "voteReply e (Some resp) (nt_nodes ?s1 c) = (nt_nodes ?s1 c, True)"
    using h(2,3) assms(3,4) by (simp add: voteReply_def)
  let ?s2 = "?s1\<lparr>nt_nodes := (nt_nodes ?s1)(c := nt_nodes ?s1 c),
       nt_ballots := (nt_ballots ?s1)((c, rv_Term req) \<mapsto> (el', insert v C)),
       nt_won := nt_won ?s1 \<union> (if won then {(c, rv_Term req)} else {})\<rparr>"
  have 2: "net_step ap ids ?s1 ?s2"
    by (rule net_step.vote_counted [OF _ _ assms(6) r assms(7)]) (use assms(5) in simp_all)
  have "(net_step ap ids)\<^sup>*\<^sup>* s ?s2" using 1 2 by (meson r_into_rtranclp rtranclp_trans)
  then show ?thesis by (intro exI [of _ ?s2]) auto
qed

lemma countVoteD:
  assumes "countVote el = (el', won)"
  shows "el_votes el' = el_votes el + 1" "el_majority el' = el_majority el" "el_once el' \<Longrightarrow> el_once el \<or> won"
    "el_majority el \<le> el_votes el + 1 \<Longrightarrow> el_once el \<or> won"
  using assms by (auto simp: countVote_def Let_def split: if_splits)

lemma gather_votes:
  assumes "distinct vs" and "\<And>v. v \<in> set vs \<Longrightarrow> VoteReq c v req \<in> nt_msgs s \<and> may_vote req (nt_nodes s v) \<and> v \<noteq> c \<and> v \<notin> C"
    and "r_currentTerm (nt_nodes s c) = rv_Term req" and "nt_ballots s (c, rv_Term req) = Some (el, C)"
    and "el_once el \<longrightarrow> (c, rv_Term req) \<in> nt_won s"
  shows "\<exists>s'. (net_step ap ids)\<^sup>*\<^sup>* s s' \<and> (\<forall>i. i \<notin> set vs \<longrightarrow> nt_nodes s' i = nt_nodes s i) \<and> nt_won s \<subseteq> nt_won s' \<and>
    (vs \<noteq> [] \<and> el_majority el \<le> el_votes el + length vs \<longrightarrow> (c, rv_Term req) \<in> nt_won s')"
  using assms
proof (induction vs arbitrary: s el C)
  case Nil
  show ?case by (rule exI [of _ s]) simp
next
  case (Cons v vs)
  have v: "VoteReq c v req \<in> nt_msgs s" "may_vote req (nt_nodes s v)" "v \<noteq> c" "v \<notin> C"
    using Cons.prems(2) [of v] by simp_all
  obtain el' won where cv: "countVote el = (el', won)" by (cases "countVote el")
  obtain s1 where s1: "(net_step ap ids)\<^sup>*\<^sup>* s s1" "\<And>i. i \<noteq> v \<Longrightarrow> nt_nodes s1 i = nt_nodes s i" "nt_msgs s \<subseteq> nt_msgs s1"
    "nt_ballots s1 (c, rv_Term req) = Some (el', insert v C)" "nt_won s1 = nt_won s \<union> (if won then {(c, rv_Term req)} else {})"
    using one_vote [OF v(1-3) Cons.prems(3,4) v(4) cv, of ap ids] by blast
  have el': "el_votes el' = el_votes el + 1" "el_majority el' = el_majority el" "el_once el' \<longrightarrow> (c, rv_Term req) \<in> nt_won s1"
    "el_majority el \<le> el_votes el + 1 \<longrightarrow> (c, rv_Term req) \<in> nt_won s1"
    using countVoteD [OF cv] s1(5) Cons.prems(5) by (auto split: if_splits)
  have "\<exists>s'. (net_step ap ids)\<^sup>*\<^sup>* s1 s' \<and> (\<forall>i. i \<notin> set vs \<longrightarrow> nt_nodes s' i = nt_nodes s1 i) \<and> nt_won s1 \<subseteq> nt_won s' \<and>
    (vs \<noteq> [] \<and> el_majority el' \<le> el_votes el' + length vs \<longrightarrow> (c, rv_Term req) \<in> nt_won s')"
  proof (rule Cons.IH [OF _ _ _ s1(4) el'(3)])
    show "distinct vs" using Cons.prems(1) by simp
    show "r_currentTerm (nt_nodes s1 c) = rv_Term req" using v(3) Cons.prems(3) s1(2) by simp
    show "VoteReq c w req \<in> nt_msgs s1 \<and> may_vote req (nt_nodes s1 w) \<and> w \<noteq> c \<and> w \<notin> insert v C" if "w \<in> set vs" for w
    proof -
      have "w \<noteq> v" using Cons.prems(1) that by auto
      then show ?thesis using Cons.prems(2) [of w] that s1(2) [of w] s1(3) by auto
    qed
  qed
  then obtain s' where s': "(net_step ap ids)\<^sup>*\<^sup>* s1 s'" "\<And>i. i \<notin> set vs \<Longrightarrow> nt_nodes s' i = nt_nodes s1 i" "nt_won s1 \<subseteq> nt_won s'"
    "vs \<noteq> [] \<and> el_majority el' \<le> el_votes el' + length vs \<longrightarrow> (c, rv_Term req) \<in> nt_won s'" by blast
  have "(c, rv_Term req) \<in> nt_won s'" if "el_majority el \<le> el_votes el + length (v # vs)"
  proof (cases "vs = []")
    case True
    then have "el_majority el \<le> el_votes el + 1" using that by simp
    then show ?thesis using el'(4) s'(3) by blast
  next
    case False
    then show ?thesis using that el'(1,2) s'(4) by simp
  qed
  moreover have "(net_step ap ids)\<^sup>*\<^sup>* s s'" using s1(1) s'(1) by (rule rtranclp_trans)
  moreover have "nt_won s \<subseteq> nt_won s'" using s1(5) s'(3) by blast
  moreover have "\<forall>i. i \<notin> set (v # vs) \<longrightarrow> nt_nodes s' i = nt_nodes s i" using s1(2) s'(2) by simp
  ultimately show ?case by blast
qed

text \<open>The vote request a node sends when its election timer fires.\<close>

definition vote_request :: "RaftNode \<Rightarrow> RequestVoteRequest" where
  "vote_request n = \<lparr>rv_Term = r_currentTerm n + 1, rv_CandidateID = r_id n, rv_LastLogIndex = length (r_log n) - 1,
     rv_LastLogTerm = e_Term (last (r_log n))\<rparr>"

lemma startElection_request:
  assumes "raft_inv n" and "r_currentTerm n + 1 < 2 ^ 64"
  obtains n' el ms where "startElection e n = Some (n', el, ms)" "raft_inv n'" "r_role n' = RoleCandidate" "r_id n' = r_id n"
    "r_currentTerm n' = r_currentTerm n + 1"
    "el = \<lparr>el_term = r_currentTerm n + 1, el_majority = majority n, el_votes = 1, el_once = False\<rparr>"
    "\<And>p addr. (p, addr) \<in> set (r_peers n) \<Longrightarrow> p \<noteq> r_id n \<Longrightarrow> SendRequestVote p addr (vote_request n) \<in> set ms"
proof (rule startElection_outcome [OF assms(1), of e])
  fix n' el ms
  assume a: "startElection e n = Some (n', el, ms)" "raft_inv n'" "r_role n' = RoleCandidate" "r_id n' = r_id n"
    "r_currentTerm n' = wrapu64 (r_currentTerm n + 1)"
    "el = \<lparr>el_term = r_currentTerm n', el_majority = majority n, el_votes = 1, el_once = False\<rparr>"
    "ms = map (\<lambda>(peerID, addr). SendRequestVote peerID addr
       \<lparr>rv_Term = r_currentTerm n', rv_CandidateID = r_id n, rv_LastLogIndex = length (r_log n) - 1,
        rv_LastLogTerm = e_Term (last (r_log n))\<rparr>) (peerAddrs n)"
  have t: "r_currentTerm n' = r_currentTerm n + 1" using a(5) assms(2) by (simp add: wrapu64_def)
  show thesis
  proof (rule that [OF a(1-4) t])
    show "el = \<lparr>el_term = r_currentTerm n + 1, el_majority = majority n, el_votes = 1, el_once = False\<rparr>" using a(6) t by simp
    show "SendRequestVote p addr (vote_request n) \<in> set ms" if "(p, addr) \<in> set (r_peers n)" "p \<noteq> r_id n" for p addr
      using that a(7) t by (force simp: vote_request_def peerAddrs_def)
  qed
qed

lemma win_step:
  assumes "(c, t) \<in> nt_won s" and "raft_inv (nt_nodes s c)" and "r_role (nt_nodes s c) = RoleCandidate"
    and "r_currentTerm (nt_nodes s c) = t"
  shows "\<exists>s'. net_step ap ids s s' \<and> r_role (nt_nodes s' c) = RoleLeader \<and> r_currentTerm (nt_nodes s' c) = t \<and>
    (\<forall>i. i \<noteq> c \<longrightarrow> nt_nodes s' i = nt_nodes s i)"
proof -
  obtain n' ms where w: "electionWon demo_env t (nt_nodes s c) = Some (n', ms)" "r_currentTerm n' = r_currentTerm (nt_nodes s c)"
    "r_role n' = (if r_role (nt_nodes s c) = RoleCandidate \<and> r_currentTerm (nt_nodes s c) = t then RoleLeader else r_role (nt_nodes s c))"
    by (rule electionWon_outcome [OF assms(2), of demo_env t])
  show ?thesis by (rule exI, rule conjI, rule net_step.win [OF assms(1) w(1)]) (use w(2,3) assms(3,4) in simp)
qed

lemma election_succeeds:
  assumes c: "c \<in> ids" "raft_inv (nt_nodes s c)" "r_id (nt_nodes s c) = c" "fst ` set (r_peers (nt_nodes s c)) = ids - {c}"
      "r_role (nt_nodes s c) \<noteq> RoleLeader" "r_currentTerm (nt_nodes s c) + 1 < 2 ^ 64"
    and vs: "distinct vs" "vs \<noteq> []" "set vs \<subseteq> ids - {c}" "majority (nt_nodes s c) \<le> length vs + 1"
      "\<forall>v\<in>set vs. may_vote (vote_request (nt_nodes s c)) (nt_nodes s v)"
  shows "\<exists>s'. (net_step ap ids)\<^sup>*\<^sup>* s s' \<and> r_role (nt_nodes s' c) = RoleLeader \<and>
    r_currentTerm (nt_nodes s' c) = r_currentTerm (nt_nodes s c) + 1 \<and>
    (\<forall>i. i \<notin> insert c (set vs) \<longrightarrow> nt_nodes s' i = nt_nodes s i)"
proof -
  let ?n = "nt_nodes s c" and ?req = "vote_request (nt_nodes s c)"
  have t: "rv_Term ?req = r_currentTerm ?n + 1" by (simp add: vote_request_def)
  obtain n' el ms where e: "startElection demo_env ?n = Some (n', el, ms)" "raft_inv n'" "r_role n' = RoleCandidate"
    "r_currentTerm n' = r_currentTerm ?n + 1"
    "el = \<lparr>el_term = r_currentTerm ?n + 1, el_majority = majority ?n, el_votes = 1, el_once = False\<rparr>"
    "\<And>p addr. (p, addr) \<in> set (r_peers ?n) \<Longrightarrow> p \<noteq> r_id ?n \<Longrightarrow> SendRequestVote p addr ?req \<in> set ms"
    by (rule startElection_request [OF c(2,6), of demo_env]) blast
  let ?s1 = "s\<lparr>nt_nodes := (nt_nodes s)(c := n'), nt_msgs := nt_msgs s \<union> sent c ms,
       nt_ballots := (nt_ballots s)((c, el_term el) \<mapsto> (el, {})),
       nt_won := nt_won s \<union> (if peerAddrs n' = [] then {(c, el_term el)} else {})\<rparr>"
  have s1: "net_step ap ids s ?s1" by (rule net_step.timeout [OF c(1,5,6) e(1)])
  have asked: "VoteReq c v ?req \<in> nt_msgs ?s1" if "v \<in> set vs" for v
  proof -
    have "v \<in> fst ` set (r_peers ?n)" "v \<noteq> c" using that vs(3) c(4) by auto
    then obtain addr where "(v, addr) \<in> set (r_peers ?n)" by force
    then have "SendRequestVote v addr ?req \<in> set ms" using e(6) \<open>v \<noteq> c\<close> c(3) by simp
    then show ?thesis by (auto simp: sent_def)
  qed
  have "\<exists>s'. (net_step ap ids)\<^sup>*\<^sup>* ?s1 s' \<and> (\<forall>i. i \<notin> set vs \<longrightarrow> nt_nodes s' i = nt_nodes ?s1 i) \<and> nt_won ?s1 \<subseteq> nt_won s' \<and>
    (vs \<noteq> [] \<and> el_majority el \<le> el_votes el + length vs \<longrightarrow> (c, rv_Term ?req) \<in> nt_won s')"
  proof (rule gather_votes [OF vs(1), where C = "{}"])
    show "VoteReq c v ?req \<in> nt_msgs ?s1 \<and> may_vote ?req (nt_nodes ?s1 v) \<and> v \<noteq> c \<and> v \<notin> {}" if "v \<in> set vs" for v
      using asked [OF that] vs(3,5) that by auto
  qed (use e t in simp_all)
  then obtain s2 where s2: "(net_step ap ids)\<^sup>*\<^sup>* ?s1 s2" "\<And>i. i \<notin> set vs \<Longrightarrow> nt_nodes s2 i = nt_nodes ?s1 i"
    "(c, r_currentTerm ?n + 1) \<in> nt_won s2" using vs(2,4) e(5) t by auto
  have c2: "nt_nodes s2 c = n'" using s2(2) [of c] vs(3) by auto
  obtain s3 where s3: "net_step ap ids s2 s3" "r_role (nt_nodes s3 c) = RoleLeader"
    "r_currentTerm (nt_nodes s3 c) = r_currentTerm ?n + 1" "\<And>i. i \<noteq> c \<Longrightarrow> nt_nodes s3 i = nt_nodes s2 i"
    using win_step [OF s2(3), of ap ids] c2 e(2-4) by auto
  have "(net_step ap ids)\<^sup>*\<^sup>* s s3" using s1 s2(1) s3(1) by (meson converse_rtranclp_into_rtranclp rtranclp.rtrancl_into_rtrancl)
  moreover have "nt_nodes s3 i = nt_nodes s i" if "i \<notin> insert c (set vs)" for i
    using that s3(4) [of i] s2(2) [of i] by simp
  ultimately show ?thesis using s3(2,3) by blast
qed

lemma reachable_steps: "(net_step ap ids)\<^sup>*\<^sup>* s s' \<Longrightarrow> net_reachable ap ids s \<Longrightarrow> net_reachable ap ids s'"
  by (induction rule: rtranclp_induct) (auto intro: net_reachable.step)

subsection \<open>A fresh cluster\<close>

definition fresh_net :: "string list \<Rightarrow> 's \<Rightarrow> 's net" where
  "fresh_net ms a = \<lparr>nt_nodes = (\<lambda>i. NewNode demo_env i i (map (\<lambda>p. (p, p)) (filter (\<lambda>p. p \<noteq> i) ms)) DefaultRaftConfig),
     nt_apps = (\<lambda>_. a), nt_msgs = {}, nt_ballots = (\<lambda>_. None), nt_won = {}, nt_elected = {}\<rparr>"

lemma fresh_peers:
  assumes "distinct ms"
  shows "fst ` set (map (\<lambda>p. (p, p)) (filter (\<lambda>p. p \<noteq> i) ms)) = set ms - {i}"
    and "distinct (map fst (map (\<lambda>p. (p, p)) (filter (\<lambda>p. p \<noteq> i) ms)))"
    and "length (filter (\<lambda>p. p \<noteq> i) ms) = card (set ms - {i})"
proof -
  have f: "set (filter (\<lambda>p. p \<noteq> i) ms) = set ms - {i}" by auto
  show "fst ` set (map (\<lambda>p. (p, p)) (filter (\<lambda>p. p \<noteq> i) ms)) = set ms - {i}" by (simp add: image_image) auto
  show "distinct (map fst (map (\<lambda>p. (p, p)) (filter (\<lambda>p. p \<noteq> i) ms)))" using assms by (simp add: comp_def)
  show "length (filter (\<lambda>p. p \<noteq> i) ms) = card (set ms - {i})" using assms f by (metis distinct_card distinct_filter)
qed

lemma fresh_net_start:
  assumes "distinct ms"
  shows "net_start (set ms) (fresh_net ms a)"
proof -
  have "\<exists>e addr peers cfg. nt_nodes (fresh_net ms a) i = NewNode e i addr peers cfg \<and>
      distinct (map fst peers) \<and> fst ` set peers = set ms - {i}" for i
    using fresh_peers(1,2) [OF assms, of i] unfolding fresh_net_def net.simps by blast
  then show ?thesis unfolding net_start_def by (simp add: fresh_net_def)
qed

lemma fresh_node:
  assumes "distinct ms"
  shows "raft_inv (nt_nodes (fresh_net ms a) i)" "r_id (nt_nodes (fresh_net ms a) i) = i"
    "fst ` set (r_peers (nt_nodes (fresh_net ms a) i)) = set ms - {i}" "r_role (nt_nodes (fresh_net ms a) i) = RoleFollower"
    "r_currentTerm (nt_nodes (fresh_net ms a) i) = 0" "majority (nt_nodes (fresh_net ms a) i) = card (set ms - {i}) div 2 + 1"
    "may_vote (vote_request (nt_nodes (fresh_net ms a) j)) (nt_nodes (fresh_net ms a) i)"
proof -
  let ?n = "nt_nodes (fresh_net ms a)"
  show inv: "raft_inv (?n i)" using NewNode_inv [OF fresh_peers(2) [OF assms]] by (simp add: fresh_net_def)
  show "r_id (?n i) = i" "r_role (?n i) = RoleFollower" "r_currentTerm (?n i) = 0"
    by (simp_all add: fresh_net_def NewNode_def)
  show "fst ` set (r_peers (?n i)) = set ms - {i}" using fresh_peers(1) [OF assms, of i] by (simp add: fresh_net_def NewNode_def)
  show "majority (?n i) = card (set ms - {i}) div 2 + 1"
    using fresh_peers(3) [OF assms, of i] by (simp add: majority_def fresh_net_def NewNode_def)
  show "may_vote (vote_request (?n j)) (?n i)"
    using inv by (simp add: may_vote_def vote_request_def up_to_date_def fresh_net_def NewNode_def)
qed

lemma fresh_election:
  assumes "distinct ms" and "c \<in> set ms" and "v \<in> set ms" and "v \<noteq> c" and "card (set ms - {c}) \<le> 3"
    and "nt_nodes s c = nt_nodes (fresh_net ms a) c" and "nt_nodes s v = nt_nodes (fresh_net ms a) v"
  shows "\<exists>s'. (net_step ap (set ms))\<^sup>*\<^sup>* s s' \<and> r_role (nt_nodes s' c) = RoleLeader \<and> r_currentTerm (nt_nodes s' c) = 1 \<and>
    (\<forall>i. i \<noteq> c \<longrightarrow> i \<noteq> v \<longrightarrow> nt_nodes s' i = nt_nodes s i)"
proof -
  note f = fresh_node [OF assms(1), of a]
  have "card (set ms - {c}) div 2 \<le> 1" using assms(5) by simp
  then show ?thesis
    using election_succeeds [of c "set ms" s "[v]" ap] assms(2-4,6,7) f by auto
qed

section \<open>Properties\<close>

text \<open>
  C2: Election safety. In a cluster with an odd number of members and no membership change, under
  any loss, delay, duplication and reordering of the messages and any interleaving of timeouts, votes,
  replication and proposals, two nodes that are leader in the same term are the same node.
\<close>

theorem election_safety:
  assumes "net_reachable ap ids s" and "static ap" and "finite ids" and "odd (card ids)" and "[] \<notin> ids"
    and "a \<in> ids" and "b \<in> ids" and "r_role (nt_nodes s a) = RoleLeader" and "r_role (nt_nodes s b) = RoleLeader"
    and "r_currentTerm (nt_nodes s a) = r_currentTerm (nt_nodes s b)"
  shows "a = b"
proof -
  note inv = net_reachable_inv [OF assms(1,3-5,2)]
  show ?thesis
    using unique_leader [OF assms(3,4) election_invD(3,5) [OF inv]] election_invD(6) [OF inv] assms(6-10) by metis
qed

theorem election_safety_witness:
  "\<exists>s. net_reachable demo_apply {''a'', ''b'', ''c''} s \<and> r_role (nt_nodes s ''a'') = RoleLeader \<and>
     r_currentTerm (nt_nodes s ''a'') = 1 \<and>
     (\<forall>i\<in>{''b'', ''c''}. r_currentTerm (nt_nodes s i) = 1 \<longrightarrow> r_role (nt_nodes s i) \<noteq> RoleLeader)"
proof -
  let ?ms = "[''a'', ''b'', ''c'']"
  let ?s = "fresh_net ?ms ([] :: Entry list)"
  obtain s where s: "(net_step demo_apply (set ?ms))\<^sup>*\<^sup>* ?s s" "r_role (nt_nodes s ''a'') = RoleLeader" "r_currentTerm (nt_nodes s ''a'') = 1"
    using fresh_election [of ?ms "''a''" "''b''" ?s "[]" demo_apply] by (auto simp: card_insert_if)
  have r: "net_reachable demo_apply {''a'', ''b'', ''c''} s"
    using reachable_steps [OF s(1) net_reachable.start [OF fresh_net_start]] by simp
  have "r_role (nt_nodes s i) \<noteq> RoleLeader" if "i \<in> {''b'', ''c''}" "r_currentTerm (nt_nodes s i) = 1" for i
    using election_safety [OF r _ _ _ _ _ _ s(2), of i] that s(3) by (auto simp: static_def demo_apply_def)
  with r s(2,3) show ?thesis by blast
qed

text \<open>
  C30: An election can succeed. From every reachable state, if the election timer of a node that is
  not leader fires, and the nodes of some majority are in an earlier term than the one it starts and
  have logs that are not ahead of its own, then the delivery of their votes makes it the leader of
  that term, and no other node is leader in that term.
\<close>

theorem election_liveness:
  assumes "net_reachable ap ids s" and "static ap" and "finite ids" and "odd (card ids)" and "[] \<notin> ids"
    and "c \<in> ids" and "r_role (nt_nodes s c) \<noteq> RoleLeader" and "r_currentTerm (nt_nodes s c) + 1 < 2 ^ 64"
    and "vs \<noteq> []" and "distinct vs" and "set vs \<subseteq> ids - {c}" and "(card ids - 1) div 2 \<le> length vs"
    and "\<forall>v\<in>set vs. may_vote (vote_request (nt_nodes s c)) (nt_nodes s v)"
  shows "\<exists>s'. (net_step ap ids)\<^sup>*\<^sup>* s s' \<and>
    (\<forall>i\<in>ids. r_role (nt_nodes s' i) = RoleLeader \<and> r_currentTerm (nt_nodes s' i) = r_currentTerm (nt_nodes s c) + 1
      \<longleftrightarrow> i = c)"
proof -
  note inv = net_reachable_inv [OF assms(1,3-5,2)]
  note c = election_invD(6) [OF inv assms(6)]
  have "majority (nt_nodes s c) \<le> length vs + 1" using peers_majority [OF inv assms(6,3)] assms(12) by simp
  then obtain s' where s': "(net_step ap ids)\<^sup>*\<^sup>* s s'" "r_role (nt_nodes s' c) = RoleLeader"
    "r_currentTerm (nt_nodes s' c) = r_currentTerm (nt_nodes s c) + 1"
    using election_succeeds [of c ids s vs ap] c assms(6-13) by blast
  note inv' = net_reachable_inv [OF reachable_steps [OF s'(1) assms(1)] assms(3-5,2)]
  have "i = c" if "i \<in> ids" "r_role (nt_nodes s' i) = RoleLeader" "r_currentTerm (nt_nodes s' i) = r_currentTerm (nt_nodes s c) + 1" for i
    using unique_leader [OF assms(3,4) election_invD(3,5) [OF inv']] election_invD(6) [OF inv'] that s'(2,3) assms(6) by metis
  with s' show ?thesis by blast
qed

theorem election_liveness_witness:
  "\<exists>s'. (net_step demo_apply {''a'', ''b'', ''c''})\<^sup>*\<^sup>* (fresh_net [''a'', ''b'', ''c''] []) s' \<and>
     (\<forall>i\<in>{''a'', ''b'', ''c''}. r_role (nt_nodes s' i) = RoleLeader \<and> r_currentTerm (nt_nodes s' i) = 1 \<longleftrightarrow> i = ''b'')"
proof -
  let ?ms = "[''a'', ''b'', ''c'']"
  let ?s = "fresh_net ?ms ([] :: Entry list)"
  have r: "net_reachable demo_apply {''a'', ''b'', ''c''} ?s"
    using net_reachable.start [OF fresh_net_start [of ?ms]] by simp
  have f: "r_role (nt_nodes ?s i) = RoleFollower" "r_currentTerm (nt_nodes ?s i) = 0"
    "may_vote (vote_request (nt_nodes ?s j)) (nt_nodes ?s i)" for i j
    by (simp_all add: fresh_node(4,5,7))
  show ?thesis
    using election_liveness [OF r, of "''b''" "[''a'']"] f by (simp add: static_def demo_apply_def)
qed

text \<open>
  C31: With an even number of members the majority of the code is not one: it takes half of the
  members as enough, since it divides the number of the other members. In a cluster of four, a run
  without any fault leads to two different leaders in the same term.
\<close>

theorem even_cluster_two_leaders:
  "\<exists>s. net_reachable demo_apply {''a'', ''b'', ''c'', ''d''} s \<and>
     r_role (nt_nodes s ''a'') = RoleLeader \<and> r_role (nt_nodes s ''b'') = RoleLeader \<and>
     r_currentTerm (nt_nodes s ''a'') = 1 \<and> r_currentTerm (nt_nodes s ''b'') = 1"
proof -
  let ?ms = "[''a'', ''b'', ''c'', ''d'']"
  let ?s = "fresh_net ?ms ([] :: Entry list)"
  have "\<exists>s'. (net_step demo_apply (set ?ms))\<^sup>*\<^sup>* ?s s' \<and> r_role (nt_nodes s' ''a'') = RoleLeader \<and>
    r_currentTerm (nt_nodes s' ''a'') = 1 \<and> (\<forall>i. i \<noteq> ''a'' \<longrightarrow> i \<noteq> ''c'' \<longrightarrow> nt_nodes s' i = nt_nodes ?s i)"
    by (rule fresh_election [where a = "[]"]) (simp_all add: card_insert_if)
  then obtain s1 where s1: "(net_step demo_apply (set ?ms))\<^sup>*\<^sup>* ?s s1" "r_role (nt_nodes s1 ''a'') = RoleLeader"
    "r_currentTerm (nt_nodes s1 ''a'') = 1" "\<forall>i. i \<noteq> ''a'' \<longrightarrow> i \<noteq> ''c'' \<longrightarrow> nt_nodes s1 i = nt_nodes ?s i" by (elim exE conjE)
  have "\<exists>s'. (net_step demo_apply (set ?ms))\<^sup>*\<^sup>* s1 s' \<and> r_role (nt_nodes s' ''b'') = RoleLeader \<and>
    r_currentTerm (nt_nodes s' ''b'') = 1 \<and> (\<forall>i. i \<noteq> ''b'' \<longrightarrow> i \<noteq> ''d'' \<longrightarrow> nt_nodes s' i = nt_nodes s1 i)"
    by (rule fresh_election [where a = "[]"]) (simp_all add: card_insert_if s1(4))
  then obtain s2 where s2: "(net_step demo_apply (set ?ms))\<^sup>*\<^sup>* s1 s2" "r_role (nt_nodes s2 ''b'') = RoleLeader"
    "r_currentTerm (nt_nodes s2 ''b'') = 1" "\<forall>i. i \<noteq> ''b'' \<longrightarrow> i \<noteq> ''d'' \<longrightarrow> nt_nodes s2 i = nt_nodes s1 i" by (elim exE conjE)
  have "net_reachable demo_apply (set ?ms) s2"
    using reachable_steps [OF rtranclp_trans [OF s1(1) s2(1)] net_reachable.start [OF fresh_net_start]] by simp
  moreover have "nt_nodes s2 ''a'' = nt_nodes s1 ''a''" using s2(4) by simp
  ultimately show ?thesis using s1(2,3) s2(2,3) by (intro exI [of _ s2]) simp
qed

end
