(* ===== verification/Raft_Log.thy ===== *)
theory Raft_Log
  imports Raft_Election
begin

text \<open>
  The logs of a cluster of Raft nodes (\<open>internal/raft/node.go\<close>), over the step relation of
  \<open>Raft_Election\<close>: two logs that have an entry of the same term at the same position agree up to that
  position.

  The proof follows a set of logs: all logs that nodes have had so far. An append request is a snapshot of
  one of them, and a follower that accepts it takes over that log. So only a proposal adds a log, and the
  leader that makes it is the only node that ever created entries of its term.
\<close>

section \<open>Invariant\<close>

definition matching :: "Entry list \<Rightarrow> Entry list \<Rightarrow> bool" where
  "matching l h \<longleftrightarrow> (\<forall>k. k < length l \<and> k < length h \<and> e_Term (l ! k) = e_Term (h ! k) \<longrightarrow> take (Suc k) l = take (Suc k) h)"

text \<open>A request that carries the end of a log.\<close>

definition snapshot :: "AppendEntriesRequest \<Rightarrow> Entry list \<Rightarrow> bool" where
  "snapshot req g \<longleftrightarrow> ae_PrevLogIndex req < length g \<and> ae_PrevLogTerm req = e_Term (g ! ae_PrevLogIndex req) \<and>
     ae_Entries req = drop (ae_PrevLogIndex req + 1) g"

text \<open>A log holds every entry of a term that some log of the set has.\<close>

definition owns_term :: "Entry list set \<Rightarrow> nat \<Rightarrow> Entry list \<Rightarrow> bool" where
  "owns_term H t l \<longleftrightarrow> (\<forall>h\<in>H. \<forall>k<length h. e_Term (h ! k) = t \<longrightarrow> k < length l \<and> take (Suc k) h = take (Suc k) l)"

definition logs_ok :: "(string \<times> nat) set \<Rightarrow> Entry list set \<Rightarrow> bool" where
  "logs_ok E H \<longleftrightarrow> (\<forall>l\<in>H. \<forall>h\<in>H. matching l h) \<and> (\<forall>h\<in>H. indexed h) \<and>
     (\<forall>h\<in>H. \<forall>k<length h. 0 < e_Term (h ! k) \<longrightarrow> (\<exists>c. (c, e_Term (h ! k)) \<in> E))"

definition node_log_ok :: "Entry list set \<Rightarrow> RaftNode \<Rightarrow> bool" where
  "node_log_ok H n \<longleftrightarrow> r_log n \<in> H \<and> (r_role n \<noteq> RoleFollower \<longrightarrow> 0 < r_currentTerm n) \<and>
     (r_role n = RoleLeader \<longrightarrow> owns_term H (r_currentTerm n) (r_log n))"

definition log_inv :: "string set \<Rightarrow> 's net \<Rightarrow> Entry list set \<Rightarrow> bool" where
  "log_inv ids s H \<longleftrightarrow> logs_ok (nt_elected s) H \<and> (\<forall>i\<in>ids. node_log_ok H (nt_nodes s i)) \<and>
     (\<forall>l v req. AppReq l v req \<in> nt_msgs s \<longrightarrow> (\<exists>g\<in>H. snapshot req g))"

lemma log_invD:
  assumes "log_inv ids s H"
  shows "logs_ok (nt_elected s) H" "i \<in> ids \<Longrightarrow> node_log_ok H (nt_nodes s i)"
    "AppReq l v req \<in> nt_msgs s \<Longrightarrow> \<exists>g\<in>H. snapshot req g"
  using assms by (auto simp: log_inv_def)

section \<open>Lemmas\<close>

lemma logs_ok_mono: "logs_ok E H \<Longrightarrow> E \<subseteq> E' \<Longrightarrow> logs_ok E' H"
  unfolding logs_ok_def by blast

lemma matching_sym: "matching l h \<Longrightarrow> matching h l"
  unfolding matching_def by metis

lemma sent_snapshot:
  assumes "\<And>m. m \<in> set ms \<Longrightarrow> is_send m \<Longrightarrow> append_of n m" and "AppReq l v req \<in> sent i ms"
  shows "snapshot req (r_log n)"
proof -
  obtain addr where "SendAppendEntries v addr req \<in> set ms" using assms(2) by (auto simp: sent_def)
  then have "append_of n (SendAppendEntries v addr req)" by (rule assms(1)) (simp add: is_send_def)
  then show ?thesis by (auto simp: append_of_def snapshot_def)
qed

text \<open>A follower that accepts a snapshot of a log takes over this log.\<close>

lemma accepted_snapshot:
  assumes "logs_ok E H" and "r_log n \<in> H" and "g \<in> H" and "snapshot req g" and "accepts_append req n"
  shows "appended req (r_log n) = g"
proof -
  let ?k = "ae_PrevLogIndex req"
  have k: "?k < length g" "?k < length (r_log n)" "e_Term (r_log n ! ?k) = e_Term (g ! ?k)"
    using assms(4,5) by (simp_all add: snapshot_def accepts_append_def)
  have "matching (r_log n) g" "indexed g" using assms(1-3) by (simp_all add: logs_ok_def)
  then have "take (?k + 1) (r_log n) = take (?k + 1) g" using k by (simp add: matching_def)
  then show ?thesis
    using appended_agrees [of g ?k req "length g" "r_log n"] \<open>indexed g\<close> k(1) assms(4) by (simp add: snapshot_def)
qed

text \<open>A step that changes one node, adds no log and makes nobody leader.\<close>

lemma log_frame:
  assumes inv: "log_inv ids s H" and same: "nt_elected s' = nt_elected s" "\<And>j. j \<noteq> i \<Longrightarrow> nt_nodes s' j = nt_nodes s j"
    and log: "r_log (nt_nodes s' i) \<in> H" and cand: "r_role (nt_nodes s' i) \<noteq> RoleFollower \<Longrightarrow> 0 < r_currentTerm (nt_nodes s' i)"
    and lead: "r_role (nt_nodes s' i) = RoleLeader \<Longrightarrow> r_role (nt_nodes s i) = RoleLeader \<and>
      r_currentTerm (nt_nodes s' i) = r_currentTerm (nt_nodes s i) \<and> r_log (nt_nodes s' i) = r_log (nt_nodes s i)"
    and msgs: "\<And>l v req. AppReq l v req \<in> nt_msgs s' \<Longrightarrow> AppReq l v req \<in> nt_msgs s \<or> snapshot req (r_log (nt_nodes s' i))"
  shows "log_inv ids s' H"
proof -
  have "node_log_ok H (nt_nodes s' j)" if "j \<in> ids" for j
  proof (cases "j = i")
    case True
    then show ?thesis using log_invD(2) [OF inv that] log cand lead by (auto simp: node_log_ok_def)
  next
    case False
    then show ?thesis using log_invD(2) [OF inv that] same(2) by simp
  qed
  moreover have "\<exists>g\<in>H. snapshot req g" if "AppReq l v req \<in> nt_msgs s'" for l v req
    using msgs [OF that] log log_invD(3) [OF inv] by blast
  ultimately show ?thesis using log_invD(1) [OF inv] same(1) by (simp add: log_inv_def)
qed

text \<open>A new leader: no entry of its term exists.\<close>

lemma log_win:
  assumes inv: "log_inv ids s H" and el: "election_inv ids s" and el': "election_inv ids s'"
    and fin: "finite ids" "odd (card ids)"
    and cand: "r_role (nt_nodes s c) = RoleCandidate" "r_currentTerm (nt_nodes s c) = t" "c \<in> ids"
    and same: "nt_elected s' = nt_elected s \<union> {(c, t)}" "\<And>j. j \<noteq> c \<Longrightarrow> nt_nodes s' j = nt_nodes s j"
    and n': "r_log (nt_nodes s' c) = r_log (nt_nodes s c)" "r_currentTerm (nt_nodes s' c) = t"
    and msgs: "\<And>l v req. AppReq l v req \<in> nt_msgs s' \<Longrightarrow> AppReq l v req \<in> nt_msgs s \<or> snapshot req (r_log (nt_nodes s' c))"
  shows "log_inv ids s' H"
proof -
  have L: "logs_ok (nt_elected s) H" by (rule log_invD(1) [OF inv])
  have c: "node_log_ok H (nt_nodes s c)" by (rule log_invD(2) [OF inv cand(3)])
  have t: "0 < t" using c cand by (simp add: node_log_ok_def)
  have "(c, t) \<notin> nt_elected s" using elected_okD(2) [OF election_invD(5) [OF el], of c t] cand by (auto simp: led_def)
  moreover have "b = c" if "(b, t) \<in> nt_elected s" for b
    using unique_leader [OF fin election_invD(3,5) [OF el'], of b t c] that same(1) by simp
  ultimately have none: "(b, t) \<notin> nt_elected s" for b by blast
  have "e_Term (h ! k) \<noteq> t" if "h \<in> H" "k < length h" for h k
    using L that t none unfolding logs_ok_def by metis
  then have own: "owns_term H t l" for l by (auto simp: owns_term_def)
  have "node_log_ok H (nt_nodes s' j)" if "j \<in> ids" for j
  proof (cases "j = c")
    case True
    then show ?thesis using c n' t own by (simp add: node_log_ok_def)
  next
    case False
    then show ?thesis using log_invD(2) [OF inv that] same(2) by simp
  qed
  moreover have "\<exists>g\<in>H. snapshot req g" if "AppReq l v req \<in> nt_msgs s'" for l v req
    using msgs [OF that] c n'(1) log_invD(3) [OF inv] unfolding node_log_ok_def by metis
  moreover have "logs_ok (nt_elected s') H" by (rule logs_ok_mono [OF L]) (auto simp: same(1))
  ultimately show ?thesis by (simp add: log_inv_def)
qed

text \<open>A proposal: the new log agrees with every other, since the leader owns its term.\<close>

lemma extended_matching:
  assumes "matching l h" and "owns_term H t l" and "h \<in> H" and "e_Term ent = t"
  shows "matching (l @ [ent]) h"
  unfolding matching_def
proof (intro allI impI)
  fix k
  assume k: "k < length (l @ [ent]) \<and> k < length h \<and> e_Term ((l @ [ent]) ! k) = e_Term (h ! k)"
  show "take (Suc k) (l @ [ent]) = take (Suc k) h"
  proof (cases "k < length l")
    case True
    then show ?thesis using assms(1) k by (simp add: matching_def nth_append)
  next
    case False
    then have "k = length l" using k by simp
    then have "e_Term (h ! k) = t" using k assms(4) by simp
    then show ?thesis using assms(2,3) k False by (auto simp: owns_term_def)
  qed
qed

lemma owns_term_extended:
  assumes "owns_term H t l"
  shows "owns_term (insert (l @ [ent]) H) t (l @ [ent])"
proof -
  have "k < length (l @ [ent]) \<and> take (Suc k) h = take (Suc k) (l @ [ent])" if "h \<in> H" "k < length h" "e_Term (h ! k) = t" for h k
  proof -
    have "k < length l \<and> take (Suc k) h = take (Suc k) l" using assms that unfolding owns_term_def by blast
    then show ?thesis by simp
  qed
  then show ?thesis unfolding owns_term_def by blast
qed

lemma owns_term_insert:
  assumes "owns_term H t' l'" and "l \<in> H" and "e_Term ent \<noteq> t'"
  shows "owns_term (insert (l @ [ent]) H) t' l'"
proof -
  have "k < length l' \<and> take (Suc k) (l @ [ent]) = take (Suc k) l'" if "k < length (l @ [ent])" "e_Term ((l @ [ent]) ! k) = t'" for k
    using that assms by (cases "k < length l") (auto simp: owns_term_def nth_append)
  then show ?thesis using assms(1) unfolding owns_term_def by blast
qed

lemma logs_ok_extended:
  assumes "logs_ok E H" and "l \<in> H" and "owns_term H t l" and "(c, t) \<in> E" and "e_Term ent = t" "e_Index ent = length l"
  shows "logs_ok E (insert (l @ [ent]) H)"
proof -
  have m: "matching (l @ [ent]) h" if "h \<in> H" for h
    using extended_matching [OF _ assms(3) that assms(5)] assms(1,2) that by (simp add: logs_ok_def)
  moreover have "matching (l @ [ent]) (l @ [ent])" by (simp add: matching_def)
  moreover have "indexed (l @ [ent])" using assms(1,2,6) by (simp add: logs_ok_def indexed_def nth_append)
  moreover have "\<exists>c. (c, e_Term ((l @ [ent]) ! k)) \<in> E" if "k < length (l @ [ent])" "0 < e_Term ((l @ [ent]) ! k)" for k
    using that assms unfolding logs_ok_def by (cases "k < length l") (auto simp: nth_append)
  ultimately show ?thesis using assms(1) matching_sym [OF m] unfolding logs_ok_def by blast
qed

lemma log_propose:
  assumes inv: "log_inv ids s H" and el: "election_inv ids s" and fin: "finite ids" "odd (card ids)" and i: "i \<in> ids"
    and lead: "r_role (nt_nodes s i) = RoleLeader" "r_currentTerm (nt_nodes s i) = t"
    and same: "nt_elected s' = nt_elected s" "\<And>j. j \<noteq> i \<Longrightarrow> nt_nodes s' j = nt_nodes s j"
    and n': "r_log (nt_nodes s' i) = r_log (nt_nodes s i) @ [ent]" "r_currentTerm (nt_nodes s' i) = t"
    and ent: "e_Term ent = t" "e_Index ent = length (r_log (nt_nodes s i))"
    and msgs: "\<And>l v req. AppReq l v req \<in> nt_msgs s' \<Longrightarrow> AppReq l v req \<in> nt_msgs s \<or> snapshot req (r_log (nt_nodes s' i))"
  shows "log_inv ids s' (insert (r_log (nt_nodes s' i)) H)"
proof -
  let ?l = "r_log (nt_nodes s i)" and ?H = "insert (r_log (nt_nodes s' i)) H"
  have n: "node_log_ok H (nt_nodes s i)" by (rule log_invD(2) [OF inv i])
  have e: "(i, t) \<in> nt_elected s" using election_invD(6) [OF el i] lead by simp
  have own: "?l \<in> H" "owns_term H t ?l" "0 < t" using n lead by (simp_all add: node_log_ok_def)
  have "node_log_ok ?H (nt_nodes s' j)" if j: "j \<in> ids" for j
  proof (cases "j = i")
    case True
    then show ?thesis using own n' owns_term_extended [OF own(2)] by (simp add: node_log_ok_def)
  next
    case False
    have nj: "node_log_ok H (nt_nodes s j)" by (rule log_invD(2) [OF inv j])
    have "t \<noteq> r_currentTerm (nt_nodes s j)" if "r_role (nt_nodes s j) = RoleLeader"
      using unique_leader [OF fin election_invD(3,5) [OF el] e, of j] election_invD(6) [OF el j] that False by auto
    then show ?thesis
      using nj same(2) [OF False] owns_term_insert [OF _ own(1)] ent(1) n'(1) by (auto simp: node_log_ok_def)
  qed
  moreover have "logs_ok (nt_elected s') ?H"
    unfolding same(1) n'(1) by (rule logs_ok_extended [OF log_invD(1) [OF inv] own(1,2) e ent])
  moreover have "\<exists>g\<in>?H. snapshot req g" if "AppReq l v req \<in> nt_msgs s'" for l v req
    using msgs [OF that] log_invD(3) [OF inv] by blast
  ultimately show ?thesis by (simp add: log_inv_def)
qed

subsection \<open>Every step keeps the invariant\<close>

lemma outcome_logs:
  assumes "raft_inv n"
  shows "startElection e n = Some (n', el, ms) \<Longrightarrow> r_log n' = r_log n"
    and "HandleRequestVote e req n = Some (n', vresp) \<Longrightarrow> r_log n' = r_log n"
    and "voteReply e (Some vresp) n = (n', go) \<Longrightarrow> r_log n' = r_log n"
    and "electionWon e t n = Some (n', ms) \<Longrightarrow> r_log n' = r_log n"
    and "HandleAppendEntries ap e areq s n = Some (s', n', ms, aresp) \<Longrightarrow>
      r_log n' = (if accepts_append areq n then appended areq (r_log n) else r_log n)"
    and "appendReply ap e p areq reply s n = Some (s', n', ms) \<Longrightarrow> r_log n' = r_log n"
    and "Propose ap w cmd s n = Some (Inr (k, s', n', ms)) \<Longrightarrow>
      r_log n' = r_log n @ [\<lparr>e_Term = r_currentTerm n, e_Index = length (r_log n), e_Command = cmd\<rparr>]"
proof -
  show "r_log n' = r_log n" if "startElection e n = Some (n', el, ms)"
    by (rule startElection_outcome [OF assms, of e]) (use that in simp)
  show "r_log n' = r_log n" if "HandleRequestVote e req n = Some (n', vresp)"
    by (rule HandleRequestVote_outcome [OF assms, of e req]) (use that in simp)
  show "r_log n' = r_log n" if "voteReply e (Some vresp) n = (n', go)"
    by (rule voteReply_outcome [of e vresp n]) (use that in simp)
  show "r_log n' = r_log n" if "electionWon e t n = Some (n', ms)"
    by (rule electionWon_outcome [OF assms, of e t]) (use that in simp)
  show "r_log n' = (if accepts_append areq n then appended areq (r_log n) else r_log n)"
    if "HandleAppendEntries ap e areq s n = Some (s', n', ms, aresp)"
    by (rule HandleAppendEntries_outcome [OF assms, of ap e areq s]) (use that in simp)
  show "r_log n' = r_log n" if "appendReply ap e p areq reply s n = Some (s', n', ms)"
    by (rule appendReply_outcome [OF assms, of ap e p areq reply s]) (use that in simp)
  show "r_log n' = r_log n @ [\<lparr>e_Term = r_currentTerm n, e_Index = length (r_log n), e_Command = cmd\<rparr>]"
    if h: "Propose ap w cmd s n = Some (Inr (k, s', n', ms))"
  proof -
    have "r_role n = RoleLeader" using h by (auto simp: Propose_def split: if_splits)
    then show ?thesis by (rule Propose_outcome [OF assms, of ap w cmd s]) (use h in simp)
  qed
qed

lemma step_logs:
  assumes "net_step ap ids s s'" and inv: "log_inv ids s H" and el: "election_inv ids s"
    and fin: "finite ids" "odd (card ids)" and nil: "[] \<notin> ids" and ap: "static ap"
  shows "\<exists>H'. log_inv ids s' H'"
proof -
  have el': "election_inv ids s'" by (rule net_step_inv [OF assms(1) el fin nil ap])
  have node: "raft_inv (nt_nodes s i)" "node_log_ok H (nt_nodes s i)" if "i \<in> ids" for i
    using election_invD(6) [OF el that] log_invD(2) [OF inv that] by simp_all
  note logD = node_log_ok_def
  show ?thesis
    using assms(1)
  proof cases
    case (timeout i e n' x ms)
    note D = startElectionD [OF node(1) [OF timeout(2)] timeout(5)]
    have "log_inv ids s' H" unfolding timeout(1)
      by (rule log_frame [OF inv, where i = i])
        (use D(2,5,9) timeout(4) outcome_logs(1) [OF node(1) [OF timeout(2)] timeout(5)] node(2) [OF timeout(2)] in
          \<open>auto simp: logD wrapu64_def sent_def\<close>)
    then show ?thesis by blast
  next
    case (vote c v req e n' resp)
    have v: "v \<in> ids" using msgs_okD(1) [OF election_invD(2) [OF el] vote(2)] by simp
    note D = HandleRequestVoteD(4,5) [OF node(1) [OF v] vote(3)]
    have "log_inv ids s' H" unfolding vote(1)
      by (rule log_frame [OF inv, where i = v])
        (use D outcome_logs(2) [OF node(1) [OF v] vote(3)] node(2) [OF v] in \<open>auto simp: logD split: if_splits\<close>)
    then show ?thesis by blast
  next
    case (vote_refused v c req resp e n')
    have c: "c \<in> ids" using msgs_okD(1,2) [OF election_invD(2) [OF el]] vote_refused(2) by blast
    note D = voteReplyD(4-6) [OF vote_refused(3)]
    have "log_inv ids s' H" unfolding vote_refused(1)
      by (rule log_frame [OF inv, where i = c])
        (use D outcome_logs(3) [OF node(1) [OF c] vote_refused(3)] node(2) [OF c] in \<open>auto simp: logD\<close>)
    then show ?thesis by blast
  next
    case (vote_counted v c req resp x counted e n' x' won)
    have c: "c \<in> ids" using msgs_okD(1,2) [OF election_invD(2) [OF el]] vote_counted(2) by blast
    have "n' = nt_nodes s c" using voteReplyD(7) [OF vote_counted(5)] by simp
    then have "log_inv ids s' H" unfolding vote_counted(1)
      by (intro log_frame [OF inv, where i = c]) (use node(2) [OF c] in \<open>auto simp: logD\<close>)
    then show ?thesis by blast
  next
    case (win c t e n' ms)
    have c: "c \<in> ids" using election_invD(4) [OF el] win(2) by (simp add: ballots_ok_def quorum_for_def)
    note D = electionWonD [OF node(1) [OF c] win(3)] and l = outcome_logs(4) [OF node(1) [OF c] win(3)]
    have m: "snapshot req (r_log n')" if "AppReq x v req \<in> sent c ms" for x v req
      by (rule sent_snapshot [OF _ that]) (use D(7) in blast)
    show ?thesis
    proof (cases "r_role (nt_nodes s c) = RoleCandidate \<and> r_currentTerm (nt_nodes s c) = t")
      case True
      have "log_inv ids s' H"
        by (rule log_win [OF inv el el' fin, where c = c and t = t]) (use True c D(4) l m in \<open>auto simp: win(1)\<close>)
      then show ?thesis by blast
    next
      case False
      have "log_inv ids s' H"
        by (rule log_frame [OF inv, where i = c]) (use False D(4,6) l m node(2) [OF c] in \<open>auto simp: win(1) logD\<close>)
      then show ?thesis by blast
    qed
  next
    case (append x v req e a' n' ms resp)
    have v: "v \<in> ids" "v \<noteq> x" "(x, ae_Term req) \<in> nt_elected s" using msgs_okD(3) [OF election_invD(2) [OF el] append(2)] by auto
    note D = HandleAppendEntriesD [OF node(1) [OF v(1)] ap append(3)]
    obtain g where g: "g \<in> H" "snapshot req g" using log_invD(3) [OF inv append(2)] by blast
    have log: "r_log n' \<in> H"
      using outcome_logs(5) [OF node(1) [OF v(1)] append(3)] accepted_snapshot [OF log_invD(1) [OF inv] _ g] node(2) [OF v(1)] g(1)
      by (auto simp: logD)
    have old: "ae_Term req < r_currentTerm (nt_nodes s v)" if "r_role n' = RoleLeader"
      using D(6) that by (cases "ae_Term req < r_currentTerm (nt_nodes s v)") auto
    then have keep: "r_log n' = r_log (nt_nodes s v)" if "r_role n' = RoleLeader"
      using outcome_logs(5) [OF node(1) [OF v(1)] append(3)] that by (auto simp: accepts_append_def)
    have "log_inv ids s' H" unfolding append(1)
      by (rule log_frame [OF inv, where i = v])
        (use log keep old D(4-7) node(2) [OF v(1)] sent_none [of ms v] in \<open>auto simp: logD max_def\<close>)
    then show ?thesis by blast
  next
    case (append_reply v x req resp e a' n' ms)
    have x: "x \<in> ids" using msgs_okD(3,4) [OF election_invD(2) [OF el]] append_reply(2) by blast
    note D = appendReplyD [OF node(1) [OF x] ap append_reply(3)]
    have m: "snapshot areq (r_log n')" if "AppReq y z areq \<in> sent x ms" for y z areq
      by (rule sent_snapshot [OF _ that]) (use D(7) in blast)
    have same: "r_currentTerm n' = r_currentTerm (nt_nodes s x) \<and> r_role n' = r_role (nt_nodes s x)" if "r_role n' \<noteq> RoleFollower"
      using D(4-6) that by (cases "r_currentTerm n' = r_currentTerm (nt_nodes s x)") auto
    have "log_inv ids s' H" unfolding append_reply(1)
      by (rule log_frame [OF inv, where i = x])
        (use same outcome_logs(6) [OF node(1) [OF x] append_reply(3)] node(2) [OF x] m in \<open>auto simp: logD\<close>)
    then show ?thesis by blast
  next
    case (heartbeat i n' ms e)
    have D: "core n' = core (nt_nodes s i)" "\<forall>m\<in>set ms. append_of (nt_nodes s i) m"
      by (rule replicate_log_inv [OF node(1) [OF heartbeat(2)]]; use heartbeat(4) in simp)+
    have m: "snapshot req (r_log (nt_nodes s i))" if "AppReq y z req \<in> sent i ms" for y z req
      by (rule sent_snapshot [OF _ that]) (use D(2) in blast)
    have "log_inv ids s' H" unfolding heartbeat(1)
      by (rule log_frame [OF inv, where i = i])
        (use coreD(3,4,6) [OF D(1)] node(2) [OF heartbeat(2)] m in \<open>auto simp: logD resetHeartbeatDeadline_def\<close>)
    then show ?thesis by blast
  next
    case (propose i w cmd k a' n' ms)
    note D = ProposeD [OF node(1) [OF propose(2)] ap propose(3)]
    have m: "snapshot req (r_log n')" if "AppReq y z req \<in> sent i ms" for y z req
      by (rule sent_snapshot [OF _ that]) (use D(8) in blast)
    have "log_inv ids s' (insert (r_log (nt_nodes s' i)) H)"
      by (rule log_propose [OF inv el fin propose(2) D(1) refl])
        (use outcome_logs(7) [OF node(1) [OF propose(2)] propose(3)] D(5) m in \<open>auto simp: propose(1)\<close>)
    then show ?thesis by blast
  next
    case (cancel i k)
    have "log_inv ids s' H" unfolding cancel(1)
      by (rule log_frame [OF inv, where i = i]) (use node(2) [OF cancel(2)] in \<open>auto simp: logD proposeCanceled_def\<close>)
    then show ?thesis by blast
  qed
qed

lemma net_start_logs:
  assumes "net_start ids s"
  shows "\<exists>H. log_inv ids s H"
proof
  let ?l = "[\<lparr>e_Term = 0, e_Index = 0, e_Command = empty_Command CommandNoop\<rparr>]"
  have "node_log_ok {?l} (nt_nodes s i)" if i: "i \<in> ids" for i
  proof -
    obtain e addr peers cfg where "nt_nodes s i = NewNode e i addr peers cfg"
      using bspec [OF conjunct1 [OF assms [unfolded net_start_def]] i] by blast
    then show ?thesis by (simp add: NewNode_def node_log_ok_def)
  qed
  moreover have "logs_ok {} {?l}" by (simp add: logs_ok_def matching_def indexed_def)
  moreover have "nt_msgs s = {}" "nt_elected s = {}" using conjunct2 [OF assms [unfolded net_start_def]] by simp_all
  ultimately show "log_inv ids s {?l}" by (simp add: log_inv_def)
qed

lemma net_reachable_logs:
  assumes "net_reachable ap ids s" and "finite ids" and "odd (card ids)" and "[] \<notin> ids" and "static ap"
  shows "\<exists>H. log_inv ids s H"
  using assms(1)
proof induction
  case (start s)
  then show ?case by (rule net_start_logs)
next
  case (step s s')
  then show ?case using step_logs [OF step.hyps(2) _ net_reachable_inv [OF step.hyps(1) assms(2-5)] assms(2-5)] by blast
qed

section \<open>Properties\<close>

text \<open>
  C3: Log matching. In a cluster with an odd number of members and no membership change, under any loss, delay,
  duplication and reordering of the messages and any interleaving of elections, replication and proposals: if
  the logs of two nodes have an entry of the same term at the same position, then they are identical up to that
  position. And while a node is leader, every entry of its term that any node has is in its log.
\<close>

theorem log_matching:
  assumes "net_reachable ap ids s" and "static ap" and "finite ids" and "odd (card ids)" and "[] \<notin> ids"
    and "a \<in> ids" and "b \<in> ids" and "k < length (r_log (nt_nodes s b))"
  shows "(k < length (r_log (nt_nodes s a)) \<and> e_Term (r_log (nt_nodes s a) ! k) = e_Term (r_log (nt_nodes s b) ! k) \<longrightarrow>
      take (Suc k) (r_log (nt_nodes s a)) = take (Suc k) (r_log (nt_nodes s b))) \<and>
    (r_role (nt_nodes s a) = RoleLeader \<and> e_Term (r_log (nt_nodes s b) ! k) = r_currentTerm (nt_nodes s a) \<longrightarrow>
      k < length (r_log (nt_nodes s a)) \<and> r_log (nt_nodes s a) ! k = r_log (nt_nodes s b) ! k)"
proof -
  let ?a = "r_log (nt_nodes s a)" and ?b = "r_log (nt_nodes s b)"
  obtain H where inv: "log_inv ids s H" using net_reachable_logs [OF assms(1,3-5,2)] by blast
  note n = log_invD(2) [OF inv assms(6)] log_invD(2) [OF inv assms(7)]
  have "matching ?a ?b" using log_invD(1) [OF inv] n by (simp add: logs_ok_def node_log_ok_def)
  then have 1: "k < length ?a \<and> e_Term (?a ! k) = e_Term (?b ! k) \<longrightarrow> take (Suc k) ?a = take (Suc k) ?b"
    using assms(8) by (simp add: matching_def)
  have "k < length ?a \<and> take (Suc k) ?b = take (Suc k) ?a"
    if "r_role (nt_nodes s a) = RoleLeader" "e_Term (?b ! k) = r_currentTerm (nt_nodes s a)"
    using n that assms(8) unfolding node_log_ok_def owns_term_def by blast
  then have "k < length ?a \<and> ?a ! k = ?b ! k"
    if "r_role (nt_nodes s a) = RoleLeader" "e_Term (?b ! k) = r_currentTerm (nt_nodes s a)"
    using that by (metis lessI nth_take)
  with 1 show ?thesis by blast
qed

text \<open>A run: node \<open>a\<close> is elected by \<open>b\<close>, takes a proposal and sends it to \<open>b\<close>.\<close>

definition run_start :: "string \<Rightarrow> RaftNode" where
  "run_start i = NewNode demo_env i i (map (\<lambda>p. (p, p)) (filter (\<lambda>p. p \<noteq> i) [''a'', ''b'', ''c''])) DefaultRaftConfig"
definition run_candidate :: RaftNode where
  "run_candidate = resetElectionDeadline demo_env ((run_start ''a'')\<lparr>r_role := RoleCandidate, r_currentTerm := 1, r_votedFor := ''a'', r_leaderID := []\<rparr>)"
definition run_election :: election where
  "run_election = \<lparr>el_term = 1, el_majority = 2, el_votes = 1, el_once = False\<rparr>"
definition run_request :: RequestVoteRequest where
  "run_request = \<lparr>rv_Term = 1, rv_CandidateID = ''a'', rv_LastLogIndex = 0, rv_LastLogTerm = 0\<rparr>"
definition run_vote :: "RaftNode \<times> RequestVoteResponse" where "run_vote = the (HandleRequestVote demo_env run_request (run_start ''b''))"
definition run_win :: "RaftNode \<times> effect list" where "run_win = the (electionWon demo_env 1 run_candidate)"
definition run_entry :: Entry where "run_entry = demo_entry 1 1 ''x''"
definition run_propose :: "nat \<times> Entry list \<times> RaftNode \<times> effect list" where
  "run_propose = projr (the (Propose demo_apply 0 (e_Command run_entry) [] (fst run_win)))"
definition run_append :: AppendEntriesRequest where
  "run_append = \<lparr>ae_Term = 1, ae_LeaderID = ''a'', ae_PrevLogIndex = 0, ae_PrevLogTerm = 0, ae_Entries = [run_entry], ae_LeaderCommit = 0\<rparr>"
definition run_accept :: "Entry list \<times> RaftNode \<times> effect list \<times> AppendEntriesResponse" where
  "run_accept = the (HandleAppendEntries demo_apply demo_env run_append [] (fst run_vote))"

lemma run_elects:
  "startElection demo_env (run_start ''a'') = Some (run_candidate, run_election, [SendRequestVote ''b'' ''b'' run_request, SendRequestVote ''c'' ''c'' run_request])"
  by (simp add: startElection_def run_candidate_def run_election_def run_request_def run_start_def NewNode_def wrapu64_def
      lastLogIndexTerm_def peerAddrs_def majority_def Let_def)

lemma run_returns:
  "HandleRequestVote demo_env run_request (run_start ''b'') \<noteq> None" "electionWon demo_env 1 run_candidate \<noteq> None"
  "HandleAppendEntries demo_apply demo_env run_append [] (fst run_vote) \<noteq> None"
  by code_simp+

lemma run_values:
  "voteReply demo_env (Some (snd run_vote)) run_candidate = (run_candidate, True)" "snd (countVote run_election)"
  by code_simp+

lemma run_logs:
  "Propose demo_apply 0 (e_Command run_entry) [] (fst run_win) = Some (Inr run_propose)"
  "SendAppendEntries ''b'' ''b'' run_append \<in> set (snd (snd (snd run_propose)))"
  "r_log (fst (snd (snd run_propose))) = r_log (run_start ''a'') @ [run_entry]" "r_log (fst (snd run_accept)) = r_log (run_start ''a'') @ [run_entry]"
  by code_simp+

lemma run_reached:
  "\<exists>s. net_reachable demo_apply {''a'', ''b'', ''c''} s \<and> nt_nodes s ''a'' = fst (snd (snd run_propose)) \<and> nt_nodes s ''b'' = fst (snd run_accept)"
proof -
  let ?ids = "{''a'', ''b'', ''c''}" and ?ap = demo_apply
  let ?s0 = "fresh_net [''a'', ''b'', ''c''] ([] :: Entry list)"
  have n0: "nt_nodes ?s0 = run_start" "nt_apps ?s0 = (\<lambda>_. [])" by (simp_all add: fresh_net_def run_start_def fun_eq_iff)
  have r0: "net_reachable ?ap ?ids ?s0" using net_reachable.start [OF fresh_net_start [of "[''a'', ''b'', ''c'']"]] by simp
  have a: "r_role (run_start ''a'') \<noteq> RoleLeader" "r_currentTerm (run_start ''a'') + 1 < 2 ^ 64" by (simp_all add: run_start_def NewNode_def)
  obtain s1 where s1: "net_step ?ap ?ids ?s0 s1" "nt_nodes s1 = run_start(''a'' := run_candidate)" "nt_apps s1 = (\<lambda>_. [])"
    "VoteReq ''a'' ''b'' run_request \<in> nt_msgs s1" "nt_ballots s1 (''a'', 1) = Some (run_election, {})"
    using net_step.timeout [of "''a''" ?ids ?s0 demo_env _ _ _ ?ap] a run_elects n0
    by (fastforce simp: sent_def run_election_def)
  have v: "HandleRequestVote demo_env run_request (nt_nodes s1 ''b'') = Some (fst run_vote, snd run_vote)"
    using run_returns(1) s1(2) by (simp add: run_vote_def)
  obtain s2 where s2: "net_step ?ap ?ids s1 s2" "nt_nodes s2 = run_start(''a'' := run_candidate, ''b'' := fst run_vote)" "nt_apps s2 = (\<lambda>_. [])"
    "VoteResp ''b'' ''a'' run_request (snd run_vote) \<in> nt_msgs s2" "nt_ballots s2 (''a'', 1) = Some (run_election, {})"
    using net_step.vote [OF s1(4) v, of ?ap ?ids] s1(2,3,5) by fastforce
  obtain s3 where s3: "net_step ?ap ?ids s2 s3" "nt_nodes s3 = nt_nodes s2" "nt_apps s3 = nt_apps s2" "(''a'', 1) \<in> nt_won s3"
    using net_step.vote_counted [OF s2(4), of run_election "{}" demo_env run_candidate "fst (countVote run_election)" True ?ap ?ids]
      s2(2,5) run_values by (fastforce simp: run_request_def prod_eq_iff)
  have w: "electionWon demo_env 1 (nt_nodes s3 ''a'') = Some (fst run_win, snd run_win)"
    using run_returns(2) s2(2) s3(2) by (simp add: run_win_def)
  obtain s4 where s4: "net_step ?ap ?ids s3 s4" "nt_nodes s4 = run_start(''a'' := fst run_win, ''b'' := fst run_vote)" "nt_apps s4 = (\<lambda>_. [])"
    using net_step.win [OF s3(4) w, of ?ap ?ids] s2(2,3) s3(2,3) by fastforce
  obtain k ap' n' ms where p: "run_propose = (k, ap', n', ms)" by (cases run_propose)
  have pr: "Propose ?ap 0 (e_Command run_entry) (nt_apps s4 ''a'') (nt_nodes s4 ''a'') = Some (Inr (k, ap', n', ms))"
    using run_logs(1) s4(2,3) p by simp
  have sm: "SendAppendEntries ''b'' ''b'' run_append \<in> set ms" using run_logs(2) unfolding p by simp
  obtain s5 where s5: "net_step ?ap ?ids s4 s5" "nt_nodes s5 = run_start(''a'' := n', ''b'' := fst run_vote)" "nt_apps s5 ''b'' = []"
    "AppReq ''a'' ''b'' run_append \<in> nt_msgs s5"
    by (rule that [OF net_step.propose [OF _ pr]]) (use s4(2,3) sm in \<open>auto simp: sent_def fun_eq_iff\<close>)
  obtain b' n2 ms2 resp where h: "run_accept = (b', n2, ms2, resp)" by (cases run_accept)
  then have "HandleAppendEntries ?ap demo_env run_append (nt_apps s5 ''b'') (nt_nodes s5 ''b'') = Some (b', n2, ms2, resp)"
    using run_returns(3) s5(2,3) by (simp add: run_accept_def) (metis option.sel)
  from net_step.append [OF s5(4) this, of ?ids] obtain s6 where s6: "net_step ?ap ?ids s5 s6" "nt_nodes s6 = run_start(''a'' := n', ''b'' := n2)"
    using s5(2) by fastforce
  note reached = net_reachable.step [OF net_reachable.step [OF net_reachable.step [OF net_reachable.step [OF net_reachable.step [OF
    net_reachable.step [OF r0 s1(1)] s2(1)] s3(1)] s4(1)] s5(1)] s6(1)]
  show ?thesis by (intro exI [of _ s6] conjI reached) (simp_all add: s6(2) p h)
qed

theorem log_matching_witness:
  "\<exists>s. net_reachable demo_apply {''a'', ''b'', ''c''} s \<and> r_log (nt_nodes s ''b'') ! 1 = run_entry \<and>
     take 2 (r_log (nt_nodes s ''a'')) = take 2 (r_log (nt_nodes s ''b''))"
proof -
  obtain s where s: "net_reachable demo_apply {''a'', ''b'', ''c''} s" "nt_nodes s ''a'' = fst (snd (snd run_propose))" "nt_nodes s ''b'' = fst (snd run_accept)"
    using run_reached by blast
  have l: "length (r_log (run_start ''a'')) = 1" by (simp add: run_start_def NewNode_def)
  have "take 2 (r_log (nt_nodes s ''a'')) = take 2 (r_log (nt_nodes s ''b''))"
    using log_matching [OF s(1), of "''a''" "''b''" 1] run_logs(3,4) s(2,3) l by (simp add: static_def demo_apply_def numeral_2_eq_2)
  then show ?thesis using s run_logs(4) l by (auto simp: nth_append)
qed

end
