(* ===== verification/Replication_Config.thy ===== *)
theory Replication_Config
  imports Prelude
begin

text \<open>
  The settings of the replication layer (\<^verbatim>\<open>src/internal/replication/config.go\<close>) and its table of
  reachable nodes (\<^verbatim>\<open>src/internal/replication/health.go\<close>).
\<close>

section \<open>Model\<close>

subsection \<open>Settings\<close>

type_synonym WriteConsistency = string
type_synonym ReadConsistency = string

definition WriteOne :: WriteConsistency where "WriteOne = ''one''"
definition WriteQuorum :: WriteConsistency where "WriteQuorum = ''quorum''"
definition WriteAll :: WriteConsistency where "WriteAll = ''all''"

definition ReadPrimary :: ReadConsistency where "ReadPrimary = ''primary''"
definition ReadQuorum :: ReadConsistency where "ReadQuorum = ''quorum''"
definition ReadAny :: ReadConsistency where "ReadAny = ''any''"

lemmas consistency_defs =
  WriteOne_def WriteQuorum_def WriteAll_def ReadPrimary_def ReadQuorum_def ReadAny_def

record repl_config =
  rp_ReplicationFactor :: int
  rp_WriteQuorum :: int
  rp_ReadQuorum :: int
  rp_WriteConsistency :: WriteConsistency
  rp_ReadConsistency :: ReadConsistency

definition DefaultReplConfig :: repl_config where
  "DefaultReplConfig =
     \<lparr>rp_ReplicationFactor = 3, rp_WriteQuorum = 2, rp_ReadQuorum = 2,
      rp_WriteConsistency = WriteQuorum, rp_ReadConsistency = ReadQuorum\<rparr>"

datatype repl_config_error =
    FactorTooSmall
  | BadWriteQuorum int
  | BadReadQuorum int
  | BadWriteConsistency string
  | BadReadConsistency string

definition Validate :: "repl_config \<Rightarrow> repl_config_error option" where
  "Validate c =
     (if rp_ReplicationFactor c < 1 then Some FactorTooSmall
      else if rp_ReplicationFactor c = 1 then None
      else if rp_WriteQuorum c < 1 \<or> rp_ReplicationFactor c < rp_WriteQuorum c
      then Some (BadWriteQuorum (rp_ReplicationFactor c))
      else if rp_ReadQuorum c < 1 \<or> rp_ReplicationFactor c < rp_ReadQuorum c
      then Some (BadReadQuorum (rp_ReplicationFactor c))
      else if rp_WriteConsistency c \<notin> set [WriteOne, WriteQuorum, WriteAll]
      then Some (BadWriteConsistency (rp_WriteConsistency c))
      else if rp_ReadConsistency c \<notin> set [ReadPrimary, ReadQuorum, ReadAny]
      then Some (BadReadConsistency (rp_ReadConsistency c))
      else None)"

definition repl_Enabled :: "repl_config \<Rightarrow> bool" where
  "repl_Enabled c \<longleftrightarrow> 1 < rp_ReplicationFactor c"

definition Normalize :: "repl_config \<Rightarrow> repl_config" where
  "Normalize c =
     (if rp_ReplicationFactor c \<le> 1 then c\<lparr>rp_ReplicationFactor := 1\<rparr>
      else
        let defaultQuorum = rp_ReplicationFactor c div 2 + 1;
            c1 = (if rp_WriteQuorum c \<le> 0 then c\<lparr>rp_WriteQuorum := defaultQuorum\<rparr> else c);
            c2 = (if rp_ReadQuorum c1 \<le> 0 then c1\<lparr>rp_ReadQuorum := defaultQuorum\<rparr> else c1);
            c3 = (if rp_WriteConsistency c2 = [] then c2\<lparr>rp_WriteConsistency := WriteQuorum\<rparr> else c2)
        in if rp_ReadConsistency c3 = [] then c3\<lparr>rp_ReadConsistency := ReadQuorum\<rparr> else c3)"

definition RequiredWriteAcks :: "repl_config \<Rightarrow> int" where
  "RequiredWriteAcks c =
     (if rp_WriteConsistency c = WriteOne then 0
      else if rp_WriteConsistency c = WriteAll then rp_ReplicationFactor c - 1
      else rp_WriteQuorum c - 1)"

subsection \<open>Health table\<close>

type_synonym HealthTracker = "(string, bool) gomap"

definition NewHealthTracker :: HealthTracker where
  "NewHealthTracker = []"

definition MarkHealthy :: "string \<Rightarrow> HealthTracker \<Rightarrow> HealthTracker" where
  "MarkHealthy nodeID h = AList.update nodeID True h"

definition MarkUnhealthy :: "string \<Rightarrow> HealthTracker \<Rightarrow> HealthTracker" where
  "MarkUnhealthy nodeID h = AList.update nodeID False h"

definition IsHealthy :: "string \<Rightarrow> HealthTracker \<Rightarrow> bool" where
  "IsHealthy nodeID h = (case map_of h nodeID of None \<Rightarrow> True | Some healthy \<Rightarrow> healthy)"

text \<open>The copy is made along the iteration order \<open>ps\<close> of the table.\<close>

definition health_Snapshot_range :: "(string \<times> bool) list \<Rightarrow> HealthTracker" where
  "health_Snapshot_range ps = fold (\<lambda>(nodeID, healthy) out. AList.update nodeID healthy out) ps []"

definition health_Snapshot :: "HealthTracker \<Rightarrow> HealthTracker" where
  "health_Snapshot h = health_Snapshot_range h"

section \<open>Lemmas\<close>

lemma IsHealthy_mark [simp]:
  "IsHealthy i (MarkHealthy j h) \<longleftrightarrow> i = j \<or> IsHealthy i h"
  "IsHealthy i (MarkUnhealthy j h) \<longleftrightarrow> i \<noteq> j \<and> IsHealthy i h"
  by (simp_all add: IsHealthy_def MarkHealthy_def MarkUnhealthy_def)

lemma IsHealthy_new [simp]: "IsHealthy i NewHealthTracker"
  by (simp add: IsHealthy_def NewHealthTracker_def)

lemma map_of_fold_update:
  "map_of (fold (\<lambda>(k, v) out. AList.update k v out) ps out) = map_of out ++ map_of (rev ps)"
  by (induction ps arbitrary: out) (auto simp: fun_eq_iff map_add_def split: option.splits)

lemma health_Snapshot_copies:
  assumes "distinct (map fst h)" and "mset ps = mset h"
  shows "map_of (health_Snapshot_range ps) = map_of h"
proof -
  have d: "distinct (map fst ps)" and s: "set (rev ps) = set h"
    using assms by (metis mset_eq_imp_distinct_iff mset_map, metis mset_eq_setD set_rev)
  have "map_of (rev ps) = map_of h"
    using d s assms(1) map_of_inject_set [of "rev ps" h] by (simp add: rev_map [symmetric])
  then show ?thesis by (simp add: health_Snapshot_range_def map_of_fold_update)
qed

text \<open>What \<open>Normalize\<close> followed by \<open>Validate\<close> guarantees of an enabled configuration.\<close>

lemma Validate_enabled:
  assumes "Validate c = None" and "repl_Enabled c"
  shows "1 \<le> rp_WriteQuorum c" "rp_WriteQuorum c \<le> rp_ReplicationFactor c"
    "1 \<le> rp_ReadQuorum c" "rp_ReadQuorum c \<le> rp_ReplicationFactor c"
    "rp_WriteConsistency c \<in> {WriteOne, WriteQuorum, WriteAll}"
    "rp_ReadConsistency c \<in> {ReadPrimary, ReadQuorum, ReadAny}"
  using assms by (auto simp: Validate_def repl_Enabled_def split: if_splits)

lemma RequiredWriteAcks_range:
  assumes "Validate c = None" and "repl_Enabled c"
  shows "0 \<le> RequiredWriteAcks c" "RequiredWriteAcks c < rp_ReplicationFactor c"
  using Validate_enabled [OF assms] assms(2) by (auto simp: RequiredWriteAcks_def repl_Enabled_def)

lemma Normalize_enabled:
  assumes "1 < rp_ReplicationFactor c"
  shows "Normalize c =
    c\<lparr>rp_WriteQuorum := (if rp_WriteQuorum c \<le> 0 then rp_ReplicationFactor c div 2 + 1 else rp_WriteQuorum c),
      rp_ReadQuorum := (if rp_ReadQuorum c \<le> 0 then rp_ReplicationFactor c div 2 + 1 else rp_ReadQuorum c),
      rp_WriteConsistency := (if rp_WriteConsistency c = [] then WriteQuorum else rp_WriteConsistency c),
      rp_ReadConsistency := (if rp_ReadConsistency c = [] then ReadQuorum else rp_ReadConsistency c)\<rparr>"
  using assms by (simp add: Normalize_def Let_def)

lemma Normalize_idem: "Normalize (Normalize c) = Normalize c"
proof (cases "1 < rp_ReplicationFactor c")
  case True
  then have "0 < rp_ReplicationFactor c div 2 + 1" by simp
  then show ?thesis
    unfolding Normalize_enabled [OF True]
    by (subst Normalize_enabled) (use True in \<open>simp_all add: consistency_defs\<close>)
next
  case False
  then show ?thesis by (simp add: Normalize_def)
qed

section \<open>Properties\<close>



end
