(* ===== verification/Replication_Manager.thy ===== *)
theory Replication_Manager
  imports Cache_Store Wire_Protocol Cluster_View Replication_Config "HOL-Library.Monad_Syntax" "HOL-Library.Sublist"
begin

text \<open>
  Primary and replica coordination: the RPC client of \<^verbatim>\<open>src/internal/replication/peer.go\<close> and the
  manager of \<^verbatim>\<open>src/internal/replication/manager.go\<close>.

  The network is a parameter. Its state \<open>'w\<close> is everything outside the node; \<open>clock\<close> reads the
  time of day, and \<open>transfer\<close> dials an address, writes the bytes of a request and gives back either an
  error or the reader of the connection. It gets the dial timeout and the deadline that the code sets.

  The manager shares the cluster view and the store with the server; its record holds the current
  contents of both. A value that is \<open>None\<close> at the top is a run in which the decoder of a reply panics:
  nothing recovers, the process ends.

  The goroutines of a call touch disjoint entries of the health table and wait for nothing, so their
  RPCs take effect one after the other in some order. A \<open>schedule\<close> gives that order and, when the
  request context ends before the call has collected its results, how many RPCs have been answered
  then and the error of the context; the answers that are late come after the call has given up.
\<close>

section \<open>Model\<close>

subsection \<open>Contexts and the network\<close>

record Context =
  ctx_Deadline :: "time option"

definition Background :: Context where
  "Background = \<lparr>ctx_Deadline = None\<rparr>"

record 'w Network =
  clock :: "'w \<Rightarrow> time"
  transfer :: "'w \<Rightarrow> duration \<Rightarrow> time \<Rightarrow> string \<Rightarrow> bytes \<Rightarrow> 'w \<times> (string + reader)"

record schedule =
  run_order :: "Node list \<Rightarrow> Node list"
  ctx_ends :: "(nat \<times> string) option"

subsection \<open>The RPC client\<close>

record Peer =
  peer_Timeout :: duration

datatype peer_error =
    CodecError go_error
  | NetError string
  | RemoteError string
  | UnexpectedGet ResponseKind

definition roundTrip ::
  "'w Network \<Rightarrow> Peer \<Rightarrow> Context \<Rightarrow> string \<Rightarrow> Request \<Rightarrow> 'w \<Rightarrow> ('w \<times> (peer_error + Response)) option" where
  "roundTrip nw p ctx addr req w =
     (let timeout = (if peer_Timeout p \<le> 0 then 2 * second else peer_Timeout p)
      in case EncodeRequest req of
        Inl err \<Rightarrow> Some (w, Inl (CodecError err))
      | Inr payload \<Rightarrow>
          let deadline = (case ctx_Deadline ctx of Some d \<Rightarrow> d | None \<Rightarrow> clock nw w + timeout)
          in case transfer nw w timeout deadline addr payload of
            (w', Inl err) \<Rightarrow> Some (w', Inl (NetError err))
          | (w', Inr rd) \<Rightarrow>
              (case DecodeResponse rd of
                 Inl err \<Rightarrow> (if err = RuntimePanic then None else Some (w', Inl (CodecError err)))
               | Inr (resp, _) \<Rightarrow>
                   if rs_Kind resp = ResponseError then Some (w', Inl (RemoteError (rs_Message resp)))
                   else Some (w', Inr resp)))"

definition err_of :: "'e + 'a \<Rightarrow> 'e option" where
  "err_of r = (case r of Inl e \<Rightarrow> Some e | Inr _ \<Rightarrow> None)"

definition Ping :: "'w Network \<Rightarrow> Peer \<Rightarrow> Context \<Rightarrow> string \<Rightarrow> 'w \<Rightarrow> ('w \<times> peer_error option) option" where
  "Ping nw p ctx addr w = do {
     (w', r) \<leftarrow> roundTrip nw p ctx addr (empty_Request\<lparr>rq_Command := CommandPing\<rparr>) w;
     Some (w', err_of r) }"

definition ReplicateSet ::
  "'w Network \<Rightarrow> Peer \<Rightarrow> Context \<Rightarrow> string \<Rightarrow> string \<Rightarrow> bytes option \<Rightarrow> duration \<Rightarrow> 'w \<Rightarrow>
     ('w \<times> peer_error option) option" where
  "ReplicateSet nw p ctx addr key val ttl w = do {
     (w', r) \<leftarrow> roundTrip nw p ctx addr
        \<lparr>rq_Command = CommandReplSet, rq_Key = key, rq_Value = val, rq_TTL = ttl\<rparr> w;
     Some (w', err_of r) }"

definition ReplicateDelete ::
  "'w Network \<Rightarrow> Peer \<Rightarrow> Context \<Rightarrow> string \<Rightarrow> string \<Rightarrow> 'w \<Rightarrow> ('w \<times> peer_error option) option" where
  "ReplicateDelete nw p ctx addr key w = do {
     (w', r) \<leftarrow> roundTrip nw p ctx addr (empty_Request\<lparr>rq_Command := CommandReplDelete, rq_Key := key\<rparr>) w;
     Some (w', err_of r) }"

definition peer_Get ::
  "'w Network \<Rightarrow> Peer \<Rightarrow> Context \<Rightarrow> string \<Rightarrow> string \<Rightarrow> 'w \<Rightarrow> ('w \<times> (peer_error + bytes option)) option" where
  "peer_Get nw p ctx addr key w = do {
     (w', r) \<leftarrow> roundTrip nw p ctx addr (empty_Request\<lparr>rq_Command := CommandReplGet, rq_Key := key\<rparr>) w;
     Some (w', case r of
         Inl err \<Rightarrow> Inl err
       | Inr resp \<Rightarrow>
           (case rs_Kind resp of
              ResponseValue \<Rightarrow> Inr (Some (rs_Value resp))
            | ResponseNotFound \<Rightarrow> Inr None
            | kind \<Rightarrow> Inl (UnexpectedGet kind))) }"

subsection \<open>The manager\<close>

datatype repl_error =
    NotPrimary string
  | ReplStore store_error
  | ReplRing ring_error
  | CtxErr string
  | ErrQuorumNotMet nat int
  | ErrReadQuorumNotMet
  | ErrNotInReplicaSet

record Manager =
  mg_cfg :: repl_config
  mg_cluster :: Cluster
  mg_store :: Store
  mg_health :: HealthTracker
  mg_peer :: Peer

datatype manager_error = InvalidConfig repl_config_error | ClusterRequired | StoreRequired

definition NewManager :: "repl_config \<Rightarrow> Cluster option \<Rightarrow> Store option \<Rightarrow> manager_error + Manager" where
  "NewManager cfg0 clusterView store =
     (let cfg = Normalize cfg0
      in case Validate cfg of
        Some err \<Rightarrow> Inl (InvalidConfig err)
      | None \<Rightarrow>
          (case clusterView of
             None \<Rightarrow> Inl ClusterRequired
           | Some cv \<Rightarrow>
               (case store of
                  None \<Rightarrow> Inl StoreRequired
                | Some st \<Rightarrow>
                    Inr \<lparr>mg_cfg = cfg, mg_cluster = cv, mg_store = st, mg_health = NewHealthTracker,
                         mg_peer = \<lparr>peer_Timeout = 2 * second\<rparr>\<rparr>)))"

definition manager_Enabled :: "Manager \<Rightarrow> bool" where
  "manager_Enabled m = repl_Enabled (mg_cfg m)"

definition IsPrimary :: "Manager \<Rightarrow> string \<Rightarrow> bool" where
  "IsPrimary m key =
     (case Owner (mg_cluster m) key of
        None \<Rightarrow> False
      | Some owner \<Rightarrow> nd_ID owner = SelfID (mg_cluster m))"

definition replicaSet :: "Manager \<Rightarrow> string \<Rightarrow> ring_error + Node list" where
  "replicaSet m key =
     (if \<not> repl_Enabled (mg_cfg m)
      then (case Owner (mg_cluster m) key of
              None \<Rightarrow> Inl ErrEmptyRing
            | Some owner \<Rightarrow> Inr [owner])
      else Owners (mg_cluster m) key (rp_ReplicationFactor (mg_cfg m)))"

definition IsInReplicaSet :: "Manager \<Rightarrow> string \<Rightarrow> bool" where
  "IsInReplicaSet m key =
     (if \<not> manager_Enabled m then IsOwner (mg_cluster m) key
      else case replicaSet m key of
        Inl err \<Rightarrow> False
      | Inr owners \<Rightarrow> list_ex (\<lambda>owner. nd_ID owner = SelfID (mg_cluster m)) owners)"

definition Primary :: "Manager \<Rightarrow> string \<Rightarrow> Node option" where
  "Primary m key = Owner (mg_cluster m) key"

definition ReplicaSet :: "Manager \<Rightarrow> string \<Rightarrow> ring_error + Node list" where
  "ReplicaSet m key = replicaSet m key"

text \<open>The calls of the manager on its store, and the marks of the goroutines on the health table.\<close>

definition mg_Set :: "time \<Rightarrow> string \<Rightarrow> bytes option \<Rightarrow> duration \<Rightarrow> Manager \<Rightarrow> Manager \<times> store_error option" where
  "mg_Set now key val ttl m =
     (let (st, err) = store_Set now key (case val of None \<Rightarrow> [] | Some v \<Rightarrow> v) ttl (mg_store m)
      in (m\<lparr>mg_store := st\<rparr>, err))"

definition mg_Get :: "time \<Rightarrow> string \<Rightarrow> Manager \<Rightarrow> Manager \<times> bytes option" where
  "mg_Get now key m = (let (st, v) = store_Get now key (mg_store m) in (m\<lparr>mg_store := st\<rparr>, v))"

definition mg_Delete :: "time \<Rightarrow> string \<Rightarrow> Manager \<Rightarrow> Manager \<times> bool" where
  "mg_Delete now key m = (let (st, b) = store_Delete now key (mg_store m) in (m\<lparr>mg_store := st\<rparr>, b))"

definition mark :: "string \<Rightarrow> 'e option \<Rightarrow> Manager \<Rightarrow> Manager" where
  "mark nodeID err m = m\<lparr>mg_health := (if err = None then MarkHealthy nodeID (mg_health m) else MarkUnhealthy nodeID (mg_health m))\<rparr>"

text \<open>One replication goroutine of \<open>WriteSet\<close>, then all of them in order: the nodes that acknowledged.\<close>

definition setOn ::
  "'w Network \<Rightarrow> Context \<Rightarrow> string \<Rightarrow> bytes option \<Rightarrow> duration \<Rightarrow> Node \<Rightarrow> Manager \<times> 'w \<Rightarrow>
     ((Manager \<times> 'w) \<times> peer_error option) option" where
  "setOn nw ctx key val ttl node = (\<lambda>(m, w). do {
     (w', err) \<leftarrow> ReplicateSet nw (mg_peer m) ctx (nd_Addr node) key val ttl w;
     Some ((mark (nd_ID node) err m, w'), err) })"

fun setOnAll ::
  "'w Network \<Rightarrow> Context \<Rightarrow> string \<Rightarrow> bytes option \<Rightarrow> duration \<Rightarrow> Node list \<Rightarrow> Manager \<times> 'w \<Rightarrow>
     ((Manager \<times> 'w) \<times> Node list) option" where
  "setOnAll nw ctx key val ttl [] s = Some (s, [])"
| "setOnAll nw ctx key val ttl (node # ns) s = do {
     (s1, err) \<leftarrow> setOn nw ctx key val ttl node s;
     (s2, acked) \<leftarrow> setOnAll nw ctx key val ttl ns s1;
     Some (s2, if err = None then node # acked else acked) }"

fun deleteAll :: "'w Network \<Rightarrow> Peer \<Rightarrow> string \<Rightarrow> Node list \<Rightarrow> 'w \<Rightarrow> 'w option" where
  "deleteAll nw p key [] w = Some w"
| "deleteAll nw p key (node # ns) w = do {
     (w', _) \<leftarrow> ReplicateDelete nw p Background (nd_Addr node) key w;
     deleteAll nw p key ns w' }"

text \<open>The replicas that the loop starts a goroutine for.\<close>

definition setTargets :: "Manager \<Rightarrow> Node list \<Rightarrow> Node list" where
  "setTargets m owners =
     filter (\<lambda>node. nd_ID node \<noteq> SelfID (mg_cluster m) \<and> IsHealthy (nd_ID node) (mg_health m)) owners"

definition localSet ::
  "'w Network \<Rightarrow> string \<Rightarrow> bytes option \<Rightarrow> duration \<Rightarrow> Manager \<times> 'w \<Rightarrow> (Manager \<times> 'w) \<times> repl_error option" where
  "localSet nw key val ttl = (\<lambda>(m, w).
     let (m', err) = mg_Set (clock nw w) key val ttl m
     in ((m', w), map_option ReplStore err))"

definition localDelete :: "'w Network \<Rightarrow> string \<Rightarrow> Manager \<times> 'w \<Rightarrow> (Manager \<times> 'w) \<times> bool" where
  "localDelete nw key = (\<lambda>(m, w). let (m', b) = mg_Delete (clock nw w) key m in ((m', w), b))"

text \<open>The part of \<open>WriteSet\<close> after the local write.\<close>

definition collectAcks ::
  "'w Network \<Rightarrow> schedule \<Rightarrow> Context \<Rightarrow> string \<Rightarrow> bytes option \<Rightarrow> duration \<Rightarrow> int \<Rightarrow> Node list \<Rightarrow> Manager \<times> 'w \<Rightarrow>
     ((Manager \<times> 'w) \<times> repl_error option) option" where
  "collectAcks nw sc ctx key val ttl required ts s =
     (case ctx_ends sc of
        Some (k, e) \<Rightarrow> do {
          (s1, _) \<leftarrow> setOnAll nw ctx key val ttl (take k ts) s;
          (s2, _) \<leftarrow> Some (localDelete nw key s1);
          (s3, _) \<leftarrow> setOnAll nw ctx key val ttl (drop k ts) s2;
          Some (s3, Some (CtxErr e)) }
      | None \<Rightarrow> do {
          ((m1, w1), acked) \<leftarrow> setOnAll nw ctx key val ttl ts s;
          if int (length acked) < required
          then do {
            w2 \<leftarrow> deleteAll nw (mg_peer m1) key acked w1;
            (s3, _) \<leftarrow> Some (localDelete nw key (m1, w2));
            Some (s3, Some (ErrQuorumNotMet (length acked) required)) }
          else Some ((m1, w1), None) })"

definition WriteSet ::
  "'w Network \<Rightarrow> schedule \<Rightarrow> Context \<Rightarrow> string \<Rightarrow> bytes option \<Rightarrow> duration \<Rightarrow> Manager \<times> 'w \<Rightarrow>
     ((Manager \<times> 'w) \<times> repl_error option) option" where
  "WriteSet nw sc ctx key val ttl = (\<lambda>(m, w).
     if \<not> IsPrimary m key then Some ((m, w), Some (NotPrimary key))
     else if \<not> manager_Enabled m then Some (localSet nw key val ttl (m, w))
     else
       let required = RequiredWriteAcks (mg_cfg m)
       in if required = 0 then Some (localSet nw key val ttl (m, w))
          else case replicaSet m key of
            Inl err \<Rightarrow> Some ((m, w), Some (ReplRing err))
          | Inr owners \<Rightarrow>
              (case localSet nw key val ttl (m, w) of
                 (s, Some err) \<Rightarrow> Some (s, Some err)
               | (s, None) \<Rightarrow>
                   collectAcks nw sc ctx key val ttl required (run_order sc (setTargets (fst s) owners)) s))"

text \<open>The loop of \<open>WriteDelete\<close> over the replicas, and the repair when too few acknowledged.\<close>

fun deleteOnAll ::
  "'w Network \<Rightarrow> Context \<Rightarrow> string \<Rightarrow> Node list \<Rightarrow> Manager \<times> 'w \<Rightarrow> ((Manager \<times> 'w) \<times> Node list) option" where
  "deleteOnAll nw ctx key [] s = Some (s, [])"
| "deleteOnAll nw ctx key (node # ns) (m, w) =
     (if nd_ID node = SelfID (mg_cluster m) \<or> \<not> IsHealthy (nd_ID node) (mg_health m)
      then deleteOnAll nw ctx key ns (m, w)
      else do {
        (w', err) \<leftarrow> ReplicateDelete nw (mg_peer m) ctx (nd_Addr node) key w;
        (s2, acked) \<leftarrow> deleteOnAll nw ctx key ns (mark (nd_ID node) err m, w');
        Some (s2, if err = None then node # acked else acked) })"

fun restoreAll :: "'w Network \<Rightarrow> Peer \<Rightarrow> string \<Rightarrow> bytes \<Rightarrow> Node list \<Rightarrow> 'w \<Rightarrow> 'w option" where
  "restoreAll nw p key existing [] w = Some w"
| "restoreAll nw p key existing (node # ns) w = do {
     (w', _) \<leftarrow> ReplicateSet nw p Background (nd_Addr node) key (Some existing) 0 w;
     restoreAll nw p key existing ns w' }"

definition WriteDelete ::
  "'w Network \<Rightarrow> Context \<Rightarrow> string \<Rightarrow> Manager \<times> 'w \<Rightarrow> ((Manager \<times> 'w) \<times> (repl_error + bool)) option" where
  "WriteDelete nw ctx key = (\<lambda>(m, w).
     if \<not> IsPrimary m key then Some ((m, w), Inl (NotPrimary key))
     else case mg_Get (clock nw w) key m of
       (m1, None) \<Rightarrow> Some ((m1, w), Inr False)
     | (m1, Some existing) \<Rightarrow>
         let deleteHere = (\<lambda>s. let (s', b) = localDelete nw key s in (s', Inr b));
             required = RequiredWriteAcks (mg_cfg m1)
         in if \<not> manager_Enabled m1 then Some (deleteHere (m1, w))
            else if required = 0 then Some (deleteHere (m1, w))
            else case replicaSet m1 key of
              Inl err \<Rightarrow> Some ((m1, w), Inl (ReplRing err))
            | Inr owners \<Rightarrow> do {
                ((m2, w2), acked) \<leftarrow> deleteOnAll nw ctx key owners (m1, w);
                if int (length acked) < required
                then do {
                  w3 \<leftarrow> restoreAll nw (mg_peer m2) key existing acked w2;
                  Some ((m2, w3), Inl (ErrQuorumNotMet (length acked) required)) }
                else Some (deleteHere (m2, w2)) })"

text \<open>One goroutine of \<open>readQuorum\<close>: the outer option is a panic, the inner one is a result that was sent.\<close>

definition readFrom ::
  "'w Network \<Rightarrow> Context \<Rightarrow> string \<Rightarrow> Node \<Rightarrow> Manager \<times> 'w \<Rightarrow> ((Manager \<times> 'w) \<times> bytes option option) option" where
  "readFrom nw ctx key node = (\<lambda>(m, w).
     if nd_ID node = SelfID (mg_cluster m)
     then let (m', v) = mg_Get (clock nw w) key m in Some ((m', w), Some v)
     else do {
       (w', r) \<leftarrow> peer_Get nw (mg_peer m) ctx (nd_Addr node) key w;
       Some ((mark (nd_ID node) (err_of r) m, w'),
             case r of Inl _ \<Rightarrow> None | Inr v \<Rightarrow> Some v) })"

fun readFromAll ::
  "'w Network \<Rightarrow> Context \<Rightarrow> string \<Rightarrow> Node list \<Rightarrow> Manager \<times> 'w \<Rightarrow> ((Manager \<times> 'w) \<times> bytes option list) option" where
  "readFromAll nw ctx key [] s = Some (s, [])"
| "readFromAll nw ctx key (node # ns) s = do {
     (s1, r) \<leftarrow> readFrom nw ctx key node s;
     (s2, results) \<leftarrow> readFromAll nw ctx key ns s1;
     Some (s2, case r of None \<Rightarrow> results | Some v \<Rightarrow> v # results) }"

text \<open>The loop that counts the results, in the order in which they arrived.\<close>

fun tally :: "int \<Rightarrow> bytes option list \<Rightarrow> (bytes, int) gomap \<Rightarrow> int \<Rightarrow> bytes option \<Rightarrow> repl_error + bytes option" where
  "tally quorum [] values found winner =
     (if quorum \<le> found then Inr (Some (case winner of None \<Rightarrow> [] | Some v \<Rightarrow> v))
      else if found = 0 then Inr None
      else Inl ErrReadQuorumNotMet)"
| "tally quorum (None # rs) values found winner = tally quorum rs values found winner"
| "tally quorum (Some v # rs) values found winner =
     (let n = (case map_of values v of None \<Rightarrow> 0 | Some n \<Rightarrow> n) + 1
      in if quorum \<le> n then Inr (Some v)
         else tally quorum rs (AList.update v n values) (found + 1)
                (case winner of None \<Rightarrow> Some v | Some u \<Rightarrow> Some u))"

definition readQuorum ::
  "'w Network \<Rightarrow> schedule \<Rightarrow> Context \<Rightarrow> string \<Rightarrow> Manager \<times> 'w \<Rightarrow> ((Manager \<times> 'w) \<times> (repl_error + bytes option)) option" where
  "readQuorum nw sc ctx key = (\<lambda>(m, w).
     case replicaSet m key of
       Inl err \<Rightarrow> Some ((m, w), Inl (ReplRing err))
     | Inr owners \<Rightarrow> do {
         (s1, results) \<leftarrow> readFromAll nw ctx key
            (run_order sc (filter (\<lambda>node. IsHealthy (nd_ID node) (mg_health m)) owners)) (m, w);
         Some (s1, case ctx_ends sc of
             Some (_, e) \<Rightarrow> Inl (CtxErr e)
           | None \<Rightarrow> tally (rp_ReadQuorum (mg_cfg m)) results [] 0 None) })"

fun readPeersLoop ::
  "'w Network \<Rightarrow> Context \<Rightarrow> string \<Rightarrow> int \<Rightarrow> Node list \<Rightarrow> Manager \<times> 'w \<Rightarrow> ((Manager \<times> 'w) \<times> bytes option) option" where
  "readPeersLoop nw ctx key required [] s = Some (s, None)"
| "readPeersLoop nw ctx key required (node # ns) (m, w) =
     (if nd_ID node = SelfID (mg_cluster m) \<or> \<not> IsHealthy (nd_ID node) (mg_health m)
      then readPeersLoop nw ctx key required ns (m, w)
      else do {
        (w', r) \<leftarrow> peer_Get nw (mg_peer m) ctx (nd_Addr node) key w;
        let m' = mark (nd_ID node) (err_of r) m
        in case r of
          Inl _ \<Rightarrow> readPeersLoop nw ctx key required ns (m', w')
        | Inr (Some v) \<Rightarrow> Some ((m', w'), Some v)
        | Inr None \<Rightarrow> if required \<le> 0 then Some ((m', w'), None)
            else readPeersLoop nw ctx key required ns (m', w') })"

definition readFromPeers ::
  "'w Network \<Rightarrow> Context \<Rightarrow> string \<Rightarrow> int \<Rightarrow> Manager \<times> 'w \<Rightarrow> ((Manager \<times> 'w) \<times> (repl_error + bytes option)) option" where
  "readFromPeers nw ctx key required = (\<lambda>(m, w).
     case replicaSet m key of
       Inl err \<Rightarrow> Some ((m, w), Inl (ReplRing err))
     | Inr owners \<Rightarrow> do {
         (s', v) \<leftarrow> readPeersLoop nw ctx key required owners (m, w);
         Some (s', Inr v) })"

definition manager_Read ::
  "'w Network \<Rightarrow> schedule \<Rightarrow> Context \<Rightarrow> string \<Rightarrow> Manager \<times> 'w \<Rightarrow> ((Manager \<times> 'w) \<times> (repl_error + bytes option)) option" where
  "manager_Read nw sc ctx key = (\<lambda>(m, w).
     if \<not> IsInReplicaSet m key then Some ((m, w), Inl ErrNotInReplicaSet)
     else if rp_ReadConsistency (mg_cfg m) = ReadPrimary
     then if \<not> IsPrimary m key then Some ((m, w), Inl ErrNotInReplicaSet)
          else let (m', v) = mg_Get (clock nw w) key m in Some ((m', w), Inr v)
     else if rp_ReadConsistency (mg_cfg m) = ReadAny
     then (case mg_Get (clock nw w) key m of
             (m', Some v) \<Rightarrow> Some ((m', w), Inr (Some v))
           | (m', None) \<Rightarrow> readFromPeers nw ctx key 1 (m', w))
     else readQuorum nw sc ctx key (m, w))"

definition ApplyReplicaSet ::
  "time \<Rightarrow> string \<Rightarrow> bytes option \<Rightarrow> duration \<Rightarrow> Manager \<Rightarrow> Manager \<times> repl_error option" where
  "ApplyReplicaSet now key val ttl m =
     (if \<not> IsInReplicaSet m key then (m, Some ErrNotInReplicaSet)
      else let (m', err) = mg_Set now key val ttl m in (m', map_option ReplStore err))"

definition ApplyReplicaDelete :: "time \<Rightarrow> string \<Rightarrow> Manager \<Rightarrow> Manager \<times> (repl_error + bool)" where
  "ApplyReplicaDelete now key m =
     (if \<not> IsInReplicaSet m key then (m, Inl ErrNotInReplicaSet)
      else let (m', b) = mg_Delete now key m in (m', Inr b))"

subsection \<open>Health checks\<close>

fun checkMembers :: "'w Network \<Rightarrow> Context \<Rightarrow> Node list \<Rightarrow> Manager \<times> 'w \<Rightarrow> (Manager \<times> 'w) option" where
  "checkMembers nw ctx [] s = Some s"
| "checkMembers nw ctx (member # ms) (m, w) =
     (if nd_ID member = SelfID (mg_cluster m) then checkMembers nw ctx ms (m, w)
      else do {
        (w', err) \<leftarrow> Ping nw (mg_peer m) ctx (nd_Addr member) w;
        checkMembers nw ctx ms (mark (nd_ID member) err m, w') })"

definition checkHealth :: "'w Network \<Rightarrow> Context \<Rightarrow> Manager \<times> 'w \<Rightarrow> (Manager \<times> 'w) option" where
  "checkHealth nw ctx = (\<lambda>(m, w). checkMembers nw ctx (cluster_Members (mg_cluster m)) (m, w))"

definition health_interval :: "duration \<Rightarrow> duration" where
  "health_interval interval = (if interval \<le> 0 then 5 * second else interval)"

text \<open>
  The background worker: what its \<open>select\<close> receives, in order. A tick comes with what the rest of
  the node and the network have done since the last one.
\<close>

datatype 'w health_event = HealthCtxDone | HealthTick "Manager \<times> 'w \<Rightarrow> Manager \<times> 'w"

fun RunHealthChecks :: "'w Network \<Rightarrow> Context \<Rightarrow> 'w health_event list \<Rightarrow> Manager \<times> 'w \<Rightarrow> (Manager \<times> 'w) option" where
  "RunHealthChecks nw ctx [] s = Some s"
| "RunHealthChecks nw ctx (HealthCtxDone # evs) s = Some s"
| "RunHealthChecks nw ctx (HealthTick elsewhere # evs) s = do {
     s' \<leftarrow> checkHealth nw ctx (elsewhere s);
     RunHealthChecks nw ctx evs s' }"

section \<open>Lemmas\<close>

subsection \<open>Counting the results of a quorum read\<close>

definition counted :: "(bytes, int) gomap \<Rightarrow> bytes \<Rightarrow> int" where
  "counted vals v = (case map_of vals v of None \<Rightarrow> 0 | Some n \<Rightarrow> n)"

lemma counted_simps [simp]:
  "counted [] v = 0"
  "counted (AList.update v n vals) u = (if u = v then n else counted vals u)"
  by (simp_all add: counted_def)

lemma tally_Some:
  "tally quorum (Some v # rs) vals found winner =
     (if quorum \<le> counted vals v + 1 then Inr (Some v)
      else tally quorum rs (AList.update v (counted vals v + 1) vals) (found + 1)
        (case winner of None \<Rightarrow> Some v | Some u \<Rightarrow> Some u))"
  by (simp add: counted_def Let_def)

declare tally.simps(3) [simp del]

definition present :: "bytes option list \<Rightarrow> nat" where
  "present rs = length (filter (\<lambda>r. r \<noteq> None) rs)"

lemma present_simps [simp]: "present [] = 0" "present (None # rs) = present rs" "present (Some v # rs) = Suc (present rs)"
  by (simp_all add: present_def)

text \<open>A value that is alone in reaching the quorum is the answer, wherever its copies are.\<close>

lemma tally_agrees:
  assumes "\<And>u. counted vals u < quorum" and "quorum \<le> counted vals v + int (count_list rs (Some v))"
    and "\<And>u. u \<noteq> v \<Longrightarrow> counted vals u + int (count_list rs (Some u)) < quorum"
  shows "tally quorum rs vals found winner = Inr (Some v)"
  using assms
proof (induction quorum rs vals found winner rule: tally.induct)
  case (1 quorum vals found winner)
  have "counted vals v < quorum" by (rule 1(1))
  then show ?case using 1(2) by simp
next
  case (2 quorum rs vals found winner)
  have "tally quorum rs vals found winner = Inr (Some v)"
    by (rule 2(1)) (use 2(2-4) in simp_all)
  then show ?case by simp
next
  case (3 quorum u rs vals found winner)
  show ?case
  proof (cases "quorum \<le> counted vals u + 1")
    case True
    then have "u = v" using 3(4) [of u] by (cases "u = v") simp_all
    with True show ?thesis by (simp add: tally_Some)
  next
    case False
    have "tally quorum rs (AList.update u (counted vals u + 1) vals) (found + 1)
        (case winner of None \<Rightarrow> Some u | Some u \<Rightarrow> Some u) = Inr (Some v)"
    proof (rule 3(1) [folded counted_def, OF refl])
      show "\<not> quorum \<le> counted vals u + 1" by (rule False)
      show "counted (AList.update u (counted vals u + 1) vals) x < quorum" for x
        using False 3(2) [of x] by simp
      show "quorum \<le> counted (AList.update u (counted vals u + 1) vals) v + int (count_list rs (Some v))"
        using 3(3) by (cases "u = v") simp_all
      show "counted (AList.update u (counted vals u + 1) vals) x + int (count_list rs (Some x)) < quorum" if "x \<noteq> v" for x
        using 3(4) [OF that] by (cases "u = x") simp_all
    qed
    with False show ?thesis by (simp add: tally_Some)
  qed
qed

text \<open>Without agreement: how the number of replies that hold the key decides.\<close>

lemma tally_outcome:
  assumes "1 \<le> quorum" and "0 \<le> found" and "winner = None \<longleftrightarrow> found = 0" and "\<And>u. counted vals u \<le> found"
  shows "(let F = found + int (present rs); r = tally quorum rs vals found winner
    in if F = 0 then r = Inr None
       else if F < quorum then r = Inl ErrReadQuorumNotMet
       else \<exists>v. r = Inr (Some v) \<and> (winner = Some v \<or> Some v \<in> set rs))"
  using assms
proof (induction quorum rs vals found winner rule: tally.induct)
  case (1 quorum vals found winner)
  then show ?case by (auto simp: Let_def split: option.splits)
next
  case (2 quorum rs vals found winner)
  then show ?case by (fastforce simp: Let_def)
next
  case (3 quorum v rs vals found winner)
  let ?vals = "AList.update v (counted vals v + 1) vals"
  let ?winner = "case winner of None \<Rightarrow> Some v | Some u \<Rightarrow> Some u"
  show ?case
  proof (cases "quorum \<le> counted vals v + 1")
    case True
    moreover have "counted vals v \<le> found" by (rule 3(5))
    ultimately show ?thesis using 3(3) by (auto simp: tally_Some Let_def)
  next
    case False
    have "counted ?vals u \<le> found + 1" for u using 3(5) [of u] 3(5) [of v] by simp
    then have IH: "let F = found + 1 + int (present rs); r = tally quorum rs ?vals (found + 1) ?winner
      in if F = 0 then r = Inr None
         else if F < quorum then r = Inl ErrReadQuorumNotMet
         else \<exists>u. r = Inr (Some u) \<and> (?winner = Some u \<or> Some u \<in> set rs)"
      using 3(2-4) False by (intro 3(1) [folded counted_def, OF refl]) (auto split: option.splits)
    have "?winner = Some u \<Longrightarrow> winner = Some u \<or> u = v" for u by (cases winner) auto
    with IH False show ?thesis using 3(3) by (fastforce simp: tally_Some Let_def algebra_simps)
  qed
qed

subsection \<open>What the manager keeps of itself\<close>

lemma mark_simps [simp]:
  "mg_cfg (mark i err m) = mg_cfg m" "mg_cluster (mark i err m) = mg_cluster m" "mg_store (mark i err m) = mg_store m"
  "mg_peer (mark i err m) = mg_peer m"
  by (simp_all add: mark_def)

text \<open>Two states of a manager that differ in the health table at most.\<close>

definition same_but_health :: "Manager \<Rightarrow> Manager \<Rightarrow> bool" where
  "same_but_health m m' \<longleftrightarrow> mg_cfg m' = mg_cfg m \<and> mg_cluster m' = mg_cluster m \<and> mg_store m' = mg_store m \<and> mg_peer m' = mg_peer m"

lemma same_but_health_mark [simp]:
  "same_but_health m m" "same_but_health (mark i err m) m' \<longleftrightarrow> same_but_health m m'"
  by (auto simp: same_but_health_def)

lemma IsPrimary_cong: "mg_cluster m' = mg_cluster m \<Longrightarrow> IsPrimary m' key = IsPrimary m key"
  by (simp add: IsPrimary_def split: option.split)

lemma replicaSet_cong: "mg_cluster m' = mg_cluster m \<Longrightarrow> mg_cfg m' = mg_cfg m \<Longrightarrow> replicaSet m' key = replicaSet m key"
  by (simp add: replicaSet_def)

lemma mg_simps [simp]:
  "mg_cfg (fst (mg_Get t k m)) = mg_cfg m" "mg_cluster (fst (mg_Get t k m)) = mg_cluster m"
  "mg_peer (fst (mg_Get t k m)) = mg_peer m" "mg_health (fst (mg_Get t k m)) = mg_health m"
  "mg_store (fst (mg_Get t k m)) = fst (store_Get t k (mg_store m))" "snd (mg_Get t k m) = snd (store_Get t k (mg_store m))"
  by (simp_all add: mg_Get_def split: prod.splits)

lemma readFromAll_length:
  "readFromAll nw ctx key ns s = Some (s', results) \<Longrightarrow> length results \<le> length ns"
  by (induction ns arbitrary: s results) (fastforce simp: bind_eq_Some_conv split: option.splits)+

lemma subseq_sub:
  assumes "subseq xs ys"
  shows "set xs \<subseteq> set ys" "distinct ys \<Longrightarrow> distinct xs"
  using assms by (auto simp: subseq_conv_nths dest: in_set_nthsD intro: distinct_nthsI)

text \<open>A replica that does not answer a read is unhealthy afterwards.\<close>

lemma readFrom_health:
  assumes "readFrom nw ctx key n (m, w) = Some ((m1, w1), r)"
  shows "mg_cluster m1 = mg_cluster m" "i \<noteq> nd_ID n \<Longrightarrow> IsHealthy i (mg_health m1) = IsHealthy i (mg_health m)"
    "r = None \<Longrightarrow> \<not> IsHealthy (nd_ID n) (mg_health m1)"
proof -
  have "mg_cluster m1 = mg_cluster m \<and> (i \<noteq> nd_ID n \<longrightarrow> IsHealthy i (mg_health m1) = IsHealthy i (mg_health m)) \<and>
    (r = None \<longrightarrow> \<not> IsHealthy (nd_ID n) (mg_health m1))"
  proof (cases "nd_ID n = SelfID (mg_cluster m)")
    case True
    then have "m1 = fst (mg_Get (clock nw w) key m)" "r \<noteq> None"
      using assms by (auto simp: readFrom_def split: prod.splits)
    then show ?thesis by auto
  next
    case False
    then obtain rr :: "peer_error + bytes option" where "m1 = mark (nd_ID n) (err_of rr) m" "r = (case rr of Inl _ \<Rightarrow> None | Inr v \<Rightarrow> Some v)"
      using assms by (auto simp: readFrom_def bind_eq_Some_conv)
    then show ?thesis by (cases rr) (simp_all add: mark_def err_of_def)
  qed
  then show "mg_cluster m1 = mg_cluster m" "i \<noteq> nd_ID n \<Longrightarrow> IsHealthy i (mg_health m1) = IsHealthy i (mg_health m)"
    "r = None \<Longrightarrow> \<not> IsHealthy (nd_ID n) (mg_health m1)" by simp_all
qed

lemma readFromAll_health:
  assumes "readFromAll nw ctx key ns (m, w) = Some ((m', w'), results)" and "distinct (map nd_ID ns)"
  shows "(\<forall>i. i \<notin> nd_ID ` set ns \<longrightarrow> IsHealthy i (mg_health m') = IsHealthy i (mg_health m)) \<and>
    ((\<forall>n\<in>set ns. IsHealthy (nd_ID n) (mg_health m')) \<longrightarrow> length results = length ns)"
  using assms
proof (induction ns arbitrary: m w results)
  case (Cons n ns)
  from Cons.prems(1) obtain m1 w1 r results1 where
    r: "readFrom nw ctx key n (m, w) = Some ((m1, w1), r)"
    and rest: "readFromAll nw ctx key ns (m1, w1) = Some ((m', w'), results1)"
    and results: "results = (case r of None \<Rightarrow> results1 | Some v \<Rightarrow> v # results1)"
    by (auto simp: bind_eq_Some_conv)
  have d: "distinct (map nd_ID ns)" "nd_ID n \<notin> nd_ID ` set ns" using Cons.prems(2) by simp_all
  note IH = Cons.IH [OF rest d(1)] and h = readFrom_health [OF r]
  have "IsHealthy i (mg_health m') = IsHealthy i (mg_health m)" if "i \<notin> nd_ID ` set (n # ns)" for i
    using that IH h(2) by simp
  moreover have "length results = length (n # ns)" if "\<forall>x\<in>set (n # ns). IsHealthy (nd_ID x) (mg_health m')"
  proof -
    have "IsHealthy (nd_ID n) (mg_health m1)" using that IH d(2) by simp
    then obtain v where "r = Some v" using h(3) by (cases r) auto
    then show ?thesis using that IH results by simp
  qed
  ultimately show ?case by blast
qed simp

lemma count_list_map_card: "distinct ns \<Longrightarrow> count_list (map f ns) y = card {n \<in> set ns. f n = y}"
proof (induction ns)
  case (Cons n ns)
  have "{x \<in> set (n # ns). f x = y} = (if f n = y then insert n {x \<in> set ns. f x = y} else {x \<in> set ns. f x = y})" by auto
  with Cons show ?case by simp
qed simp

lemma tally_holders:
  assumes "distinct ns" and "H \<subseteq> set ns" and "\<And>n. n \<in> H \<Longrightarrow> f n = Some v" and "1 \<le> quorum"
    and "quorum \<le> int (card H)" and "int (length ns) < quorum + int (card H)"
  shows "tally quorum (map f ns) [] 0 None = Inr (Some v)"
proof (rule tally_agrees)
  have "H \<subseteq> {n \<in> set ns. f n = Some v}" using assms(2,3) by auto
  then have "card H \<le> count_list (map f ns) (Some v)"
    unfolding count_list_map_card [OF assms(1)] by (intro card_mono) auto
  then show "quorum \<le> counted [] v + int (count_list (map f ns) (Some v))" using assms(5) by simp
  show "counted [] u + int (count_list (map f ns) (Some u)) < quorum" if "u \<noteq> v" for u
  proof -
    have "{n \<in> set ns. f n = Some u} \<subseteq> set ns - H" using assms(3) that by force
    then have "count_list (map f ns) (Some u) \<le> card (set ns - H)"
      unfolding count_list_map_card [OF assms(1)] by (intro card_mono) auto
    also have "\<dots> = length ns - card H"
      using assms(1,2) by (simp add: card_Diff_subset finite_subset distinct_card)
    finally have "count_list (map f ns) (Some u) \<le> length ns - card H" .
    then show ?thesis using assms(4,6) unfolding counted_simps by linarith
  qed
qed (use assms(4) in simp)

subsection \<open>The replicas as a key-value interface\<close>

text \<open>
  What the manager relies on. \<open>held w a k\<close> is the value that the node at the address \<open>a\<close> serves for
  the key \<open>k\<close>. An acknowledged replication is stored, an answered read is what is held, and no call
  touches another node. An exchange takes no time.
\<close>

locale replica_net =
  fixes nw :: "'w Network"
    and winv :: "'w \<Rightarrow> bool"
    and held :: "'w \<Rightarrow> string \<Rightarrow> string \<Rightarrow> bytes option"
    and key_ok :: "string \<Rightarrow> bool"
  assumes set_ack: "winv w \<Longrightarrow> key_ok key \<Longrightarrow> ttl < 2 ^ 63 \<Longrightarrow> int (length v) \<le> maxAlloc \<Longrightarrow>
      ReplicateSet nw p ctx addr key (Some v) ttl w = Some (w', None) \<Longrightarrow> held w' addr key = Some v"
    and set_frame: "winv w \<Longrightarrow> key_ok key \<Longrightarrow> ttl < 2 ^ 63 \<Longrightarrow> int (length v) \<le> maxAlloc \<Longrightarrow>
      ReplicateSet nw p ctx addr key (Some v) ttl w = Some (w', err) \<Longrightarrow>
      winv w' \<and> clock nw w' = clock nw w \<and> (\<forall>a. a \<noteq> addr \<longrightarrow> held w' a = held w a)"
    and get_value: "winv w \<Longrightarrow> key_ok key \<Longrightarrow> peer_Get nw p ctx addr key w = Some (w', Inr r) \<Longrightarrow> r = held w addr key"
    and get_frame: "winv w \<Longrightarrow> key_ok key \<Longrightarrow> peer_Get nw p ctx addr key w = Some (w', rr) \<Longrightarrow>
      winv w' \<and> clock nw w' = clock nw w \<and> held w' = held w"
    and delete_ack: "winv w \<Longrightarrow> key_ok key \<Longrightarrow> ReplicateDelete nw p ctx addr key w = Some (w', None) \<Longrightarrow> held w' addr key = None"
    and delete_frame: "winv w \<Longrightarrow> key_ok key \<Longrightarrow> ReplicateDelete nw p ctx addr key w = Some (w', err) \<Longrightarrow>
      winv w' \<and> clock nw w' = clock nw w \<and> (\<forall>a. a \<noteq> addr \<longrightarrow> held w' a = held w a)"
begin

lemma setOnAll_held:
  assumes "setOnAll nw ctx key (Some v) ttl ts (m, w) = Some ((m', w'), acked)" and "winv w" and "key_ok key"
    and "distinct (map nd_Addr ts)" and "ttl < 2 ^ 63" and "int (length v) \<le> maxAlloc"
  shows "winv w' \<and> clock nw w' = clock nw w \<and> same_but_health m m' \<and> subseq acked ts \<and>
    (\<forall>n\<in>set acked. held w' (nd_Addr n) key = Some v) \<and> (\<forall>a. a \<notin> nd_Addr ` set ts \<longrightarrow> held w' a = held w a)"
  using assms(1,2,4)
proof (induction ts arbitrary: m w acked)
  case (Cons n ns)
  from Cons.prems(1) obtain w1 err acked1 where
    r: "ReplicateSet nw (mg_peer m) ctx (nd_Addr n) key (Some v) ttl w = Some (w1, err)"
    and rest: "setOnAll nw ctx key (Some v) ttl ns (mark (nd_ID n) err m, w1) = Some ((m', w'), acked1)"
    and acked: "acked = (if err = None then n # acked1 else acked1)"
    by (auto simp: setOn_def bind_eq_Some_conv)
  note f = set_frame [OF Cons.prems(2) assms(3,5,6) r]
  have "winv w1" using f by blast
  moreover have "distinct (map nd_Addr ns)" "nd_Addr n \<notin> nd_Addr ` set ns" using Cons.prems(3) by simp_all
  ultimately have IH: "winv w' \<and> clock nw w' = clock nw w1 \<and> same_but_health m m' \<and> subseq acked1 ns \<and>
      (\<forall>n\<in>set acked1. held w' (nd_Addr n) key = Some v) \<and> (\<forall>a. a \<notin> nd_Addr ` set ns \<longrightarrow> held w' a = held w1 a)"
    using Cons.IH [OF rest] by simp
  have "held w' (nd_Addr n) key = Some v" if "err = None"
    using set_ack [OF Cons.prems(2) assms(3,5,6)] r that IH \<open>nd_Addr n \<notin> nd_Addr ` set ns\<close> by simp
  then have "\<forall>x\<in>set acked. held w' (nd_Addr x) key = Some v" using IH acked by simp
  moreover have "subseq acked (n # ns)" using IH acked by (auto intro: subseq_Cons')
  moreover have "held w' a = held w a" if "a \<notin> nd_Addr ` set (n # ns)" for a using that IH f by auto
  ultimately show ?case using IH f by simp
qed simp

lemma readFromAll_held:
  assumes "readFromAll nw ctx key ns (m, w) = Some ((m', w'), results)" and "winv w" and "key_ok key"
    and "store_inv (mg_store m)" and "length results = length ns"
  shows "results = map (\<lambda>n. if nd_ID n = SelfID (mg_cluster m) then live (clock nw w) (mg_store m) key
    else held w (nd_Addr n) key) ns"
  using assms(1,2,4,5)
proof (induction ns arbitrary: m w results)
  case (Cons n ns)
  from Cons.prems(1) obtain m1 w1 r results1 where
    r: "readFrom nw ctx key n (m, w) = Some ((m1, w1), r)"
    and rest: "readFromAll nw ctx key ns (m1, w1) = Some ((m', w'), results1)"
    and results: "results = (case r of None \<Rightarrow> results1 | Some v \<Rightarrow> v # results1)"
    by (auto simp: bind_eq_Some_conv)
  have "length results1 \<le> length ns" using readFromAll_length [OF rest] .
  then obtain v where v: "r = Some v" "results = v # results1" "length results1 = length ns"
    using Cons.prems(4) results by (cases r) auto
  show ?case
  proof (cases "nd_ID n = SelfID (mg_cluster m)")
    case True
    then have s: "m1 = fst (mg_Get (clock nw w) key m)" "w1 = w" "v = live (clock nw w) (mg_store m) key"
      using r v by (auto simp: readFrom_def store_Get_live split: prod.splits) (metis mg_simps(6) snd_conv store_Get_live)
    have "store_inv (mg_store m1)" using Cons.prems(3) s(1) by (simp add: store_Get_inv)
    moreover have "live (clock nw w) (mg_store m1) key = live (clock nw w) (mg_store m) key"
      using cs.get_view [OF Cons.prems(3)] s(1) by simp
    ultimately show ?thesis
      using Cons.IH [OF rest] Cons.prems(2) v s True by simp
  next
    case False
    then obtain rr where "peer_Get nw (mg_peer m) ctx (nd_Addr n) key w = Some (w1, rr)" "m1 = mark (nd_ID n) (err_of rr) m"
      "Some v = (case rr of Inl _ \<Rightarrow> None | Inr u \<Rightarrow> Some u)"
      using r v by (auto simp: readFrom_def bind_eq_Some_conv)
    then have s: "peer_Get nw (mg_peer m) ctx (nd_Addr n) key w = Some (w1, Inr v)" "same_but_health m m1"
      by (cases rr; simp add: same_but_health_def)+
    note f = get_frame [OF Cons.prems(2) assms(3) s(1)] and g = get_value [OF Cons.prems(2) assms(3) s(1)]
    show ?thesis
      using Cons.IH [OF rest] Cons.prems(3) f g v s(2) False by (simp add: same_but_health_def)
  qed
qed simp

text \<open>A write that succeeds is on the primary and on as many replicas as the configuration asks for.\<close>

lemma WriteSet_held:
  assumes ok: "WriteSet nw sc ctx key (Some v) ttl (m, w) = Some ((m', w'), None)"
    and w: "winv w" "key_ok key" "ttl < 2 ^ 63" "int (length v) \<le> maxAlloc"
    and m: "manager_Enabled m" "RequiredWriteAcks (mg_cfg m) \<noteq> 0" "replicaSet m key = Inr owners" "distinct (map nd_Addr owners)"
      "store_inv (mg_store m)" "0 < clock nw w" "\<And>xs. mset (run_order sc xs) = mset xs"
  obtains A where "A \<subseteq> set owners" "RequiredWriteAcks (mg_cfg m) \<le> int (card A)"
    "\<And>n. n \<in> A \<Longrightarrow> nd_ID n \<noteq> SelfID (mg_cluster m) \<and> held w' (nd_Addr n) key = Some v"
    "winv w'" "clock nw w' = clock nw w" "IsPrimary m key" "mg_cfg m' = mg_cfg m" "mg_cluster m' = mg_cluster m"
    "store_inv (mg_store m')" "\<And>t. live t (mg_store m') key = (if 0 < ttl \<and> clock nw w + ttl \<le> t then None else Some v)"
proof -
  obtain st err where st: "store_Set (clock nw w) key v ttl (mg_store m) = (st, err)" by fastforce
  have prim: "IsPrimary m key" using ok by (auto simp: WriteSet_def split: if_splits)
  then have err: "err = None"
    and col: "collectAcks nw sc ctx key (Some v) ttl (RequiredWriteAcks (mg_cfg m))
      (run_order sc (setTargets (m\<lparr>mg_store := st\<rparr>) owners)) (m\<lparr>mg_store := st\<rparr>, w) = Some ((m', w'), None)"
    using ok m(1-3) st by (cases err; auto simp: WriteSet_def Let_def localSet_def mg_Set_def)+
  define ts where "ts = run_order sc (setTargets (m\<lparr>mg_store := st\<rparr>) owners)"
  have mts: "mset ts = mset (setTargets (m\<lparr>mg_store := st\<rparr>) owners)" unfolding ts_def by (rule m(7))
  have sts: "set ts \<subseteq> {n \<in> set owners. nd_ID n \<noteq> SelfID (mg_cluster m)}"
    using mset_eq_setD [OF mts] by (auto simp: setTargets_def)
  have "distinct (map nd_Addr (setTargets (m\<lparr>mg_store := st\<rparr>) owners))"
    using m(4) by (simp add: setTargets_def distinct_map_filter)
  then have dts: "distinct (map nd_Addr ts)" using mts by (metis mset_eq_imp_distinct_iff mset_map)
  have ends: "ctx_ends sc = None"
    using col by (cases "ctx_ends sc") (auto simp: collectAcks_def bind_eq_Some_conv split: prod.splits)
  obtain acked where acked: "setOnAll nw ctx key (Some v) ttl ts (m\<lparr>mg_store := st\<rparr>, w) = Some ((m', w'), acked)"
    "RequiredWriteAcks (mg_cfg m) \<le> int (length acked)"
    using col ends unfolding ts_def [symmetric]
    by (auto simp: collectAcks_def bind_eq_Some_conv localDelete_def split: if_splits prod.splits)
  note h = setOnAll_held [OF acked(1) w(1,2) dts w(3,4)]
  have "subseq acked ts" using h by blast
  then have "distinct acked" "set acked \<subseteq> set ts" using dts subseq_sub [of acked ts] by (simp_all add: distinct_map)
  then have c: "RequiredWriteAcks (mg_cfg m) \<le> int (card (set acked))" "set acked \<subseteq> set owners"
    "\<And>n. n \<in> set acked \<Longrightarrow> nd_ID n \<noteq> SelfID (mg_cluster m) \<and> held w' (nd_Addr n) key = Some v"
    using acked(2) sts h by (auto simp: distinct_card)
  have s: "mg_cfg m' = mg_cfg m" "mg_cluster m' = mg_cluster m" "mg_store m' = st"
    using h by (simp_all add: same_but_health_def)
  have "store_inv st" using store_Set_inv [OF m(5)] st by (metis fst_conv)
  moreover have "\<And>t. live t st key = (if 0 < ttl \<and> clock nw w + ttl \<le> t then None else Some v)"
    using store_Set_ok_live [OF m(5,6)] st err by simp
  ultimately show thesis using that [OF c(2,1,3)] h s prim by simp
qed

lemma manager_Read_held:
  assumes rd: "manager_Read nw sc ctx key (m, w) = Some ((m', w'), r)"
    and w: "winv w" "key_ok key"
    and m: "store_inv (mg_store m)" "IsInReplicaSet m key" "rp_ReadConsistency (mg_cfg m) = ReadQuorum" "ctx_ends sc = None"
      "\<And>xs. mset (run_order sc xs) = mset xs"
    and owners: "replicaSet m key = Inr owners" "distinct (map nd_ID owners)"
      "\<And>n. n \<in> set owners \<Longrightarrow> IsHealthy (nd_ID n) (mg_health m) \<and> IsHealthy (nd_ID n) (mg_health m')"
    and H: "H \<subseteq> set owners" "\<And>n. n \<in> H \<Longrightarrow> (if nd_ID n = SelfID (mg_cluster m) then live (clock nw w) (mg_store m) key
      else held w (nd_Addr n) key) = Some v"
    and quorum: "1 \<le> rp_ReadQuorum (mg_cfg m)" "rp_ReadQuorum (mg_cfg m) \<le> int (card H)"
      "int (length owners) < rp_ReadQuorum (mg_cfg m) + int (card H)"
  shows "r = Inr (Some v)"
proof -
  define ns where "ns = run_order sc owners"
  have mns: "mset ns = mset owners" unfolding ns_def by (rule m(5))
  then have dns: "distinct (map nd_ID ns)" "set ns = set owners" "length ns = length owners"
    using owners(2) by (metis mset_eq_imp_distinct_iff mset_map, metis mset_eq_setD, metis mset_eq_length)
  have "filter (\<lambda>node. IsHealthy (nd_ID node) (mg_health m)) owners = owners" using owners(3) by (simp add: filter_id_conv)
  then obtain results where q: "readFromAll nw ctx key ns (m, w) = Some ((m', w'), results)"
    "r = tally (rp_ReadQuorum (mg_cfg m)) results [] 0 None"
    using rd m(2-4) owners(1) unfolding ns_def
    by (auto simp: manager_Read_def readQuorum_def bind_eq_Some_conv consistency_defs)
  have "length results = length ns" using readFromAll_health [OF q(1) dns(1)] owners(3) dns(2) by simp
  note res = readFromAll_held [OF q(1) w m(1) this]
  have "distinct ns" using dns(1) by (simp add: distinct_map)
  then show ?thesis unfolding q(2) res using H quorum dns(2,3) by (intro tally_holders [where H = H]) simp_all
qed

end

subsection \<open>Every operation returns and keeps the manager well formed\<close>

text \<open>No reply of the network makes the decoder panic.\<close>

definition net_safe :: "'w Network \<Rightarrow> bool" where
  "net_safe nw \<longleftrightarrow> (\<forall>w t d a p w' rd. transfer nw w t d a p = (w', Inr rd) \<longrightarrow> DecodeResponse rd \<noteq> Inl RuntimePanic)"

definition kept :: "Manager \<Rightarrow> Manager \<Rightarrow> bool" where
  "kept m m' \<longleftrightarrow> mg_cfg m' = mg_cfg m \<and> mg_cluster m' = mg_cluster m \<and> mg_peer m' = mg_peer m \<and> store_inv (mg_store m')"

lemma keptD: "kept m m' \<Longrightarrow> mg_cfg m' = mg_cfg m" "kept m m' \<Longrightarrow> mg_cluster m' = mg_cluster m"
  "kept m m' \<Longrightarrow> store_inv (mg_store m')"
  by (simp_all add: kept_def)

lemma kept_trans: "kept m m1 \<Longrightarrow> kept m1 m2 \<Longrightarrow> kept m m2"
  by (simp add: kept_def)

lemma kept_mark: "store_inv (mg_store m) \<Longrightarrow> kept m (mark i err m)"
  by (simp add: kept_def)

lemma kept_refl: "store_inv (mg_store m) \<Longrightarrow> kept m m"
  by (simp add: kept_def)

lemma kept_Get: "store_inv (mg_store m) \<Longrightarrow> kept m (fst (mg_Get t k m))"
  by (simp add: kept_def store_Get_inv)

lemma localSet_kept:
  assumes "store_inv (mg_store m)"
  obtains m' r where "localSet nw key val ttl (m, w) = ((m', w), r)" "kept m m'"
proof -
  obtain st e where st: "store_Set (clock nw w) key (case val of None \<Rightarrow> [] | Some v \<Rightarrow> v) ttl (mg_store m) = (st, e)" by fastforce
  then have "store_inv st" using store_Set_inv [OF assms] by (metis fst_conv)
  then show thesis
    using that [of "m\<lparr>mg_store := st\<rparr>" "map_option ReplStore e"] st by (simp add: localSet_def mg_Set_def kept_def)
qed

lemma localDelete_kept:
  assumes "store_inv (mg_store m)"
  obtains m' b where "localDelete nw key (m, w) = ((m', w), b)" "kept m m'"
proof -
  obtain st b where st: "store_Delete (clock nw w) key (mg_store m) = (st, b)" by fastforce
  then have "store_inv st" using store_Delete_inv [OF assms] by (metis fst_conv)
  then show thesis
    using that [of "m\<lparr>mg_store := st\<rparr>" b] st by (simp add: localDelete_def mg_Delete_def kept_def)
qed

lemma roundTrip_returns:
  assumes "net_safe nw"
  shows "\<exists>w' r. roundTrip nw p ctx addr req w = Some (w', r)"
proof (cases "EncodeRequest req")
  case (Inr payload)
  obtain t d where e: "roundTrip nw p ctx addr req w = (case transfer nw w t d addr payload of
      (w', Inl err) \<Rightarrow> Some (w', Inl (NetError err))
    | (w', Inr rd) \<Rightarrow>
        (case DecodeResponse rd of
          Inl err \<Rightarrow> if err = RuntimePanic then None else Some (w', Inl (CodecError err))
        | Inr (resp, _) \<Rightarrow>
            if rs_Kind resp = ResponseError then Some (w', Inl (RemoteError (rs_Message resp))) else Some (w', Inr resp)))"
    using Inr by (simp add: roundTrip_def Let_def)
  obtain w' r where tr: "transfer nw w t d addr payload = (w', r)" by fastforce
  show ?thesis
  proof (cases r)
    case rd: (Inr rd)
    then have "DecodeResponse rd \<noteq> Inl RuntimePanic" using assms tr by (auto simp: net_safe_def)
    then show ?thesis using e tr rd by (auto split: sum.split)
  qed (simp add: e tr)
qed (simp add: roundTrip_def)

lemma rpc_returns:
  assumes "net_safe nw"
  shows "\<exists>w' r. ReplicateSet nw p ctx addr key val ttl w = Some (w', r)" and "\<exists>w' r. ReplicateDelete nw p ctx addr key w = Some (w', r)"
    and "\<exists>w' r. peer_Get nw p ctx addr key w = Some (w', r)" and "\<exists>w' r. Ping nw p ctx addr w = Some (w', r)"
proof -
  have r: "\<exists>w' x. roundTrip nw p ctx addr req w \<bind> (\<lambda>(w', r). Some (w', f r)) = Some (w', x)"
    for f :: "peer_error + Response \<Rightarrow> 'c" and req
    using roundTrip_returns [OF assms, of p ctx addr req w] by auto
  show "\<exists>w' r. ReplicateSet nw p ctx addr key val ttl w = Some (w', r)" unfolding ReplicateSet_def by (rule r)
  show "\<exists>w' r. ReplicateDelete nw p ctx addr key w = Some (w', r)" unfolding ReplicateDelete_def by (rule r)
  show "\<exists>w' r. peer_Get nw p ctx addr key w = Some (w', r)" unfolding peer_Get_def by (rule r)
  show "\<exists>w' r. Ping nw p ctx addr w = Some (w', r)" unfolding Ping_def by (rule r)
qed

lemma setOnAll_returns:
  assumes "net_safe nw" and "store_inv (mg_store m)"
  shows "\<exists>m' w' acked. setOnAll nw ctx key val ttl ts (m, w) = Some ((m', w'), acked) \<and> kept m m'"
  using assms(2)
proof (induction ts arbitrary: m w)
  case (Cons n ns)
  obtain w1 err where r: "ReplicateSet nw (mg_peer m) ctx (nd_Addr n) key val ttl w = Some (w1, err)"
    using rpc_returns(1) [OF assms(1)] by blast
  have k: "kept m (mark (nd_ID n) err m)" by (rule kept_mark [OF Cons.prems])
  obtain m' w' acked where "setOnAll nw ctx key val ttl ns (mark (nd_ID n) err m, w1) = Some ((m', w'), acked)"
    "kept (mark (nd_ID n) err m) m'" using Cons.IH [OF keptD(3) [OF k]] by blast
  then show ?case using r kept_trans [OF k] by (auto simp: setOn_def)
qed (simp add: kept_refl)

lemma deleteAll_returns: "net_safe nw \<Longrightarrow> \<exists>w'. deleteAll nw p key ns w = Some w'"
proof (induction ns arbitrary: w)
  case (Cons n ns)
  then show ?case using rpc_returns(2) [OF Cons.prems, of p Background "nd_Addr n" key w] by auto
qed simp

lemma restoreAll_returns: "net_safe nw \<Longrightarrow> \<exists>w'. restoreAll nw p key v ns w = Some w'"
proof (induction ns arbitrary: w)
  case (Cons n ns)
  then show ?case using rpc_returns(1) [OF Cons.prems, of p Background "nd_Addr n" key "Some v" 0 w] by auto
qed simp

lemma collectAcks_returns:
  assumes "net_safe nw" and "store_inv (mg_store m)"
  shows "\<exists>m' w' r. collectAcks nw sc ctx key val ttl required ts (m, w) = Some ((m', w'), r) \<and> kept m m'"
proof (cases "ctx_ends sc")
  case None
  obtain m1 w1 acked where a: "setOnAll nw ctx key val ttl ts (m, w) = Some ((m1, w1), acked)" "kept m m1"
    using setOnAll_returns [OF assms] by blast
  obtain w2 where d: "deleteAll nw (mg_peer m1) key acked w1 = Some w2" using deleteAll_returns [OF assms(1)] by blast
  obtain m3 b where "localDelete nw key (m1, w2) = ((m3, w2), b)" "kept m1 m3" by (rule localDelete_kept [OF keptD(3) [OF a(2)]])
  then show ?thesis using None a d kept_trans [OF a(2)] by (simp add: collectAcks_def)
next
  case (Some ke)
  obtain k e where ke: "ke = (k, e)" by (cases ke)
  obtain m1 w1 acked where a: "setOnAll nw ctx key val ttl (take k ts) (m, w) = Some ((m1, w1), acked)" "kept m m1"
    using setOnAll_returns [OF assms] by blast
  obtain m2 b where d: "localDelete nw key (m1, w1) = ((m2, w1), b)" "kept m1 m2" by (rule localDelete_kept [OF keptD(3) [OF a(2)]])
  obtain m3 w3 acked' where "setOnAll nw ctx key val ttl (drop k ts) (m2, w1) = Some ((m3, w3), acked')" "kept m2 m3"
    using setOnAll_returns [OF assms(1) keptD(3) [OF d(2)]] by blast
  moreover from this(2) have "kept m m3" by (rule kept_trans [OF kept_trans [OF a(2) d(2)]])
  ultimately show ?thesis using Some ke a(1) d(1) by (simp add: collectAcks_def)
qed

lemma WriteSet_returns:
  assumes "net_safe nw" and "store_inv (mg_store m)"
  shows "\<exists>m' w' r. WriteSet nw sc ctx key val ttl (m, w) = Some ((m', w'), r) \<and> kept m m'"
proof -
  obtain m1 r where l: "localSet nw key val ttl (m, w) = ((m1, w), r)" "kept m m1" by (rule localSet_kept [OF assms(2)])
  have "\<exists>m' w' r. collectAcks nw sc ctx key val ttl req ts (m1, w) = Some ((m', w'), r) \<and> kept m m'" for req ts
    using collectAcks_returns [OF assms(1) keptD(3) [OF l(2)]] kept_trans [OF l(2)] by blast
  then show ?thesis
    using l kept_refl [OF assms(2)] by (cases r) (auto simp: WriteSet_def Let_def split: sum.splits)
qed

lemma deleteOnAll_returns:
  assumes "net_safe nw" and "store_inv (mg_store m)"
  shows "\<exists>m' w' acked. deleteOnAll nw ctx key ns (m, w) = Some ((m', w'), acked) \<and> kept m m'"
  using assms(2)
proof (induction ns arbitrary: m w)
  case (Cons n ns)
  obtain w1 err where r: "ReplicateDelete nw (mg_peer m) ctx (nd_Addr n) key w = Some (w1, err)"
    using rpc_returns(2) [OF assms(1)] by blast
  have k: "kept m (mark (nd_ID n) err m)" by (rule kept_mark [OF Cons.prems])
  obtain m' w' acked where "deleteOnAll nw ctx key ns (mark (nd_ID n) err m, w1) = Some ((m', w'), acked)"
    "kept (mark (nd_ID n) err m) m'" using Cons.IH [OF keptD(3) [OF k]] by blast
  then show ?case using r kept_trans [OF k] Cons.IH [OF Cons.prems] by auto
qed (simp add: kept_refl)

lemma WriteDelete_returns:
  assumes "net_safe nw" and "store_inv (mg_store m)"
  shows "\<exists>m' w' r. WriteDelete nw ctx key (m, w) = Some ((m', w'), r) \<and> kept m m'"
proof -
  obtain m1 v where g: "mg_Get (clock nw w) key m = (m1, v)" by fastforce
  have k: "kept m m1" using kept_Get [OF assms(2)] g by (metis fst_conv)
  obtain m2 b where l: "localDelete nw key (m1, w) = ((m2, w), b)" "kept m1 m2" by (rule localDelete_kept [OF keptD(3) [OF k]])
  have del: "\<exists>m' w' r. (deleteOnAll nw ctx key owners (m1, w) \<bind> (\<lambda>((m2, w2), acked).
      if int (length acked) < req
      then restoreAll nw (mg_peer m2) key x acked w2 \<bind> (\<lambda>w3. Some ((m2, w3), Inl (ErrQuorumNotMet (length acked) req)))
      else Some (case localDelete nw key (m2, w2) of (s', b) \<Rightarrow> (s', Inr b)))) = Some ((m', w'), r) \<and> kept m m'" for owners req x
  proof -
    obtain m2 w2 acked where d: "deleteOnAll nw ctx key owners (m1, w) = Some ((m2, w2), acked)" "kept m1 m2"
      using deleteOnAll_returns [OF assms(1) keptD(3) [OF k]] by blast
    obtain w3 where s: "restoreAll nw (mg_peer m2) key x acked w2 = Some w3" using restoreAll_returns [OF assms(1)] by blast
    obtain m3 b where "localDelete nw key (m2, w2) = ((m3, w2), b)" "kept m2 m3" by (rule localDelete_kept [OF keptD(3) [OF d(2)]])
    then show ?thesis using d s kept_trans [OF k] kept_trans [OF kept_trans [OF k d(2)]] by simp
  qed
  show ?thesis
  proof (cases v)
    case (Some a)
    then show ?thesis
      using g k l kept_trans [OF k l(2)] kept_refl [OF assms(2)] del [where req = "RequiredWriteAcks (mg_cfg m1)" and x = a]
      by (cases "replicaSet m1 key") (simp_all add: WriteDelete_def Let_def)
  qed (use g k kept_refl [OF assms(2)] in \<open>simp add: WriteDelete_def\<close>)
qed

lemma readFromAll_returns:
  assumes "net_safe nw" and "store_inv (mg_store m)"
  shows "\<exists>m' w' rs. readFromAll nw ctx key ns (m, w) = Some ((m', w'), rs) \<and> kept m m'"
  using assms(2)
proof (induction ns arbitrary: m w)
  case (Cons n ns)
  have "\<exists>m1 w1 r. readFrom nw ctx key n (m, w) = Some ((m1, w1), r) \<and> kept m m1"
  proof (cases "nd_ID n = SelfID (mg_cluster m)")
    case True
    obtain m1 v where "mg_Get (clock nw w) key m = (m1, v)" by fastforce
    then show ?thesis using True kept_Get [OF Cons.prems, of "clock nw w" key] by (simp add: readFrom_def)
  next
    case False
    obtain w1 r where "peer_Get nw (mg_peer m) ctx (nd_Addr n) key w = Some (w1, r)" using rpc_returns(3) [OF assms(1)] by blast
    then show ?thesis using False kept_mark [OF Cons.prems] by (simp add: readFrom_def)
  qed
  then obtain m1 w1 r where r: "readFrom nw ctx key n (m, w) = Some ((m1, w1), r)" "kept m m1" by blast
  obtain m' w' rs where "readFromAll nw ctx key ns (m1, w1) = Some ((m', w'), rs)" "kept m1 m'"
    using Cons.IH [OF keptD(3) [OF r(2)]] by blast
  then show ?case using r kept_trans [OF r(2)] by auto
qed (simp add: kept_refl)

lemma readPeersLoop_returns:
  assumes "net_safe nw" and "store_inv (mg_store m)"
  shows "\<exists>m' w' v. readPeersLoop nw ctx key req ns (m, w) = Some ((m', w'), v) \<and> kept m m'"
  using assms(2)
proof (induction ns arbitrary: m w)
  case (Cons n ns)
  obtain w1 r where r: "peer_Get nw (mg_peer m) ctx (nd_Addr n) key w = Some (w1, r)" using rpc_returns(3) [OF assms(1)] by blast
  have k: "kept m (mark (nd_ID n) (err_of r) m)" by (rule kept_mark [OF Cons.prems])
  have n: "\<exists>m' w' v. readPeersLoop nw ctx key req ns (mark (nd_ID n) (err_of r) m, w1) = Some ((m', w'), v) \<and> kept m m'"
    using Cons.IH [OF keptD(3) [OF k]] kept_trans [OF k] by blast
  show ?case using r k n Cons.IH [OF Cons.prems] by (auto simp: Let_def split: sum.splits option.splits)
qed (simp add: kept_refl)

lemma manager_Read_returns:
  assumes "net_safe nw" and "store_inv (mg_store m)"
  shows "\<exists>m' w' r. manager_Read nw sc ctx key (m, w) = Some ((m', w'), r) \<and> kept m m'"
proof -
  obtain m1 v where g: "mg_Get (clock nw w) key m = (m1, v)" by fastforce
  have k: "kept m m1" using kept_Get [OF assms(2)] g by (metis fst_conv)
  have q: "\<exists>m' w' r. readQuorum nw sc ctx key (m, w) = Some ((m', w'), r) \<and> kept m m'"
  proof (cases "replicaSet m key")
    case (Inr owners)
    obtain m' w' rs where "readFromAll nw ctx key (run_order sc (filter (\<lambda>node. IsHealthy (nd_ID node) (mg_health m)) owners)) (m, w) =
      Some ((m', w'), rs)" "kept m m'" using readFromAll_returns [OF assms] by blast
    with Inr show ?thesis by (simp add: readQuorum_def)
  qed (simp add: readQuorum_def kept_refl [OF assms(2)])
  have p: "\<exists>m' w' r. readFromPeers nw ctx key 1 (m1, w) = Some ((m', w'), r) \<and> kept m m'"
  proof (cases "replicaSet m1 key")
    case (Inr owners)
    obtain m' w' x where "readPeersLoop nw ctx key 1 owners (m1, w) = Some ((m', w'), x)" "kept m1 m'"
      using readPeersLoop_returns [OF assms(1) keptD(3) [OF k]] by blast
    with Inr show ?thesis using kept_trans [OF k] by (auto simp: readFromPeers_def)
  qed (simp add: readFromPeers_def k)
  show ?thesis
    using g k q p kept_refl [OF assms(2)] by (cases v) (auto simp: manager_Read_def)
qed

subsection \<open>Undoing a write\<close>

lemma setOnAll_store:
  "setOnAll nw ctx key val ttl ts (m, w) = Some ((m', w'), acked) \<Longrightarrow> mg_store m' = mg_store m"
proof (induction ts arbitrary: m w acked)
  case (Cons n ns)
  from Cons.prems obtain w1 acked1 and err :: "peer_error option" where
    "setOnAll nw ctx key val ttl ns (mark (nd_ID n) err m, w1) = Some ((m', w'), acked1)"
    by (auto simp: setOn_def bind_eq_Some_conv)
  from Cons.IH [OF this] show ?case by simp
qed simp

lemma localDelete_gone:
  assumes "localDelete nw key (m, w) = ((m', w'), b)" and "store_inv (mg_store m)"
  shows "live t (mg_store m') key = None"
  using assms cs.del_view [OF assms(2), of t "clock nw w" key]
  by (auto simp: localDelete_def mg_Delete_def split: prod.splits)

lemma collectAcks_undone:
  assumes "collectAcks nw sc ctx key val ttl required ts (m, w) = Some ((m', w'), Some err)" and "store_inv (mg_store m)"
  shows "live t (mg_store m') key = None"
proof (cases "ctx_ends sc")
  case None
  then obtain m1 w1 acked w2 where a: "setOnAll nw ctx key val ttl ts (m, w) = Some ((m1, w1), acked)"
    and "(case localDelete nw key (m1, w2) of (s3, _) \<Rightarrow> Some (s3, Some (ErrQuorumNotMet (length acked) required))) =
      Some ((m', w'), Some err)"
    using assms(1) by (auto simp: collectAcks_def bind_eq_Some_conv split: if_splits)
  then obtain b where d: "localDelete nw key (m1, w2) = ((m', w'), b)"
    by (cases "localDelete nw key (m1, w2)") auto
  have "store_inv (mg_store m1)" using setOnAll_store [OF a] assms(2) by simp
  then show ?thesis by (rule localDelete_gone [OF d])
next
  case (Some ke)
  obtain k e where "ke = (k, e)" by (cases ke)
  with Some assms(1) obtain m1 w1 acked where a: "setOnAll nw ctx key val ttl (take k ts) (m, w) = Some ((m1, w1), acked)"
    and r: "(case localDelete nw key (m1, w1) of (s2, _) \<Rightarrow> setOnAll nw ctx key val ttl (drop k ts) s2 \<bind>
      (\<lambda>(s3, _). Some (s3, Some (CtxErr e)))) = Some ((m', w'), Some err)"
    by (auto simp: collectAcks_def bind_eq_Some_conv)
  obtain m2 w2 b where d: "localDelete nw key (m1, w1) = ((m2, w2), b)" by (metis prod.collapse)
  then obtain acked2 where c: "setOnAll nw ctx key val ttl (drop k ts) (m2, w2) = Some ((m', w'), acked2)"
    using r by (auto simp: bind_eq_Some_conv)
  have "store_inv (mg_store m1)" using setOnAll_store [OF a] assms(2) by simp
  then have "live t (mg_store m2) key = None" by (rule localDelete_gone [OF d])
  then show ?thesis using setOnAll_store [OF c] by simp
qed

text \<open>
  Two replies that disagree are a quorum of two, and the first one to arrive wins. With three replicas, both
  quorums 2 and one replica down, a replica that missed the last write can thus answer for the key.
\<close>

lemma disagreeing_replies: "u \<noteq> v \<Longrightarrow> tally 2 [Some u, Some v] [] 0 None = Inr (Some u)"
  by (simp add: tally.simps)

section \<open>Properties\<close>



text \<open>
  C36: A write that fails loses the old value. When \<open>WriteSet\<close> reports that the quorum was not met or
  that its context ended, the primary holds no value for the key any more: the local write is undone
  by a deletion, also when the key had a value before the call.
\<close>

theorem failed_write_loses_value:
  assumes "store_inv (mg_store m)"
    and "WriteSet nw sc ctx key (Some v) ttl (m, w) = Some ((m', w'), Some err)"
    and "err = ErrQuorumNotMet k req \<or> err = CtxErr e"
  shows "live t (mg_store m') key = None"
proof -
  obtain st serr where st: "store_Set (clock nw w) key v ttl (mg_store m) = (st, serr)" by fastforce
  have inv: "store_inv st" using store_Set_inv [OF assms(1)] st by (metis fst_conv)
  from assms(2,3) obtain required ts where
    "collectAcks nw sc ctx key (Some v) ttl required ts (m\<lparr>mg_store := st\<rparr>, w) = Some ((m', w'), Some err)"
    using st by (auto simp: WriteSet_def Let_def localSet_def mg_Set_def split: if_splits sum.splits option.splits)
  then show ?thesis
    by (rule collectAcks_undone) (use inv in simp)
qed

definition demo_manager :: Manager where
  "demo_manager = \<lparr>mg_cfg = \<lparr>rp_ReplicationFactor = 2, rp_WriteQuorum = 2, rp_ReadQuorum = 1,
       rp_WriteConsistency = WriteQuorum, rp_ReadConsistency = ReadQuorum\<rparr>,
     mg_cluster = \<lparr>cl_ring = demo_ring, selfID = ''n2''\<rparr>,
     mg_store = fst (store_Set 1 ''k'' ''old'' 0 (NewStore DefaultStoreConfig)),
     mg_health = NewHealthTracker, mg_peer = \<lparr>peer_Timeout = 2 * second\<rparr>\<rparr>"

definition demo_refusing :: "unit Network" where
  "demo_refusing = \<lparr>clock = \<lambda>_. 1, transfer = \<lambda>w _ _ _ _. (w, Inl ''refused'')\<rparr>"

theorem failed_write_loses_value_witness:
  "\<exists>m' w'. live 1 (mg_store demo_manager) ''k'' = Some ''old'' \<and>
     WriteSet demo_refusing \<lparr>run_order = id, ctx_ends = None\<rparr> Background
       ''k'' (Some ''new'') 0 (demo_manager, ()) = Some ((m', w'), Some (ErrQuorumNotMet 0 1)) \<and>
     live 1 (mg_store m') ''k'' = None"
proof -
  have inv: "store_inv (mg_store demo_manager)" by (simp add: demo_manager_def store_Set_inv NewStore_inv)
  have "(case WriteSet demo_refusing \<lparr>run_order = id, ctx_ends = None\<rparr> Background
       ''k'' (Some ''new'') 0 (demo_manager, ()) of None \<Rightarrow> None | Some (s, err) \<Rightarrow> Some err) = Some (Some (ErrQuorumNotMet 0 1))"
    by code_simp
  then obtain m' w' where w: "WriteSet demo_refusing \<lparr>run_order = id, ctx_ends = None\<rparr> Background
       ''k'' (Some ''new'') 0 (demo_manager, ()) = Some ((m', w'), Some (ErrQuorumNotMet 0 1))"
    by (auto split: option.splits)
  have "live 1 (mg_store m') ''k'' = None" by (rule failed_write_loses_value [OF inv w]) simp
  moreover have "live 1 (mg_store demo_manager) ''k'' = Some ''old''" by code_simp
  ultimately show ?thesis using w by blast
qed

end
