(* ===== verification/Metrics_Registry.thy ===== *)
theory Metrics_Registry
  imports Go_Sort Complex_Main "HOL-Library.Monad_Syntax"
begin

text \<open>
  Request counters and latency samples: \<^verbatim>\<open>src/internal/metrics/registry.go\<close> and
  \<^verbatim>\<open>src/internal/metrics/load.go\<close>.

  Counters and durations are \<open>int64\<close> and wrap around. A percentile is taken at the rank
  \<open>int(float64(n-1) * p)\<close>; for the three constants of the code the rounded product and the exact one
  have the same integer part (the error of the product is below one part in \<open>2\<^sup>5\<^sup>3\<close>, and the exact product
  is a multiple of 1/100), so \<open>p\<close> is a rational here. The throughput is a quotient of floats in the code
  and the exact quotient here. A value \<open>None\<close> is the panic of a slice expression out of range.
\<close>

section \<open>Model\<close>

definition defaultMaxSamples :: nat where
  "defaultMaxSamples = 8192"

record LatencySnapshot =
  ls_Count :: int
  ls_Min :: duration
  ls_Max :: duration
  ls_Mean :: duration
  ls_P50 :: duration
  ls_P95 :: duration
  ls_P99 :: duration

record CommandSnapshot =
  sn_Command :: string
  sn_Requests :: int
  sn_Errors :: int
  sn_Latency :: LatencySnapshot

record Snapshot =
  sn_GeneratedAt :: time
  sn_Total :: int
  sn_TotalErrors :: int
  sn_Commands :: "CommandSnapshot list"

record latencyTracker =
  lt_samples :: "duration list"
  lt_capacity :: nat

record commandMetrics =
  cm_requests :: int
  cm_errors :: int
  cm_latency :: latencyTracker

record Registry =
  rg_commands :: "(string, commandMetrics) gomap"
  rg_total :: int
  rg_errors :: int
  rg_maxSamples :: nat

definition NewRegistry :: Registry where
  "NewRegistry = \<lparr>rg_commands = [], rg_total = 0, rg_errors = 0, rg_maxSamples = defaultMaxSamples\<rparr>"

definition observe :: "duration \<Rightarrow> latencyTracker \<Rightarrow> latencyTracker option" where
  "observe d t =
     (if length (lt_samples t) < lt_capacity t then Some (t\<lparr>lt_samples := lt_samples t @ [d]\<rparr>)
      else if lt_samples t = [] then None
      else Some (t\<lparr>lt_samples := tl (lt_samples t) @ [d]\<rparr>))"

text \<open>The part of \<open>Observe\<close> under the lock of the registry; the sample is added after it.\<close>

definition countRequest :: "string \<Rightarrow> bool \<Rightarrow> Registry \<Rightarrow> Registry" where
  "countRequest command isError r =
     (let metrics = (case map_of (rg_commands r) command of
            Some m \<Rightarrow> m
          | None \<Rightarrow> \<lparr>cm_requests = 0, cm_errors = 0, cm_latency = \<lparr>lt_samples = [], lt_capacity = rg_maxSamples r\<rparr>\<rparr>);
          metrics' = metrics\<lparr>cm_requests := wrap64 (cm_requests metrics + 1),
            cm_errors := (if isError then wrap64 (cm_errors metrics + 1) else cm_errors metrics)\<rparr>
      in r\<lparr>rg_commands := AList.update command metrics' (rg_commands r),
           rg_total := wrap64 (rg_total r + 1),
           rg_errors := (if isError then wrap64 (rg_errors r + 1) else rg_errors r)\<rparr>)"

definition Observe :: "string \<Rightarrow> duration \<Rightarrow> bool \<Rightarrow> Registry \<Rightarrow> Registry option" where
  "Observe command latency isError r =
     (let r1 = countRequest command isError r
      in case map_of (rg_commands r1) command of
        None \<Rightarrow> Some r1
      | Some m \<Rightarrow> do {
          t \<leftarrow> observe latency (cm_latency m);
          Some (r1\<lparr>rg_commands := AList.update command (m\<lparr>cm_latency := t\<rparr>) (rg_commands r1)\<rparr>) })"

definition percentile :: "duration list \<Rightarrow> rat \<Rightarrow> duration" where
  "percentile srt p =
     (if srt = [] then 0
      else if p \<le> 0 then srt ! 0
      else if 1 \<le> p then srt ! (length srt - 1)
      else srt ! nat \<lfloor>of_nat (length srt - 1) * p\<rfloor>)"

text \<open>Integer division of Go, which rounds towards zero.\<close>

definition quot :: "int \<Rightarrow> int \<Rightarrow> int" where
  "quot a b = (if 0 \<le> a then a div b else - ((- a) div b))"

definition computeLatencySnapshot :: "duration list \<Rightarrow> LatencySnapshot" where
  "computeLatencySnapshot samples =
     (if samples = []
      then \<lparr>ls_Count = 0, ls_Min = 0, ls_Max = 0, ls_Mean = 0, ls_P50 = 0, ls_P95 = 0, ls_P99 = 0\<rparr>
      else
        let srt = sort samples;
            total = fold (\<lambda>sample tot. wrap64 (tot + sample)) srt 0
        in \<lparr>ls_Count = int (length srt), ls_Min = srt ! 0, ls_Max = srt ! (length srt - 1),
            ls_Mean = quot total (int (length srt)),
            ls_P50 = percentile srt (50 / 100), ls_P95 = percentile srt (95 / 100), ls_P99 = percentile srt (99 / 100)\<rparr>)"

definition latency_snapshot :: "latencyTracker \<Rightarrow> LatencySnapshot" where
  "latency_snapshot t = computeLatencySnapshot (lt_samples t)"

text \<open>The report is built along the iteration order \<open>ps\<close> of the map and then sorted.\<close>

definition Snapshot_range :: "time \<Rightarrow> (string, commandMetrics) gomap \<Rightarrow> Registry \<Rightarrow> Snapshot" where
  "Snapshot_range now ps r =
     \<lparr>sn_GeneratedAt = now, sn_Total = rg_total r, sn_TotalErrors = rg_errors r,
      sn_Commands = sort_key sn_Command
        (map (\<lambda>(command, m). \<lparr>sn_Command = command, sn_Requests = cm_requests m, sn_Errors = cm_errors m,
           sn_Latency = latency_snapshot (cm_latency m)\<rparr>) ps)\<rparr>"

definition registry_Snapshot :: "time \<Rightarrow> Registry \<Rightarrow> Snapshot" where
  "registry_Snapshot now r = Snapshot_range now (rg_commands r) r"

definition Reset :: "Registry \<Rightarrow> Registry" where
  "Reset r = r\<lparr>rg_commands := [], rg_total := 0, rg_errors := 0\<rparr>"

subsection \<open>Load test results\<close>

record LoadResult =
  lr_Duration :: duration
  lr_Concurrency :: int
  lr_Operations :: int
  lr_Errors :: int
  lr_Throughput :: rat
  lr_Latency :: LatencySnapshot

definition SummarizeLoad :: "duration \<Rightarrow> int \<Rightarrow> duration list \<Rightarrow> int \<Rightarrow> LoadResult" where
  "SummarizeLoad dur concurrency samples errs =
     \<lparr>lr_Duration = dur, lr_Concurrency = concurrency, lr_Operations = int (length samples), lr_Errors = errs,
      lr_Throughput = (if 0 < dur then of_nat (length samples) / (of_int dur / of_int second) else 0),
      lr_Latency = computeLatencySnapshot samples\<rparr>"

definition CollectLatencies :: "duration list \<Rightarrow> duration list" where
  "CollectLatencies samples = sort samples"

section \<open>Lemmas\<close>

text \<open>A run of observations, and the latencies it reports for a command.\<close>

fun observe_all :: "(string \<times> duration \<times> bool) list \<Rightarrow> Registry \<Rightarrow> Registry option" where
  "observe_all [] r = Some r"
| "observe_all ((c, d, e) # obs) r = do { r' \<leftarrow> Observe c d e r; observe_all obs r' }"

definition latencies :: "string \<Rightarrow> (string \<times> duration \<times> bool) list \<Rightarrow> duration list" where
  "latencies c obs = map (\<lambda>(_, d, _). d) (filter (\<lambda>(c', _). c' = c) obs)"

definition lastn :: "nat \<Rightarrow> 'a list \<Rightarrow> 'a list" where
  "lastn k xs = drop (length xs - k) xs"

text \<open>
  What the registry holds after a run: the counters of the run, and for each command the latest
  samples, as many as fit.
\<close>

definition reports :: "(string \<times> duration \<times> bool) list \<Rightarrow> Registry \<Rightarrow> bool" where
  "reports obs r \<longleftrightarrow> rg_maxSamples r = defaultMaxSamples \<and> distinct (map fst (rg_commands r)) \<and>
     rg_total r = int (length obs) \<and> rg_errors r = int (length (filter (\<lambda>(_, _, e). e) obs)) \<and>
     (\<forall>c. map_of (rg_commands r) c = (if latencies c obs = [] then None else
        Some \<lparr>cm_requests = int (length (latencies c obs)),
              cm_errors = int (length (filter (\<lambda>(c', _, e). c' = c \<and> e) obs)),
              cm_latency = \<lparr>lt_samples = lastn defaultMaxSamples (latencies c obs), lt_capacity = defaultMaxSamples\<rparr>\<rparr>))"

lemma lastn_snoc:
  "0 < k \<Longrightarrow> lastn k (xs @ [x]) = (if length (lastn k xs) < k then lastn k xs @ [x] else tl (lastn k xs) @ [x])"
proof (cases "length xs < k")
  case False
  assume "0 < k"
  with False have "length (xs @ [x]) - k = Suc (length xs - k)" by simp
  then show ?thesis using False \<open>0 < k\<close> by (simp add: lastn_def tl_drop drop_Suc)
qed (simp add: lastn_def)

lemma latencies_snoc: "latencies c (obs @ [(c', d, e)]) = latencies c obs @ (if c' = c then [d] else [])"
  by (simp add: latencies_def)

lemma latencies_length: "length (latencies c obs) \<le> length obs"
  by (simp add: latencies_def)

lemma Observe_reports:
  assumes "reports obs r" and "length obs + 1 < 2 ^ 63"
  shows "\<exists>r'. Observe c d e r = Some r' \<and> reports (obs @ [(c, d, e)]) r'"
proof -
  let ?obs = "obs @ [(c, d, e)]" and ?k = defaultMaxSamples
  define lat where "lat = latencies c obs"
  define errs where "errs = length (filter (\<lambda>(c', _, e). c' = c \<and> e) obs)"
  have w: "wrap64 (int n + 1) = int n + 1" if "n \<le> length obs" for n
    using that assms(2) by (intro wrap64_id) simp_all
  have n: "length lat \<le> length obs" "errs \<le> length obs" "length (filter (\<lambda>(_, _, e). e) obs) \<le> length obs"
    unfolding lat_def errs_def by (simp_all add: latencies_length)
  define old where "old = (case map_of (rg_commands r) c of Some m \<Rightarrow> m
    | None \<Rightarrow> \<lparr>cm_requests = 0, cm_errors = 0, cm_latency = \<lparr>lt_samples = [], lt_capacity = rg_maxSamples r\<rparr>\<rparr>)"
  have old: "old = \<lparr>cm_requests = int (length lat), cm_errors = int errs, cm_latency = \<lparr>lt_samples = lastn ?k lat, lt_capacity = ?k\<rparr>\<rparr>"
  proof (cases "lat = []")
    case True
    then have "filter (\<lambda>(c', _, e). c' = c \<and> e) obs = []"
      by (auto simp: lat_def latencies_def filter_empty_conv)
    then show ?thesis using assms(1) True by (simp add: old_def reports_def lat_def errs_def lastn_def)
  next
    case False
    then show ?thesis using assms(1) by (simp add: old_def reports_def lat_def errs_def)
  qed
  have k: "0 < ?k" by (simp add: defaultMaxSamples_def)
  have ob: "observe d (cm_latency old) = Some \<lparr>lt_samples = lastn ?k (lat @ [d]), lt_capacity = ?k\<rparr>"
  proof (cases "length (lastn ?k lat) < ?k")
    case True
    then show ?thesis by (simp add: observe_def old lastn_snoc [OF k])
  next
    case False
    then have "lastn ?k lat \<noteq> []" using k by auto
    with False show ?thesis by (simp add: observe_def old lastn_snoc [OF k])
  qed
  define m where "m = \<lparr>cm_requests = int (length lat) + 1, cm_errors = (if e then int errs + 1 else int errs),
    cm_latency = \<lparr>lt_samples = lastn ?k (lat @ [d]), lt_capacity = ?k\<rparr>\<rparr>"
  define r' where "r' = r\<lparr>rg_commands := AList.update c m (AList.update c (m\<lparr>cm_latency := cm_latency old\<rparr>) (rg_commands r)),
    rg_total := rg_total r + 1, rg_errors := (if e then rg_errors r + 1 else rg_errors r)\<rparr>"
  have tot: "rg_total r = int (length obs)" "rg_errors r = int (length (filter (\<lambda>(_, _, e). e) obs))"
    using assms(1) by (simp_all add: reports_def)
  have "Observe c d e r = Some r'"
    using ob by (simp add: Observe_def countRequest_def Let_def old_def [symmetric] r'_def m_def old tot w [OF n(1)] w [OF n(2)]
      w [OF n(3)] w [OF order.refl])
  moreover have "reports ?obs r'"
    unfolding reports_def
  proof (intro conjI allI)
    show "distinct (map fst (rg_commands r'))" using assms(1) by (simp add: r'_def reports_def distinct_update)
    show "map_of (rg_commands r') c' = (if latencies c' ?obs = [] then None else
        Some \<lparr>cm_requests = int (length (latencies c' ?obs)), cm_errors = int (length (filter (\<lambda>(c'', _, e). c'' = c' \<and> e) ?obs)),
          cm_latency = \<lparr>lt_samples = lastn ?k (latencies c' ?obs), lt_capacity = ?k\<rparr>\<rparr>)" for c'
    proof (cases "c' = c")
      case True
      then show ?thesis by (simp add: r'_def m_def latencies_snoc lat_def errs_def)
    next
      case False
      then show ?thesis using assms(1) by (simp add: r'_def latencies_snoc reports_def)
    qed
  qed (use assms(1) in \<open>simp_all add: r'_def reports_def\<close>)
  ultimately show ?thesis by blast
qed

lemma observe_all_reports:
  "reports obs r \<Longrightarrow> length obs + length obs' < 2 ^ 63 \<Longrightarrow> \<exists>r'. observe_all obs' r = Some r' \<and> reports (obs @ obs') r'"
proof (induction obs' arbitrary: obs r)
  case (Cons o' obs')
  obtain c d e where o': "o' = (c, d, e)" by (cases o')
  obtain r1 where "Observe c d e r = Some r1" "reports (obs @ [(c, d, e)]) r1"
    using Observe_reports [OF Cons.prems(1)] Cons.prems(2) by fastforce
  then show ?case using Cons.IH [of "obs @ [(c, d, e)]" r1] Cons.prems(2) o' by auto
qed simp

lemma NewRegistry_reports: "reports [] NewRegistry"
  by (simp add: reports_def NewRegistry_def latencies_def)

text \<open>Order statistics of the samples.\<close>

lemma rank_bound:
  fixes p :: rat
  assumes "0 < p" and "p < 1"
  shows "nat \<lfloor>of_nat n * p\<rfloor> \<le> n"
proof -
  have "of_nat n * p \<le> of_nat n" using assms by (simp add: mult_left_le)
  then have "\<lfloor>of_nat n * p\<rfloor> \<le> int n" by (metis floor_mono floor_of_nat)
  then show ?thesis by simp
qed

lemma percentile_mono:
  assumes "srt \<noteq> []" and "sorted srt" and "0 < p" and "p \<le> q" and "q < 1"
  shows "srt ! 0 \<le> percentile srt p" "percentile srt p \<le> percentile srt q" "percentile srt q \<le> srt ! (length srt - 1)"
    "percentile srt p \<in> set srt"
proof -
  let ?r = "\<lambda>p. nat \<lfloor>of_nat (length srt - 1) * p\<rfloor>"
  have b: "?r p \<le> length srt - 1" "?r q \<le> length srt - 1" using rank_bound assms by simp_all
  have "of_nat (length srt - 1) * p \<le> of_nat (length srt - 1) * q" using assms(4) by (simp add: mult_left_mono)
  then have m: "?r p \<le> ?r q" by (simp add: floor_mono nat_mono)
  have l: "length srt - 1 < length srt" using assms(1) by simp
  have e: "percentile srt p = srt ! ?r p" "percentile srt q = srt ! ?r q" using assms by (simp_all add: percentile_def)
  show "srt ! 0 \<le> percentile srt p" "percentile srt p \<le> percentile srt q" "percentile srt q \<le> srt ! (length srt - 1)"
    unfolding e using assms(2) b m l by (auto intro!: sorted_nth_mono)
  show "percentile srt p \<in> set srt" unfolding e using b(1) l by (intro nth_mem) linarith
qed

definition report_line :: "string \<times> commandMetrics \<Rightarrow> CommandSnapshot" where
  "report_line = (\<lambda>(command, m). \<lparr>sn_Command = command, sn_Requests = cm_requests m, sn_Errors = cm_errors m,
     sn_Latency = latency_snapshot (cm_latency m)\<rparr>)"

lemma report_line_names: "map sn_Command (map report_line ps) = map fst ps"
  by (simp add: report_line_def split_def)

lemma sn_Commands_range: "sn_Commands (Snapshot_range now ps r) = sort_key sn_Command (map report_line ps)"
  by (simp add: Snapshot_range_def report_line_def)

lemma Snapshot_names: "map sn_Command (sn_Commands (Snapshot_range now ps r)) = sort (map fst ps)"
proof (rule properties_for_sort [symmetric])
  show "mset (map sn_Command (sn_Commands (Snapshot_range now ps r))) = mset (map fst ps)"
    unfolding sn_Commands_range report_line_names [symmetric] mset_map mset_sort by (rule refl)
  show "sorted (map sn_Command (sn_Commands (Snapshot_range now ps r)))"
    unfolding sn_Commands_range by (rule sorted_sort_key)
qed

lemma Snapshot_order:
  assumes "distinct (map fst ps)" and "mset ps = mset qs"
  shows "Snapshot_range now ps r = Snapshot_range now qs r"
proof -
  have "distinct (map sn_Command (map report_line ps))" unfolding report_line_names by (rule assms(1))
  then have i: "inj_on sn_Command (set (map report_line ps))" unfolding distinct_map by blast
  have m: "mset (map report_line ps) = mset (sort_key sn_Command (map report_line qs))"
    unfolding mset_map mset_sort assms(2) by (rule refl)
  have "sort_key sn_Command (map report_line ps) = sort_key sn_Command (map report_line qs)"
    by (rule sort_key_inj_key_eq [OF m i sorted_sort_key])
  then show ?thesis unfolding Snapshot_range_def report_line_def [symmetric] by simp
qed

section \<open>Properties\<close>



text \<open>
  C38: The latency summary is ordered: for a non-empty list of samples the minimum, the median, the
  95th and the 99th percentile and the maximum form an ascending chain, each of them is one of the
  samples, every sample lies between minimum and maximum, and the summary does not depend on the order
  in which the samples were taken.
\<close>

theorem latency_summary_ordered:
  assumes "samples \<noteq> []" and "mset samples' = mset samples"
  shows "let s = computeLatencySnapshot samples in
    ls_Min s \<le> ls_P50 s \<and> ls_P50 s \<le> ls_P95 s \<and> ls_P95 s \<le> ls_P99 s \<and> ls_P99 s \<le> ls_Max s \<and>
    {ls_Min s, ls_P50 s, ls_P95 s, ls_P99 s, ls_Max s} \<subseteq> set samples \<and>
    (\<forall>d\<in>set samples. ls_Min s \<le> d \<and> d \<le> ls_Max s) \<and> computeLatencySnapshot samples' = s"
proof -
  define srt where "srt = sort samples"
  have s: "srt \<noteq> []" "sorted srt" "set srt = set samples"
    using assms(1) by (auto simp: srt_def) (metis length_0_conv length_sort)
  have l: "length srt - 1 < length srt" using s(1) by simp
  have eq: "computeLatencySnapshot samples' = computeLatencySnapshot samples"
    using assms by (metis computeLatencySnapshot_def mset.simps(1) mset_zero_iff_right sorted_list_of_multiset_mset)
  have f: "ls_Min (computeLatencySnapshot samples) = srt ! 0" "ls_Max (computeLatencySnapshot samples) = srt ! (length srt - 1)"
    "ls_P50 (computeLatencySnapshot samples) = percentile srt (50 / 100)" "ls_P95 (computeLatencySnapshot samples) = percentile srt (95 / 100)"
    "ls_P99 (computeLatencySnapshot samples) = percentile srt (99 / 100)"
    using assms(1) by (simp_all add: computeLatencySnapshot_def Let_def srt_def)
  have p: "srt ! 0 \<le> percentile srt (50 / 100)" "percentile srt (50 / 100) \<le> percentile srt (95 / 100)"
    "percentile srt (95 / 100) \<le> percentile srt (99 / 100)" "percentile srt (99 / 100) \<le> srt ! (length srt - 1)"
    "percentile srt (50 / 100) \<in> set srt" "percentile srt (95 / 100) \<in> set srt" "percentile srt (99 / 100) \<in> set srt"
    using percentile_mono [OF s(1,2), of "50 / 100" "95 / 100"] percentile_mono [OF s(1,2), of "95 / 100" "99 / 100"]
      percentile_mono(4) [OF s(1,2), of "99 / 100" "99 / 100"] by simp_all
  have m: "srt ! 0 \<le> d \<and> d \<le> srt ! (length srt - 1)" if "d \<in> set srt" for d
    using that s(2) by (auto simp: in_set_conv_nth intro!: sorted_nth_mono)
  have e: "srt ! 0 \<in> set srt" "srt ! (length srt - 1) \<in> set srt" using l s(1) by (auto intro: nth_mem)
  show ?thesis unfolding Let_def f eq using p m e s(3) by auto
qed

theorem latency_summary_ordered_witness:
  "ls_P50 (computeLatencySnapshot [9, 1, 5]) \<le> ls_P99 (computeLatencySnapshot [9, 1, 5]) \<and>
   computeLatencySnapshot [1, 5, 9] = computeLatencySnapshot [9, 1, 5]"
  using latency_summary_ordered [of "[9, 1, 5]" "[1, 5, 9]"] by (simp add: Let_def)

end
