(* ===== verification/Cache_Server.thy ===== *)
theory Cache_Server
  imports Replication_Manager Metrics_Registry Raft_Node
begin

text \<open>
  The TCP server of a node: \<^verbatim>\<open>src/internal/server/server.go\<close>.

  A server holds the store, the cluster view, the settings and the health table of replication, the
  Raft node and the metrics. As in \<^verbatim>\<open>src/cmd/node/main.go\<close>, the replication manager is built on the
  server's own store and cluster view, and the Raft node applies its entries to that view; so a
  manager or a Raft node is there only when a cluster view is (\<open>server_wf\<close>).

  What the server calls outside of the repository is in the record \<open>server_env\<close>: the network, the JSON
  codec of the Raft messages and of the reports, the quoting of \<open>strconv.Quote\<close>, the clock readings and
  random numbers of the Raft node, the state change that applies a Raft entry, and what happens
  while a proposal waits: the steps of the rest of the process and whether the proposal was applied or
  its context ended. \<open>None\<close> is a panic.
\<close>

section \<open>Model\<close>

subsection \<open>Texts of errors\<close>

definition store_error_text :: "store_error \<Rightarrow> string" where
  "store_error_text e = (case e of
       ErrEntryTooLarge \<Rightarrow> ''entry exceeds maximum memory limit''
     | ErrMemoryLimit \<Rightarrow> ''unable to store entry within memory limit'')"

definition ring_error_text :: "ring_error \<Rightarrow> string" where
  "ring_error_text e = (case e of
       NodeIDRequired \<Rightarrow> ''node id is required''
     | NodeAddrRequired \<Rightarrow> ''node address is required''
     | ErrNodeExists i \<Rightarrow> ''node already exists: '' @ i
     | ErrNodeMissing i \<Rightarrow> ''node not found: '' @ i
     | ErrEmptyRing \<Rightarrow> ''hash ring is empty''
     | NMustBePositive \<Rightarrow> ''n must be positive'')"

definition raft_error_text :: "raft_error \<Rightarrow> string" where
  "raft_error_text e = (case e of
       ErrNotLeader \<Rightarrow> ''not the raft leader''
     | ErrProposalDropped \<Rightarrow> ''proposal dropped'')"

definition repl_error_text :: "(string \<Rightarrow> string) \<Rightarrow> repl_error \<Rightarrow> string" where
  "repl_error_text quote e = (case e of
       NotPrimary key \<Rightarrow> ''local node is not primary for key '' @ quote key
     | ReplStore err \<Rightarrow> store_error_text err
     | ReplRing err \<Rightarrow> ring_error_text err
     | CtxErr err \<Rightarrow> err
     | ErrQuorumNotMet got need \<Rightarrow>
         ''write quorum not met: got '' @ Itoa got @ '' replica acks, need '' @ FormatInt need
     | ErrReadQuorumNotMet \<Rightarrow> ''read quorum not met''
     | ErrNotInReplicaSet \<Rightarrow> ''key not in local replica set'')"

definition decode_error_text :: "(string \<Rightarrow> string) \<Rightarrow> go_error \<Rightarrow> string" where
  "decode_error_text quote e = (case e of
       EOF \<Rightarrow> ''EOF''
     | UnexpectedEOF \<Rightarrow> ''unexpected EOF''
     | Timeout \<Rightarrow> ''i/o timeout''
     | ErrInvalidRequest detail \<Rightarrow> ''invalid request: '' @ detail
     | ErrUnknownCommand c \<Rightarrow> ''unknown command: '' @ c
     | InvalidNodeLine l \<Rightarrow> ''invalid request: invalid node line '' @ quote l
     | UnknownResponseLine l \<Rightarrow> ''invalid request: unknown response line '' @ quote l
     | RuntimePanic \<Rightarrow> [])"

subsection \<open>State and environment\<close>

definition defaultMaxConnections :: int where
  "defaultMaxConnections = 1024"

record server_config =
  sc_Addr :: string
  sc_MaxConnections :: int
  sc_ReadTimeout :: duration
  sc_WriteTimeout :: duration
  sc_ShutdownTimeout :: duration

record Server =
  sv_cfg :: server_config
  sv_store :: Store
  sv_cluster :: "Cluster option"
  sv_repl :: "(repl_config \<times> HealthTracker \<times> Peer) option"
  sv_raft :: "RaftNode option"
  sv_metrics :: "Registry option"

record 'w server_env =
  en_net :: "'w Network"
  en_sched :: "'w \<Rightarrow> schedule"
  en_raft :: "'w \<Rightarrow> env"
  en_apply :: "Cluster apply_fun"
  en_await :: "nat \<Rightarrow> Server \<times> 'w \<Rightarrow> (Server \<times> 'w) \<times> string option"
  en_write :: "bytes \<Rightarrow> 'w \<Rightarrow> 'w \<times> string option"
  en_quote :: "string \<Rightarrow> string"
  un_RequestVote :: "bytes \<Rightarrow> string + RequestVoteRequest"
  ma_RequestVote :: "RequestVoteResponse \<Rightarrow> string + bytes"
  un_AppendEntries :: "bytes \<Rightarrow> string + AppendEntriesRequest"
  ma_AppendEntries :: "AppendEntriesResponse \<Rightarrow> string + bytes"
  ma_Status :: "Status \<Rightarrow> string + bytes"
  ma_Snapshot :: "Snapshot \<Rightarrow> string + bytes"

abbreviation en_clock :: "'w server_env \<Rightarrow> 'w \<Rightarrow> time" where
  "en_clock E \<equiv> clock (en_net E)"

definition New ::
  "server_config \<Rightarrow> Cluster option \<Rightarrow> (repl_config \<times> HealthTracker \<times> Peer) option \<Rightarrow> RaftNode option \<Rightarrow> Registry option \<Rightarrow>
     Store option \<Rightarrow> Server option" where
  "New cfg cv repl rf reg store =
     (let c1 = (if sc_Addr cfg = [] then cfg\<lparr>sc_Addr := '':6379''\<rparr> else cfg);
          c2 = (if sc_MaxConnections c1 \<le> 0 then c1\<lparr>sc_MaxConnections := defaultMaxConnections\<rparr> else c1);
          c3 = (if sc_ReadTimeout c2 \<le> 0 then c2\<lparr>sc_ReadTimeout := 30 * second\<rparr> else c2);
          c4 = (if sc_WriteTimeout c3 \<le> 0 then c3\<lparr>sc_WriteTimeout := 30 * second\<rparr> else c3);
          c5 = (if sc_ShutdownTimeout c4 \<le> 0 then c4\<lparr>sc_ShutdownTimeout := 10 * second\<rparr> else c4)
      in case store of
        None \<Rightarrow> None
      | Some st \<Rightarrow> Some \<lparr>sv_cfg = c5, sv_store = st, sv_cluster = cv, sv_repl = repl, sv_raft = rf, sv_metrics = reg\<rparr>)"

definition server_wf :: "Server \<Rightarrow> bool" where
  "server_wf srv \<longleftrightarrow> (sv_repl srv \<noteq> None \<or> sv_raft srv \<noteq> None \<longrightarrow> sv_cluster srv \<noteq> None)"

text \<open>The manager of \<open>cfg.Replication\<close>, and the server after the manager has worked on the shared parts.\<close>

definition manager_of :: "Server \<Rightarrow> Manager option" where
  "manager_of srv =
     (case sv_cluster srv of
        None \<Rightarrow> None
      | Some cv \<Rightarrow>
          (case sv_repl srv of
             None \<Rightarrow> None
           | Some (cfg, health, peer) \<Rightarrow>
               Some \<lparr>mg_cfg = cfg, mg_cluster = cv, mg_store = sv_store srv, mg_health = health, mg_peer = peer\<rparr>))"

definition with_manager :: "Manager \<Rightarrow> Server \<Rightarrow> Server" where
  "with_manager m srv = srv\<lparr>sv_store := mg_store m, sv_cluster := Some (mg_cluster m),
     sv_repl := Some (mg_cfg m, mg_health m, mg_peer m)\<rparr>"

definition active_manager :: "Server \<Rightarrow> Manager option" where
  "active_manager srv =
     (case manager_of srv of
        None \<Rightarrow> None
      | Some m \<Rightarrow> if manager_Enabled m then Some m else None)"

definition error_response :: "string \<Rightarrow> Response" where
  "error_response msg = (Resp ResponseError)\<lparr>rs_Message := msg\<rparr>"

definition value_response :: "bytes \<Rightarrow> Response" where
  "value_response v = (Resp ResponseValue)\<lparr>rs_Value := v\<rparr>"

definition node_response :: "ResponseKind \<Rightarrow> string \<Rightarrow> string \<Rightarrow> Response" where
  "node_response kind i addr = (Resp kind)\<lparr>rs_NodeID := i, rs_Addr := addr\<rparr>"

subsection \<open>Routing\<close>

definition redirectToPrimary :: "Server \<Rightarrow> string \<Rightarrow> Response" where
  "redirectToPrimary srv key =
     (case sv_cluster srv of
        None \<Rightarrow> error_response ''cluster not enabled''
      | Some cv \<Rightarrow>
          (case Owner cv key of
             None \<Rightarrow> error_response (ring_error_text ErrEmptyRing)
           | Some primary \<Rightarrow> node_response ResponseMoved (nd_ID primary) (nd_Addr primary)))"

text \<open>A routing check gives the response that refuses the request, or \<open>None\<close> when it may proceed.\<close>

definition checkOwnership :: "Server \<Rightarrow> string \<Rightarrow> Response option" where
  "checkOwnership srv key =
     (case sv_cluster srv of
        None \<Rightarrow> None
      | Some cv \<Rightarrow>
          (case Owner cv key of
             None \<Rightarrow> Some (error_response (ring_error_text ErrEmptyRing))
           | Some owner \<Rightarrow>
               if \<not> IsOwner cv key then Some (node_response ResponseMoved (nd_ID owner) (nd_Addr owner))
               else None))"

definition checkWriteRouting :: "Server \<Rightarrow> string \<Rightarrow> Response option" where
  "checkWriteRouting srv key =
     (case active_manager srv of
        Some m \<Rightarrow> if IsPrimary m key then None else Some (redirectToPrimary srv key)
      | None \<Rightarrow> checkOwnership srv key)"

definition checkReadRouting :: "Server \<Rightarrow> string \<Rightarrow> Response option" where
  "checkReadRouting srv key =
     (case active_manager srv of
        Some m \<Rightarrow> if IsInReplicaSet m key then None else Some (redirectToPrimary srv key)
      | None \<Rightarrow> checkOwnership srv key)"

subsection \<open>Cache commands\<close>

type_synonym 'w served = "((Server \<times> 'w) \<times> effect list \<times> Response) option"

definition dispatchSet :: "'w server_env \<Rightarrow> Context \<Rightarrow> Request \<Rightarrow> Server \<times> 'w \<Rightarrow> 'w served" where
  "dispatchSet E ctx req = (\<lambda>(srv, w).
     case active_manager srv of
       Some m \<Rightarrow> do {
         ((m', w'), err) \<leftarrow> WriteSet (en_net E) (en_sched E w) ctx (rq_Key req) (rq_Value req) (rq_TTL req) (m, w);
         Some ((with_manager m' srv, w'), [],
               case err of Some e \<Rightarrow> error_response (repl_error_text (en_quote E) e) | None \<Rightarrow> Resp ResponseOK) }
     | None \<Rightarrow>
         let (st, err) = store_Set (en_clock E w) (rq_Key req) (case rq_Value req of None \<Rightarrow> [] | Some v \<Rightarrow> v) (rq_TTL req) (sv_store srv)
         in Some ((srv\<lparr>sv_store := st\<rparr>, w), [],
                  case err of Some e \<Rightarrow> error_response (store_error_text e) | None \<Rightarrow> Resp ResponseOK))"

definition dispatchDelete :: "'w server_env \<Rightarrow> Context \<Rightarrow> string \<Rightarrow> Server \<times> 'w \<Rightarrow> 'w served" where
  "dispatchDelete E ctx key = (\<lambda>(srv, w).
     case active_manager srv of
       Some m \<Rightarrow> do {
         ((m', w'), r) \<leftarrow> WriteDelete (en_net E) ctx key (m, w);
         Some ((with_manager m' srv, w'), [],
               case r of
                 Inl e \<Rightarrow> error_response (repl_error_text (en_quote E) e)
               | Inr deleted \<Rightarrow> if \<not> deleted then Resp ResponseNotFound else Resp ResponseOK) }
     | None \<Rightarrow>
         let (st, deleted) = store_Delete (en_clock E w) key (sv_store srv)
         in Some ((srv\<lparr>sv_store := st\<rparr>, w), [], if deleted then Resp ResponseOK else Resp ResponseNotFound))"

definition dispatchGet :: "'w server_env \<Rightarrow> Context \<Rightarrow> string \<Rightarrow> Server \<times> 'w \<Rightarrow> 'w served" where
  "dispatchGet E ctx key = (\<lambda>(srv, w).
     case active_manager srv of
       Some m \<Rightarrow> do {
         ((m', w'), r) \<leftarrow> manager_Read (en_net E) (en_sched E w) ctx key (m, w);
         Some ((with_manager m' srv, w'), [],
               case r of
                 Inl e \<Rightarrow>
                   if e = ErrNotInReplicaSet then redirectToPrimary (with_manager m' srv) key
                   else error_response (repl_error_text (en_quote E) e)
               | Inr None \<Rightarrow> Resp ResponseNotFound
               | Inr (Some v) \<Rightarrow> value_response v) }
     | None \<Rightarrow>
         let (st, v) = store_Get (en_clock E w) key (sv_store srv)
         in Some ((srv\<lparr>sv_store := st\<rparr>, w), [],
                  case v of None \<Rightarrow> Resp ResponseNotFound | Some v \<Rightarrow> value_response v))"

subsection \<open>Replication commands\<close>

definition dispatchReplicaSet :: "'w server_env \<Rightarrow> Request \<Rightarrow> Server \<times> 'w \<Rightarrow> (Server \<times> 'w) \<times> Response" where
  "dispatchReplicaSet E req = (\<lambda>(srv, w).
     case manager_of srv of
       None \<Rightarrow> ((srv, w), error_response ''replication not enabled'')
     | Some m \<Rightarrow>
         let (m', err) = ApplyReplicaSet (en_clock E w) (rq_Key req) (rq_Value req) (rq_TTL req) m
         in ((with_manager m' srv, w),
             case err of Some e \<Rightarrow> error_response (repl_error_text (en_quote E) e) | None \<Rightarrow> Resp ResponseOK))"

definition dispatchReplicaGet :: "'w server_env \<Rightarrow> string \<Rightarrow> Server \<times> 'w \<Rightarrow> (Server \<times> 'w) \<times> Response" where
  "dispatchReplicaGet E key = (\<lambda>(srv, w).
     if (case manager_of srv of None \<Rightarrow> True | Some m \<Rightarrow> \<not> IsInReplicaSet m key)
     then ((srv, w), error_response (repl_error_text (en_quote E) ErrNotInReplicaSet))
     else
       let (st, v) = store_Get (en_clock E w) key (sv_store srv)
       in ((srv\<lparr>sv_store := st\<rparr>, w), case v of None \<Rightarrow> Resp ResponseNotFound | Some v \<Rightarrow> value_response v))"

definition dispatchReplicaDelete :: "'w server_env \<Rightarrow> string \<Rightarrow> Server \<times> 'w \<Rightarrow> (Server \<times> 'w) \<times> Response" where
  "dispatchReplicaDelete E key = (\<lambda>(srv, w).
     case manager_of srv of
       None \<Rightarrow> ((srv, w), error_response ''replication not enabled'')
     | Some m \<Rightarrow>
         let (m', r) = ApplyReplicaDelete (en_clock E w) key m
         in ((with_manager m' srv, w),
             case r of
               Inl e \<Rightarrow> error_response (repl_error_text (en_quote E) e)
             | Inr deleted \<Rightarrow> if \<not> deleted then Resp ResponseNotFound else Resp ResponseOK))"

subsection \<open>Cluster commands\<close>

definition dispatchOwner :: "Server \<Rightarrow> string \<Rightarrow> Response" where
  "dispatchOwner srv key =
     (case sv_cluster srv of
        None \<Rightarrow> error_response ''cluster not enabled''
      | Some cv \<Rightarrow>
          (case Owner cv key of
             None \<Rightarrow> error_response (ring_error_text ErrEmptyRing)
           | Some owner \<Rightarrow> node_response ResponseOwner (nd_ID owner) (nd_Addr owner)))"

definition dispatchClusterMembers :: "Server \<Rightarrow> Response" where
  "dispatchClusterMembers srv =
     (case sv_cluster srv of
        None \<Rightarrow> error_response ''cluster not enabled''
      | Some cv \<Rightarrow>
          (Resp ResponseMembers)\<lparr>rs_Members := map (\<lambda>n. \<lparr>m_ID = nd_ID n, m_Addr = nd_Addr n\<rparr>) (cluster_Members cv)\<rparr>)"

definition raftNotLeaderResponse :: "RaftNode \<Rightarrow> Response" where
  "raftNotLeaderResponse rf =
     (if LeaderID rf = [] then error_response (raft_error_text ErrNotLeader)
      else node_response ResponseNotLeader (LeaderID rf) (LeaderAddr rf))"

text \<open>\<open>Raft.Propose\<close> as the server calls it: append, and wait unless the entry was applied at once.\<close>

definition proposeAndWait ::
  "'w server_env \<Rightarrow> Command \<Rightarrow> Cluster \<Rightarrow> RaftNode \<Rightarrow> Server \<times> 'w \<Rightarrow> ((Server \<times> 'w) \<times> effect list \<times> string option) option" where
  "proposeAndWait E cmd cv rf = (\<lambda>(srv, w).
     let waiter = length (r_log rf)
     in do {
       r \<leftarrow> Propose (en_apply E) waiter cmd cv rf;
       case r of
         Inl e \<Rightarrow> Some ((srv, w), [], Some (raft_error_text e))
       | Inr (index, cv', rf', ms) \<Rightarrow>
           let s1 = (srv\<lparr>sv_cluster := Some cv', sv_raft := Some rf'\<rparr>, w)
           in if waiter \<in> set (notified ms) then Some (s1, ms, None)
              else case en_await E waiter s1 of
                (s2, None) \<Rightarrow> Some (s2, ms, None)
              | ((srv2, w2), Some e) \<Rightarrow>
                  Some ((srv2\<lparr>sv_raft := map_option (proposeCanceled index) (sv_raft srv2)\<rparr>, w2), ms, Some e) })"

definition dispatchClusterJoin :: "'w server_env \<Rightarrow> string \<Rightarrow> string \<Rightarrow> Server \<times> 'w \<Rightarrow> 'w served" where
  "dispatchClusterJoin E nodeID addr = (\<lambda>(srv, w).
     case sv_cluster srv of
       None \<Rightarrow> Some ((srv, w), [], error_response ''cluster not enabled'')
     | Some cv \<Rightarrow>
         (case sv_raft srv of
            Some rf \<Rightarrow>
              if \<not> IsLeader rf then Some ((srv, w), [], raftNotLeaderResponse rf)
              else do {
                (s', ms, err) \<leftarrow> proposeAndWait E ((empty_Command CommandAddMember)\<lparr>c_NodeID := nodeID, c_Addr := addr\<rparr>) cv rf (srv, w);
                Some (s', ms, case err of Some e \<Rightarrow> error_response e | None \<Rightarrow> Resp ResponseOK) }
          | None \<Rightarrow>
              (case Join \<lparr>nd_ID = nodeID, nd_Addr = addr\<rparr> cv of
                 Inl e \<Rightarrow> Some ((srv, w), [], error_response (ring_error_text e))
               | Inr cv' \<Rightarrow> Some ((srv\<lparr>sv_cluster := Some cv'\<rparr>, w), [], Resp ResponseOK))))"

definition dispatchClusterLeave :: "'w server_env \<Rightarrow> string \<Rightarrow> Server \<times> 'w \<Rightarrow> 'w served" where
  "dispatchClusterLeave E nodeID = (\<lambda>(srv, w).
     case sv_cluster srv of
       None \<Rightarrow> Some ((srv, w), [], error_response ''cluster not enabled'')
     | Some cv \<Rightarrow>
         (case sv_raft srv of
            Some rf \<Rightarrow>
              if \<not> IsLeader rf then Some ((srv, w), [], raftNotLeaderResponse rf)
              else do {
                (s', ms, err) \<leftarrow> proposeAndWait E ((empty_Command CommandRemoveMember)\<lparr>c_NodeID := nodeID\<rparr>) cv rf (srv, w);
                Some (s', ms, case err of Some e \<Rightarrow> error_response e | None \<Rightarrow> Resp ResponseOK) }
          | None \<Rightarrow>
              (case Leave nodeID cv of
                 Inl e \<Rightarrow> Some ((srv, w), [], error_response (ring_error_text e))
               | Inr cv' \<Rightarrow> Some ((srv\<lparr>sv_cluster := Some cv'\<rparr>, w), [], Resp ResponseOK))))"

subsection \<open>Raft commands and metrics\<close>

definition marshalled :: "string + bytes \<Rightarrow> Response" where
  "marshalled r = (case r of Inl e \<Rightarrow> error_response e | Inr out \<Rightarrow> value_response out)"

definition payload_of :: "bytes option \<Rightarrow> bytes" where
  "payload_of v = (case v of None \<Rightarrow> [] | Some b \<Rightarrow> b)"

definition dispatchRaftRequestVote :: "'w server_env \<Rightarrow> bytes option \<Rightarrow> Server \<times> 'w \<Rightarrow> 'w served" where
  "dispatchRaftRequestVote E payload = (\<lambda>(srv, w).
     case sv_raft srv of
       None \<Rightarrow> Some ((srv, w), [], error_response ''raft not enabled'')
     | Some rf \<Rightarrow>
         (case un_RequestVote E (payload_of payload) of
            Inl e \<Rightarrow> Some ((srv, w), [], error_response e)
          | Inr req \<Rightarrow> do {
              (rf', resp) \<leftarrow> HandleRequestVote (en_raft E w) req rf;
              Some ((srv\<lparr>sv_raft := Some rf'\<rparr>, w), [], marshalled (ma_RequestVote E resp)) }))"

definition dispatchRaftAppendEntries :: "'w server_env \<Rightarrow> bytes option \<Rightarrow> Server \<times> 'w \<Rightarrow> 'w served" where
  "dispatchRaftAppendEntries E payload = (\<lambda>(srv, w).
     case sv_raft srv of
       None \<Rightarrow> Some ((srv, w), [], error_response ''raft not enabled'')
     | Some rf \<Rightarrow>
         (case un_AppendEntries E (payload_of payload) of
            Inl e \<Rightarrow> Some ((srv, w), [], error_response e)
          | Inr req \<Rightarrow> do {
              cv \<leftarrow> sv_cluster srv;
              (cv', rf', ms, resp) \<leftarrow> HandleAppendEntries (en_apply E) (en_raft E w) req cv rf;
              Some ((srv\<lparr>sv_cluster := Some cv', sv_raft := Some rf'\<rparr>, w), ms, marshalled (ma_AppendEntries E resp)) }))"

definition dispatchRaftStatus :: "'w server_env \<Rightarrow> Server \<Rightarrow> Response" where
  "dispatchRaftStatus E srv =
     (case sv_raft srv of
        None \<Rightarrow> error_response ''raft not enabled''
      | Some rf \<Rightarrow> marshalled (ma_Status E (raft_Status rf)))"

definition dispatchMetrics :: "'w server_env \<Rightarrow> Server \<times> 'w \<Rightarrow> Response" where
  "dispatchMetrics E = (\<lambda>(srv, w).
     case sv_metrics srv of
       None \<Rightarrow> error_response ''metrics not enabled''
     | Some reg \<Rightarrow> marshalled (ma_Snapshot E (registry_Snapshot (en_clock E w) reg)))"

subsection \<open>Dispatch\<close>

definition served :: "(Server \<times> 'w) \<times> Response \<Rightarrow> 'w served" where
  "served r = Some (fst r, [], snd r)"

definition dispatch :: "'w server_env \<Rightarrow> Context \<Rightarrow> Request \<Rightarrow> Server \<times> 'w \<Rightarrow> 'w served" where
  "dispatch E ctx req s =
     (let cmd = rq_Command req; key = rq_Key req
      in if cmd = CommandPing then served (s, Resp ResponseOK)
         else if cmd = CommandMetrics then served (s, dispatchMetrics E s)
         else if cmd = CommandRaftRequestVote then dispatchRaftRequestVote E (rq_Value req) s
         else if cmd = CommandRaftAppendEntries then dispatchRaftAppendEntries E (rq_Value req) s
         else if cmd = CommandRaftStatus then served (s, dispatchRaftStatus E (fst s))
         else if cmd = CommandReplSet then served (dispatchReplicaSet E req s)
         else if cmd = CommandReplDelete then served (dispatchReplicaDelete E key s)
         else if cmd = CommandReplGet then served (dispatchReplicaGet E key s)
         else if cmd = CommandOwner then served (s, dispatchOwner (fst s) key)
         else if cmd = CommandClusterMembers then served (s, dispatchClusterMembers (fst s))
         else if cmd = CommandClusterJoin then dispatchClusterJoin E key (payload_of (rq_Value req)) s
         else if cmd = CommandClusterLeave then dispatchClusterLeave E key s
         else if cmd = CommandSet
         then (case checkWriteRouting (fst s) key of Some resp \<Rightarrow> served (s, resp) | None \<Rightarrow> dispatchSet E ctx req s)
         else if cmd = CommandDelete
         then (case checkWriteRouting (fst s) key of Some resp \<Rightarrow> served (s, resp) | None \<Rightarrow> dispatchDelete E ctx key s)
         else if cmd = CommandGet
         then (case checkReadRouting (fst s) key of Some resp \<Rightarrow> served (s, resp) | None \<Rightarrow> dispatchGet E ctx key s)
         else served (s, error_response ''unknown command''))"

subsection \<open>Connections\<close>

definition writeResponse :: "'w server_env \<Rightarrow> Response \<Rightarrow> 'w \<Rightarrow> 'w \<times> (string + bytes)" where
  "writeResponse E resp w =
     (case EncodeResponse resp of
        Inl err \<Rightarrow> (w, Inl (decode_error_text (en_quote E) err))
      | Inr payload \<Rightarrow>
          (case en_write E payload w of
             (w', Some err) \<Rightarrow> (w', Inl err)
           | (w', None) \<Rightarrow> (w', Inr payload)))"

text \<open>The context of one request: at most the read timeout, and no longer than the context of the server.\<close>

definition requestCtx :: "'w server_env \<Rightarrow> Context \<Rightarrow> Server \<times> 'w \<Rightarrow> Context" where
  "requestCtx E ctx = (\<lambda>(srv, w).
     if sc_ReadTimeout (sv_cfg srv) \<le> 0 then ctx
     else let d = en_clock E w + sc_ReadTimeout (sv_cfg srv)
          in \<lparr>ctx_Deadline = Some (case ctx_Deadline ctx of None \<Rightarrow> d | Some d' \<Rightarrow> min d d')\<rparr>)"

text \<open>One decoded request: dispatch, observe, answer. The result is what was written, if it was.\<close>

definition serveRequest ::
  "'w server_env \<Rightarrow> Context \<Rightarrow> Request \<Rightarrow> Server \<times> 'w \<Rightarrow> ((Server \<times> 'w) \<times> effect list \<times> bytes option) option" where
  "serveRequest E ctx req s = do {
     ((srv1, w1), ms, resp) \<leftarrow> dispatch E (requestCtx E ctx s) req s;
     reg \<leftarrow> (case sv_metrics srv1 of
        None \<Rightarrow> Some None
      | Some reg \<Rightarrow> map_option Some
          (Observe (rq_Command req) (en_clock E w1 - en_clock E (snd s)) (rs_Kind resp = ResponseError) reg));
     case writeResponse E resp w1 of
       (w2, Inl _) \<Rightarrow> Some ((srv1\<lparr>sv_metrics := reg\<rparr>, w2), ms, None)
     | (w2, Inr payload) \<Rightarrow> Some ((srv1\<lparr>sv_metrics := reg\<rparr>, w2), ms, Some payload) }"

text \<open>The last answer on a connection whose input does not decode.\<close>

definition refuseInput :: "'w server_env \<Rightarrow> go_error \<Rightarrow> Server \<times> 'w \<Rightarrow> ((Server \<times> 'w) \<times> effect list \<times> bytes list) option" where
  "refuseInput E err = (\<lambda>(srv, w).
     if err = RuntimePanic then None
     else if err = EOF \<or> err = Timeout then Some ((srv, w), [], [])
     else case writeResponse E (error_response (decode_error_text (en_quote E) err)) w of
       (w', Inl _) \<Rightarrow> Some ((srv, w'), [], [])
     | (w', Inr payload) \<Rightarrow> Some ((srv, w'), [], [payload]))"

lemma DecodeRequest_shrinks:
  "DecodeRequest rd = Inr (req, rd') \<Longrightarrow> length (rd_buf rd') < length (rd_buf rd)"
  using DecodeRequest_accepts by blast

function handleConn ::
  "'w server_env \<Rightarrow> Context \<Rightarrow> reader \<Rightarrow> Server \<times> 'w \<Rightarrow> ((Server \<times> 'w) \<times> effect list \<times> bytes list) option" where
  "handleConn E ctx rd s =
     (case DecodeRequest rd of
        Inl err \<Rightarrow> refuseInput E err s
      | Inr (req, rd') \<Rightarrow>
          (case serveRequest E ctx req s of
             None \<Rightarrow> None
           | Some (s1, ms, None) \<Rightarrow> Some (s1, ms, [])
           | Some (s1, ms, Some payload) \<Rightarrow>
               (case handleConn E ctx rd' s1 of
                  None \<Rightarrow> None
                | Some (s2, ms', out) \<Rightarrow> Some (s2, ms @ ms', payload # out))))"
  by pat_completeness auto
termination
  by (relation "measure (\<lambda>(E, ctx, rd, s). length (rd_buf rd))") (auto dest: DecodeRequest_shrinks)

declare handleConn.simps [simp del]

subsection \<open>The accept loop\<close>

text \<open>
  The loop of \<open>ListenAndServe\<close> as a machine on what it receives: a connection (and
  which case \<open>select\<close> picks when a slot is free and the context has ended), a failed accept (and
  whether the listener was closed), the end of a connection handler, the end of the context. The state
  is the number of slots of the semaphore that are taken and whether the loop has returned.
\<close>

datatype listen_event = Accepted bool | AcceptFailed bool | HandlerDone | ServeCtxDone

record listen_state =
  li_active :: nat
  li_ctxDone :: bool
  li_stopped :: bool

definition listen_step :: "int \<Rightarrow> listen_event \<Rightarrow> listen_state \<Rightarrow> listen_state" where
  "listen_step maxc ev st =
     (case ev of
        ServeCtxDone \<Rightarrow> st\<lparr>li_ctxDone := True\<rparr>
      | HandlerDone \<Rightarrow> st\<lparr>li_active := li_active st - 1\<rparr>
      | AcceptFailed shut \<Rightarrow> if li_stopped st then st else st\<lparr>li_stopped := li_ctxDone st \<or> shut\<rparr>
      | Accepted pickDone \<Rightarrow>
          if li_stopped st then st
          else if int (li_active st) < maxc \<and> \<not> (li_ctxDone st \<and> pickDone) then st\<lparr>li_active := li_active st + 1\<rparr>
          else if li_ctxDone st then st\<lparr>li_stopped := True\<rparr>
          else st)"

definition ListenAndServe :: "int \<Rightarrow> listen_event list \<Rightarrow> listen_state" where
  "ListenAndServe maxc evs = fold (listen_step maxc) evs \<lparr>li_active = 0, li_ctxDone = False, li_stopped = False\<rparr>"

definition server_Addr :: "string option \<Rightarrow> Server \<Rightarrow> string" where
  "server_Addr listener srv = (case listener of None \<Rightarrow> sc_Addr (sv_cfg srv) | Some bound \<Rightarrow> bound)"

section \<open>Invariant of the server\<close>

text \<open>What the entries applied by Raft keep of the view, the log callbacks keep of it.\<close>

lemma applyLoop_keeps:
  assumes "\<And>ent s. P s \<Longrightarrow> P (fst (ap ent s))"
  shows "applyLoop k ap s n = Some (s', n', ms) \<Longrightarrow> P s \<Longrightarrow> P s'"
proof (induction k arbitrary: s n ms)
  case (Suc k)
  show ?case
  proof (cases "r_lastApplied n < r_commitIndex n")
    case True
    then obtain s1 n1 ms1 ms2 where 1: "applyNext ap s n = Some (s1, n1, ms1)" and 2: "applyLoop k ap s1 n1 = Some (s', n', ms2)"
      using Suc.prems(1) by (auto split: bind_splits)
    from 1 have "\<exists>ent. s1 = fst (ap ent s)"
      by (auto simp: applyNext_def Let_def split: bind_splits prod.splits option.splits) (metis fst_conv)+
    then show ?thesis using Suc.IH [OF 2] assms [OF Suc.prems(2)] by auto
  qed (use Suc.prems in auto)
qed simp

lemma Propose_keeps:
  assumes "\<And>ent s. P s \<Longrightarrow> P (fst (ap ent s))" and "Propose ap wt cmd s n = Some (Inr (i, s', n', ms))" and "P s"
  shows "P s'"
  using assms(2,3) applyLoop_keeps [of P ap, OF assms(1)]
  by (auto simp: Propose_def applyCommitted_def Let_def split: if_splits bind_splits)

lemma HandleAppendEntries_keeps:
  assumes "\<And>ent s. P s \<Longrightarrow> P (fst (ap ent s))" and "HandleAppendEntries ap e req s n = Some (s', n', ms, resp)" and "P s"
  shows "P s'"
  using assms(2,3) applyLoop_keeps [of P ap, OF assms(1)]
  by (auto simp: HandleAppendEntries_def applyCommitted_def Let_def split: if_splits bind_splits)

text \<open>Every tracker of latencies has room for a sample.\<close>

definition metrics_inv :: "Registry \<Rightarrow> bool" where
  "metrics_inv r \<longleftrightarrow> 0 < rg_maxSamples r \<and> (\<forall>m\<in>ran (map_of (rg_commands r)). 0 < lt_capacity (cm_latency m))"

lemma observe_ok: "0 < lt_capacity t \<Longrightarrow> \<exists>t'. observe d t = Some t' \<and> lt_capacity t' = lt_capacity t"
  by (auto simp: observe_def)

lemma Observe_inv:
  assumes "metrics_inv r"
  shows "\<exists>r'. Observe c d e r = Some r' \<and> metrics_inv r'"
proof -
  have up: "metrics_inv (r'\<lparr>rg_commands := AList.update c m (rg_commands r')\<rparr>)"
    if "metrics_inv r'" "0 < lt_capacity (cm_latency m)" for r' m
    using that by (auto simp: metrics_inv_def update_conv' ran_def split: if_splits)
  define m where "m = (case map_of (rg_commands r) c of Some m \<Rightarrow> m
    | None \<Rightarrow> \<lparr>cm_requests = 0, cm_errors = 0, cm_latency = \<lparr>lt_samples = [], lt_capacity = rg_maxSamples r\<rparr>\<rparr>)"
  have m: "0 < lt_capacity (cm_latency m)"
    using assms by (auto simp: m_def metrics_inv_def split: option.splits intro: ranI)
  define m' where "m' = m\<lparr>cm_requests := wrap64 (cm_requests m + 1),
    cm_errors := (if e then wrap64 (cm_errors m + 1) else cm_errors m)\<rparr>"
  have m': "0 < lt_capacity (cm_latency m')" using m by (simp add: m'_def)
  define r1 where "r1 = countRequest c e r"
  have r1: "r1 = (r\<lparr>rg_commands := AList.update c m' (rg_commands r)\<rparr>)\<lparr>rg_total := wrap64 (rg_total r + 1),
      rg_errors := (if e then wrap64 (rg_errors r + 1) else rg_errors r)\<rparr>"
    by (simp add: r1_def countRequest_def m'_def m_def Let_def)
  have i1: "metrics_inv r1" using up [OF assms m'] unfolding r1 by (simp add: metrics_inv_def)
  have c1: "map_of (rg_commands r1) c = Some m'" unfolding r1 by (simp add: update_conv')
  obtain t where t: "observe d (cm_latency m') = Some t" "lt_capacity t = lt_capacity (cm_latency m')"
    using observe_ok [OF m'] by blast
  have "metrics_inv (r1\<lparr>rg_commands := AList.update c (m'\<lparr>cm_latency := t\<rparr>) (rg_commands r1)\<rparr>)"
    by (rule up [OF i1]) (use t m' in simp)
  then show ?thesis using c1 t by (simp add: Observe_def r1_def [symmetric])
qed

definition server_inv :: "Server \<Rightarrow> bool" where
  "server_inv srv \<longleftrightarrow> server_wf srv \<and> store_inv (sv_store srv) \<and> (\<forall>cv. sv_cluster srv = Some cv \<longrightarrow> cluster_inv cv) \<and>
     (\<forall>rf. sv_raft srv = Some rf \<longrightarrow> raft_inv rf) \<and> (\<forall>reg. sv_metrics srv = Some reg \<longrightarrow> metrics_inv reg)"

text \<open>
  What the server relies on: no reply on the network makes the decoder panic, an applied entry keeps a
  well-formed view, and so do the other steps of the process while a proposal waits.
\<close>

definition env_safe :: "'w server_env \<Rightarrow> bool" where
  "env_safe E \<longleftrightarrow> net_safe (en_net E) \<and> (\<forall>ent cv. cluster_inv cv \<longrightarrow> cluster_inv (fst (en_apply E ent cv))) \<and>
     (\<forall>k srv w srv' w' e. server_inv srv \<longrightarrow> en_await E k (srv, w) = ((srv', w'), e) \<longrightarrow> server_inv srv')"

lemma server_inv_store: "server_inv srv \<Longrightarrow> store_inv st \<Longrightarrow> server_inv (srv\<lparr>sv_store := st\<rparr>)"
  by (simp add: server_inv_def server_wf_def)

lemma server_inv_cluster:
  "server_inv srv \<Longrightarrow> cluster_inv cv \<Longrightarrow> server_inv (srv\<lparr>sv_cluster := Some cv\<rparr>)"
  by (simp add: server_inv_def server_wf_def)

lemma server_inv_raft:
  "server_inv srv \<Longrightarrow> sv_raft srv \<noteq> None \<Longrightarrow> raft_inv rf \<Longrightarrow> server_inv (srv\<lparr>sv_raft := Some rf\<rparr>)"
  by (simp add: server_inv_def server_wf_def)

lemma server_inv_raft_cluster:
  "server_inv srv \<Longrightarrow> raft_inv rf \<Longrightarrow> cluster_inv cv \<Longrightarrow> server_inv (srv\<lparr>sv_cluster := Some cv, sv_raft := Some rf\<rparr>)"
  by (simp add: server_inv_def server_wf_def)

lemma server_inv_metrics: "server_inv srv \<Longrightarrow> (\<And>r. reg = Some r \<Longrightarrow> metrics_inv r) \<Longrightarrow> server_inv (srv\<lparr>sv_metrics := reg\<rparr>)"
  by (simp add: server_inv_def server_wf_def)

lemma manager_of_Some:
  "manager_of srv = Some m \<Longrightarrow> sv_store srv = mg_store m \<and> sv_cluster srv = Some (mg_cluster m)"
  by (auto simp: manager_of_def split: option.splits)

lemma active_manager_Some: "active_manager srv = Some m \<Longrightarrow> manager_of srv = Some m \<and> manager_Enabled m"
  by (auto simp: active_manager_def split: option.splits if_splits)

lemma server_inv_manager:
  assumes "server_inv srv" and "manager_of srv = Some m" and "kept m m'"
  shows "server_inv (with_manager m' srv)"
  using assms manager_of_Some [OF assms(2)] by (simp add: server_inv_def server_wf_def with_manager_def kept_def)

text \<open>A step of the server returns, in a well-formed server.\<close>

definition good :: "((Server \<times> 'w) \<times> 'b) option \<Rightarrow> bool" where
  "good r \<longleftrightarrow> (\<exists>srv w x. r = Some ((srv, w), x) \<and> server_inv srv)"

lemma goodI: "server_inv srv \<Longrightarrow> good (Some ((srv, w), x))"
  by (auto simp: good_def)

lemma good_served: "server_inv (fst (fst r)) \<Longrightarrow> good (served r)"
  by (metis good_def prod.collapse served_def)

lemma server_inv_storeD: "server_inv srv \<Longrightarrow> store_inv (sv_store srv)"
  by (simp add: server_inv_def)

lemma manager_store_inv: "server_inv srv \<Longrightarrow> manager_of srv = Some m \<Longrightarrow> store_inv (mg_store m)"
  using manager_of_Some server_inv_storeD by metis

lemma dispatchSet_good:
  assumes "env_safe E" and "server_inv srv"
  shows "good (dispatchSet E ctx req (srv, w))"
proof (cases "active_manager srv")
  case None
  obtain st e where st: "store_Set (en_clock E w) (rq_Key req) (case rq_Value req of None \<Rightarrow> [] | Some v \<Rightarrow> v) (rq_TTL req) (sv_store srv) = (st, e)"
    by fastforce
  have "store_inv st" using store_Set_inv [OF server_inv_storeD [OF assms(2)]] st by (metis fst_conv)
  then show ?thesis using None st server_inv_store [OF assms(2)] by (simp add: dispatchSet_def goodI)
next
  case (Some m)
  note m = active_manager_Some [OF Some, THEN conjunct1]
  obtain m' w' r where "WriteSet (en_net E) (en_sched E w) ctx (rq_Key req) (rq_Value req) (rq_TTL req) (m, w) = Some ((m', w'), r)" "kept m m'"
    using WriteSet_returns assms(1) manager_store_inv [OF assms(2) m] unfolding env_safe_def by metis
  then show ?thesis using Some server_inv_manager [OF assms(2) m] by (simp add: dispatchSet_def goodI)
qed

lemma dispatchDelete_good:
  assumes "env_safe E" and "server_inv srv"
  shows "good (dispatchDelete E ctx key (srv, w))"
proof (cases "active_manager srv")
  case None
  obtain st b where st: "store_Delete (en_clock E w) key (sv_store srv) = (st, b)" by fastforce
  have "store_inv st" using store_Delete_inv [OF server_inv_storeD [OF assms(2)]] st by (metis fst_conv)
  then show ?thesis using None st server_inv_store [OF assms(2)] by (simp add: dispatchDelete_def goodI)
next
  case (Some m)
  note m = active_manager_Some [OF Some, THEN conjunct1]
  obtain m' w' r where "WriteDelete (en_net E) ctx key (m, w) = Some ((m', w'), r)" "kept m m'"
    using WriteDelete_returns assms(1) manager_store_inv [OF assms(2) m] unfolding env_safe_def by metis
  then show ?thesis using Some server_inv_manager [OF assms(2) m] by (simp add: dispatchDelete_def goodI)
qed

lemma dispatchGet_good:
  assumes "env_safe E" and "server_inv srv"
  shows "good (dispatchGet E ctx key (srv, w))"
proof (cases "active_manager srv")
  case None
  obtain st b where st: "store_Get (en_clock E w) key (sv_store srv) = (st, b)" by fastforce
  have "store_inv st" using store_Get_inv [OF server_inv_storeD [OF assms(2)]] st by (metis fst_conv)
  then show ?thesis using None st server_inv_store [OF assms(2)] by (simp add: dispatchGet_def goodI)
next
  case (Some m)
  note m = active_manager_Some [OF Some, THEN conjunct1]
  obtain m' w' r where "manager_Read (en_net E) (en_sched E w) ctx key (m, w) = Some ((m', w'), r)" "kept m m'"
    using manager_Read_returns assms(1) manager_store_inv [OF assms(2) m] unfolding env_safe_def by metis
  then show ?thesis using Some server_inv_manager [OF assms(2) m] by (simp add: dispatchGet_def goodI)
qed

lemma Apply_kept:
  assumes "store_inv (mg_store m)"
  shows "kept m (fst (ApplyReplicaSet t key v ttl m))" and "kept m (fst (ApplyReplicaDelete t key m))"
proof -
  have "store_inv (fst (store_Set t key x ttl (mg_store m)))" for x by (rule store_Set_inv [OF assms])
  then show "kept m (fst (ApplyReplicaSet t key v ttl m))"
    using assms by (simp add: ApplyReplicaSet_def mg_Set_def kept_def split_def Let_def)
  show "kept m (fst (ApplyReplicaDelete t key m))"
    using assms store_Delete_inv [OF assms] by (simp add: ApplyReplicaDelete_def mg_Delete_def kept_def split_def Let_def)
qed

lemma dispatchReplica_inv:
  assumes "server_inv srv"
  shows "server_inv (fst (fst (dispatchReplicaSet E req (srv, w))))" and "server_inv (fst (fst (dispatchReplicaDelete E key (srv, w))))"
    and "server_inv (fst (fst (dispatchReplicaGet E key (srv, w))))"
proof -
  show "server_inv (fst (fst (dispatchReplicaSet E req (srv, w))))"
    using assms server_inv_manager [OF assms _ Apply_kept(1)] manager_store_inv [OF assms]
    by (simp add: dispatchReplicaSet_def split_def Let_def split: option.split)
  show "server_inv (fst (fst (dispatchReplicaDelete E key (srv, w))))"
    using assms server_inv_manager [OF assms _ Apply_kept(2)] manager_store_inv [OF assms]
    by (simp add: dispatchReplicaDelete_def split_def Let_def split: option.split)
  show "server_inv (fst (fst (dispatchReplicaGet E key (srv, w))))"
    using assms server_inv_store [OF assms store_Get_inv [OF server_inv_storeD [OF assms]]]
    by (simp add: dispatchReplicaGet_def split_def Let_def)
qed

lemma raft_inv_canceled: "raft_inv rf \<Longrightarrow> raft_inv (proposeCanceled i rf)"
  by (simp add: proposeCanceled_def)

lemma proposeAndWait_good:
  assumes "env_safe E" and "server_inv srv" and "sv_cluster srv = Some cv" and "sv_raft srv = Some rf" and "IsLeader rf"
  shows "good (proposeAndWait E cmd cv rf (srv, w))"
proof -
  have rf: "raft_inv rf" "r_role rf = RoleLeader" and cv: "cluster_inv cv"
    using assms by (simp_all add: server_inv_def IsLeader_def)
  let ?wt = "length (r_log rf)"
  obtain cv' rf' ms where p: "Propose (en_apply E) ?wt cmd cv rf = Some (Inr (?wt, cv', rf', ms))" "raft_inv rf'"
    using Propose_outcome [OF rf, of "en_apply E" ?wt cmd cv] by metis
  have "cluster_inv cv'"
    using Propose_keeps [of cluster_inv, OF _ p(1) cv] assms(1) by (simp add: env_safe_def)
  then have i: "server_inv (srv\<lparr>sv_cluster := Some cv', sv_raft := Some rf'\<rparr>)"
    using server_inv_raft_cluster [OF assms(2) p(2)] by blast
  obtain srv2 w2 e where a: "en_await E ?wt (srv\<lparr>sv_cluster := Some cv', sv_raft := Some rf'\<rparr>, w) = ((srv2, w2), e)"
    by (metis prod.collapse)
  have i2: "server_inv srv2" using assms(1) i a unfolding env_safe_def by blast
  then have "server_inv (srv2\<lparr>sv_raft := map_option (proposeCanceled ?wt) (sv_raft srv2)\<rparr>)"
    by (auto simp: server_inv_def server_wf_def raft_inv_canceled)
  then show ?thesis using p a i i2 by (cases e) (simp_all add: proposeAndWait_def goodI Let_def)
qed

lemma good_bind: "good r \<Longrightarrow> (\<And>srv w x. server_inv srv \<Longrightarrow> good (f ((srv, w), x))) \<Longrightarrow> good (r \<bind> f)"
  by (auto simp: good_def)

lemma dispatchCluster_good:
  assumes "env_safe E" and "server_inv srv"
  shows "good (dispatchClusterJoin E nodeID addr (srv, w))" and "good (dispatchClusterLeave E nodeID (srv, w))"
proof -
  have cv: "cluster_inv cv" if "sv_cluster srv = Some cv" for cv using that assms(2) by (simp add: server_inv_def)
  show "good (dispatchClusterJoin E nodeID addr (srv, w))"
    using assms cv proposeAndWait_good [OF assms] cluster_inv_Join [OF cv]
    by (auto simp: dispatchClusterJoin_def split: option.split sum.split intro!: goodI good_bind server_inv_cluster)
  show "good (dispatchClusterLeave E nodeID (srv, w))"
    using assms cv proposeAndWait_good [OF assms] cluster_inv_Leave [OF cv]
    by (auto simp: dispatchClusterLeave_def split: option.split sum.split intro!: goodI good_bind server_inv_cluster)
qed

lemma dispatchRaft_good:
  assumes "env_safe E" and "server_inv srv"
  shows "good (dispatchRaftRequestVote E p (srv, w))" and "good (dispatchRaftAppendEntries E p (srv, w))"
proof -
  show "good (dispatchRaftRequestVote E p (srv, w))"
  proof (cases "sv_raft srv")
    case (Some rf)
    have rf: "raft_inv rf" using Some assms(2) by (simp add: server_inv_def)
    have "good (HandleRequestVote (en_raft E w) req rf \<bind> (\<lambda>(rf', resp).
        Some ((srv\<lparr>sv_raft := Some rf'\<rparr>, w), [] :: effect list, marshalled (ma_RequestVote E resp))))" for req
    proof -
      obtain rf' resp where "HandleRequestVote (en_raft E w) req rf = Some (rf', resp)" "raft_inv rf'"
        using HandleRequestVote_outcome [OF rf, of "en_raft E w" req] by metis
      then show ?thesis using server_inv_raft [OF assms(2)] Some by (simp add: goodI)
    qed
    then show ?thesis using Some assms(2) by (auto simp: dispatchRaftRequestVote_def goodI split: sum.split)
  qed (use assms(2) in \<open>simp add: dispatchRaftRequestVote_def goodI\<close>)
  show "good (dispatchRaftAppendEntries E p (srv, w))"
  proof (cases "sv_raft srv")
    case (Some rf)
    then obtain cv where c: "sv_cluster srv = Some cv" using assms(2) by (auto simp: server_inv_def server_wf_def)
    have rf: "raft_inv rf" and cv: "cluster_inv cv" using Some c assms(2) by (simp_all add: server_inv_def)
    have "good (HandleAppendEntries (en_apply E) (en_raft E w) req cv rf \<bind> (\<lambda>(cv', rf', ms, resp).
        Some ((srv\<lparr>sv_cluster := Some cv', sv_raft := Some rf'\<rparr>, w), ms, marshalled (ma_AppendEntries E resp))))" for req
    proof -
      obtain cv' rf' ms resp where h: "HandleAppendEntries (en_apply E) (en_raft E w) req cv rf = Some (cv', rf', ms, resp)" "raft_inv rf'"
        using HandleAppendEntries_outcome [OF rf, of "en_apply E" "en_raft E w" req cv] by metis
      have "cluster_inv cv'"
        using HandleAppendEntries_keeps [of cluster_inv, OF _ h(1) cv] assms(1) by (simp add: env_safe_def)
      then show ?thesis using server_inv_raft_cluster [OF assms(2) h(2)] h(1) by (simp add: goodI)
    qed
    then show ?thesis using Some c assms(2) by (auto simp: dispatchRaftAppendEntries_def goodI split: sum.split)
  qed (use assms(2) in \<open>simp add: dispatchRaftAppendEntries_def goodI\<close>)
qed

lemma good_if: "good a \<Longrightarrow> good b \<Longrightarrow> good (if c then a else b)"
  by simp

lemma good_case: "(\<And>x. good (f x)) \<Longrightarrow> good a \<Longrightarrow> good (case r of None \<Rightarrow> a | Some x \<Rightarrow> f x)"
  by (cases r) simp_all

lemmas dispatch_goods = dispatchSet_good dispatchDelete_good dispatchGet_good dispatchCluster_good dispatchRaft_good

lemma dispatch_good:
  assumes "env_safe E" and "server_inv srv"
  shows "good (dispatch E ctx req (srv, w))"
  unfolding dispatch_def Let_def
  by (intro good_if good_case dispatch_goods [OF assms] good_served dispatchReplica_inv [OF assms(2)]; simp add: assms(2))

lemma serveRequest_good:
  assumes "env_safe E" and "server_inv srv"
  shows "good (serveRequest E ctx req (srv, w))"
proof -
  obtain srv1 w1 ms resp where d: "dispatch E (requestCtx E ctx (srv, w)) req (srv, w) = Some ((srv1, w1), ms, resp)" and i: "server_inv srv1"
    using dispatch_good [OF assms] unfolding good_def by (metis prod.collapse)
  obtain reg where "(case sv_metrics srv1 of None \<Rightarrow> Some None | Some reg \<Rightarrow> map_option Some
      (Observe (rq_Command req) (en_clock E w1 - en_clock E (snd (srv, w))) (rs_Kind resp = ResponseError) reg)) = Some reg"
    and "server_inv (srv1\<lparr>sv_metrics := reg\<rparr>)"
  proof (cases "sv_metrics srv1")
    case None
    then show thesis using that [of None] server_inv_metrics [OF i, of None] by simp
  next
    case (Some r)
    then have "metrics_inv r" using i by (simp add: server_inv_def)
    then obtain r' where "Observe (rq_Command req) (en_clock E w1 - en_clock E w) (rs_Kind resp = ResponseError) r = Some r'" "metrics_inv r'"
      using Observe_inv by blast
    then show thesis using that [of "Some r'"] server_inv_metrics [OF i, of "Some r'"] Some by simp
  qed
  then show ?thesis using d by (simp add: serveRequest_def goodI split: prod.split sum.split)
qed

text \<open>The bytes of a connection on which no announced length overflows memory.\<close>

inductive decodes_safely :: "reader \<Rightarrow> bool" where
  bad_input: "DecodeRequest rd = Inl err \<Longrightarrow> err \<noteq> RuntimePanic \<Longrightarrow> decodes_safely rd"
| next_request: "DecodeRequest rd = Inr (req, rd') \<Longrightarrow> decodes_safely rd' \<Longrightarrow> decodes_safely rd"

lemma refuseInput_good: "server_inv srv \<Longrightarrow> err \<noteq> RuntimePanic \<Longrightarrow> good (refuseInput E err (srv, w))"
  by (auto simp: refuseInput_def goodI split: prod.split sum.split)

lemma handleConn_good:
  assumes "env_safe E" and "decodes_safely rd" and "server_inv srv"
  shows "good (handleConn E ctx rd (srv, w))"
  using assms(2,3)
proof (induction arbitrary: srv w rule: decodes_safely.induct)
  case (bad_input rd err)
  then show ?case by (subst handleConn.simps) (simp add: refuseInput_good)
next
  case (next_request rd req rd')
  obtain srv1 w1 ms out where s: "serveRequest E ctx req (srv, w) = Some ((srv1, w1), ms, out)" "server_inv srv1"
    using serveRequest_good [OF assms(1) next_request.prems, of ctx req w] unfolding good_def by (metis prod.collapse)
  obtain srv2 w2 ms' os where "handleConn E ctx rd' (srv1, w1) = Some ((srv2, w2), ms', os)" "server_inv srv2"
    using next_request.IH [OF s(2), of w1] unfolding good_def by (metis prod.collapse)
  then show ?case
    using next_request.hyps(1) s by (subst handleConn.simps) (cases out; simp add: goodI)
qed

section \<open>Routing\<close>

lemma with_manager_id: "manager_of srv = Some m \<Longrightarrow> with_manager m srv = srv"
  by (cases srv) (auto simp: manager_of_def with_manager_def split: option.splits)

lemma active_manager_cluster: "active_manager srv = Some m \<Longrightarrow> sv_cluster srv = Some (mg_cluster m)"
  using active_manager_Some manager_of_Some by blast

lemma primary_in_replica_set:
  assumes "cluster_inv (mg_cluster m)" and "IsPrimary m key" and "manager_Enabled m"
  shows "IsInReplicaSet m key"
proof -
  obtain p where p: "Lookup (cl_ring (mg_cluster m)) key = Some p" "nd_ID p = SelfID (mg_cluster m)"
    using assms(2) by (auto simp: IsPrimary_def Owner_def split: option.splits)
  have inv: "ring_inv (cl_ring (mg_cluster m))" and n: "0 < rp_ReplicationFactor (mg_cfg m)"
    using assms(1,3) by (simp_all add: cluster_inv_def manager_Enabled_def repl_Enabled_def)
  obtain os where os: "LookupN (cl_ring (mg_cluster m)) key (rp_ReplicationFactor (mg_cfg m)) = Inr os"
    using hr.owners_total [OF inv n, of key] p(1) by blast
  then have "os \<noteq> [] \<and> hd os = p" using p(1) hr.owners_primary [OF inv os] by simp
  then show ?thesis
    using os p(2) assms(3) by (cases os) (simp_all add: IsInReplicaSet_def replicaSet_def Owners_def manager_Enabled_def)
qed

lemma tally_error: "tally q rs vals found winner = Inl e \<Longrightarrow> e = ErrReadQuorumNotMet"
  by (induction q rs vals found winner rule: tally.induct) (auto simp: tally.simps Let_def split: if_splits option.splits)

lemma manager_Read_error:
  assumes "manager_Read nw sc ctx key (m, w) = Some ((m', w'), Inl ErrNotInReplicaSet)"
  shows "\<not> (IsInReplicaSet m key \<and> IsPrimary m key) \<and> m' = m \<and> w' = w"
  using assms
  by (auto dest!: tally_error simp: manager_Read_def readQuorum_def readFromPeers_def split: if_splits bind_splits sum.splits option.splits prod.splits)

lemma dispatch_commands:
  "rq_Command req = CommandSet \<Longrightarrow> dispatch E ctx req s =
     (case checkWriteRouting (fst s) (rq_Key req) of Some resp \<Rightarrow> served (s, resp) | None \<Rightarrow> dispatchSet E ctx req s)"
  "rq_Command req = CommandDelete \<Longrightarrow> dispatch E ctx req s =
     (case checkWriteRouting (fst s) (rq_Key req) of Some resp \<Rightarrow> served (s, resp) | None \<Rightarrow> dispatchDelete E ctx (rq_Key req) s)"
  "rq_Command req = CommandGet \<Longrightarrow> dispatch E ctx req s =
     (case checkReadRouting (fst s) (rq_Key req) of Some resp \<Rightarrow> served (s, resp) | None \<Rightarrow> dispatchGet E ctx (rq_Key req) s)"
  "rq_Command req = CommandReplSet \<Longrightarrow> dispatch E ctx req s = served (dispatchReplicaSet E req s)"
  "rq_Command req = CommandReplGet \<Longrightarrow> dispatch E ctx req s = served (dispatchReplicaGet E (rq_Key req) s)"
  "rq_Command req = CommandReplDelete \<Longrightarrow> dispatch E ctx req s = served (dispatchReplicaDelete E (rq_Key req) s)"
  "rq_Command req = CommandPing \<Longrightarrow> dispatch E ctx req s = served (s, Resp ResponseOK)"
  by (simp_all add: dispatch_def Let_def command_defs)

text \<open>The commands on a key of the cache.\<close>

definition key_commands :: "string list" where
  "key_commands = [CommandSet, CommandDelete, CommandGet]"

definition not_moved :: "'w served \<Rightarrow> bool" where
  "not_moved r \<longleftrightarrow> (\<forall>s ms resp. r = Some (s, ms, resp) \<longrightarrow> rs_Kind resp \<noteq> ResponseMoved)"

lemma response_kinds [simp]:
  "rs_Kind (error_response msg) = ResponseError" "rs_Kind (value_response v) = ResponseValue" "rs_Kind (node_response k i a) = k"
  "rs_NodeID (node_response k i a) = i" "rs_Addr (node_response k i a) = a" "rs_Kind (Resp k) = k"
  by (simp_all add: error_response_def value_response_def node_response_def Resp_def)

lemma dispatchSet_answers: "not_moved (dispatchSet E ctx req s)"
  by (cases s) (auto simp: not_moved_def dispatchSet_def Let_def split: option.splits prod.splits bind_splits)

lemma dispatchDelete_answers: "not_moved (dispatchDelete E ctx key s)"
  by (cases s) (auto simp: not_moved_def dispatchDelete_def Let_def split: option.splits prod.splits bind_splits sum.splits if_splits)

lemma dispatchGet_outcome:
  assumes "dispatchGet E ctx key (srv, w) = Some (s', ms, resp)" and "rs_Kind resp = ResponseMoved"
  obtains m where "active_manager srv = Some m" "s' = (srv, w)" "resp = redirectToPrimary srv key"
    "\<not> (IsInReplicaSet m key \<and> IsPrimary m key)"
proof (cases "active_manager srv")
  case None
  then show ?thesis using assms by (auto simp: dispatchGet_def Let_def split: prod.splits option.splits)
next
  case (Some m)
  then obtain m' w' r where r: "manager_Read (en_net E) (en_sched E w) ctx key (m, w) = Some ((m', w'), r)"
    and s: "s' = (with_manager m' srv, w')" and resp: "resp = (case r of
                 Inl e \<Rightarrow>
                   if e = ErrNotInReplicaSet then redirectToPrimary (with_manager m' srv) key
                   else error_response (repl_error_text (en_quote E) e)
               | Inr None \<Rightarrow> Resp ResponseNotFound
               | Inr (Some v) \<Rightarrow> value_response v)"
    using assms(1) by (auto simp: dispatchGet_def split: bind_splits)
  have "r = Inl ErrNotInReplicaSet" using resp assms(2) by (auto split: sum.splits option.splits if_splits)
  then show thesis
    using that [OF Some] manager_Read_error r s resp with_manager_id [OF conjunct1 [OF active_manager_Some [OF Some]]] by fastforce
qed

lemma redirect_is_owner:
  "sv_cluster srv = Some cv \<Longrightarrow> rs_Kind (redirectToPrimary srv key) = ResponseMoved \<Longrightarrow>
    Owner cv key = Some \<lparr>nd_ID = rs_NodeID (redirectToPrimary srv key), nd_Addr = rs_Addr (redirectToPrimary srv key)\<rparr>"
  by (auto simp: redirectToPrimary_def split: option.splits)

lemma routing_is_owner:
  assumes "sv_cluster srv = Some cv" and "rs_Kind resp = ResponseMoved"
    and "checkWriteRouting srv key = Some resp \<or> checkReadRouting srv key = Some resp"
  shows "Owner cv key = Some \<lparr>nd_ID = rs_NodeID resp, nd_Addr = rs_Addr resp\<rparr>"
  using assms redirect_is_owner [OF assms(1), of key]
  by (auto simp: checkWriteRouting_def checkReadRouting_def checkOwnership_def split: option.splits if_splits)

text \<open>A redirect names the owner and changes nothing.\<close>

lemma moved_to_owner:
  assumes "rq_Command req \<in> set key_commands" and "sv_cluster srv = Some cv"
    and "dispatch E ctx req (srv, w) = Some (s', ms, resp)" and "rs_Kind resp = ResponseMoved"
  shows "Owner cv (rq_Key req) = Some \<lparr>nd_ID = rs_NodeID resp, nd_Addr = rs_Addr resp\<rparr> \<and> s' = (srv, w)"
proof -
  have get: ?thesis if "dispatchGet E ctx (rq_Key req) (srv, w) = Some (s', ms, resp)"
    using dispatchGet_outcome [OF that assms(4)] redirect_is_owner [OF assms(2)] assms(4) by metis
  have "Owner cv (rq_Key req) = Some \<lparr>nd_ID = rs_NodeID resp, nd_Addr = rs_Addr resp\<rparr>"
    if "checkWriteRouting srv (rq_Key req) = Some resp \<or> checkReadRouting srv (rq_Key req) = Some resp"
    using routing_is_owner [OF assms(2,4) that] .
  then have routed: ?thesis
    if "checkWriteRouting srv (rq_Key req) = Some r \<or> checkReadRouting srv (rq_Key req) = Some r" "served ((srv, w), r) = Some (s', ms, resp)" for r
    using that by (auto simp: served_def)
  consider "rq_Command req = CommandSet" | "rq_Command req = CommandDelete" | "rq_Command req = CommandGet"
    using assms(1) by (auto simp: key_commands_def)
  then show ?thesis
  proof cases
    case 1
    then show ?thesis
      using assms(3,4) routed [OF disjI1] dispatchSet_answers [of E ctx req "(srv, w)"]
      by (cases "checkWriteRouting srv (rq_Key req)") (simp_all add: dispatch_commands(1) not_moved_def)
  next
    case 2
    then show ?thesis
      using assms(3,4) routed [OF disjI1] dispatchDelete_answers [of E ctx "rq_Key req" "(srv, w)"]
      by (cases "checkWriteRouting srv (rq_Key req)") (simp_all add: dispatch_commands(2) not_moved_def)
  next
    case 3
    then show ?thesis
      using assms(3) routed [OF disjI2] get by (cases "checkReadRouting srv (rq_Key req)") (simp_all add: dispatch_commands(3))
  qed
qed

text \<open>The owner of a key answers itself.\<close>

lemma owner_answers:
  assumes "rq_Command req \<in> set key_commands" and "sv_cluster srv = Some cv" and "cluster_inv cv"
    and "Owner cv (rq_Key req) = Some p" and "nd_ID p = selfID cv"
  shows "not_moved (dispatch E ctx req (srv, w))"
proof -
  have own: "IsOwner cv (rq_Key req)" using assms(4,5) by (simp add: IsOwner_def)
  have prim: "IsPrimary m (rq_Key req) \<and> IsInReplicaSet m (rq_Key req)" if "active_manager srv = Some m" for m
  proof -
    have "mg_cluster m = cv" using active_manager_cluster [OF that] assms(2) by simp
    then have "IsPrimary m (rq_Key req)" using assms(4,5) by (simp add: IsPrimary_def SelfID_def)
    then show ?thesis
      using primary_in_replica_set [of m] assms(3) \<open>mg_cluster m = cv\<close> active_manager_Some [OF that] by simp
  qed
  have "checkWriteRouting srv (rq_Key req) = None" "checkReadRouting srv (rq_Key req) = None"
    using own prim assms(2,4) by (simp_all add: checkWriteRouting_def checkReadRouting_def checkOwnership_def split: option.split)
  moreover have "not_moved (dispatchGet E ctx (rq_Key req) (srv, w))"
    using dispatchGet_outcome [of E ctx "rq_Key req" srv w] prim unfolding not_moved_def by metis
  ultimately show ?thesis
    using assms(1) dispatchSet_answers dispatchDelete_answers by (auto simp: key_commands_def dispatch_commands)
qed

section \<open>Pipelining\<close>

text \<open>The requests of a connection answered one by one, until an answer cannot be written.\<close>

fun answer_all ::
  "'w server_env \<Rightarrow> Context \<Rightarrow> Request list \<Rightarrow> Server \<times> 'w \<Rightarrow> ((Server \<times> 'w) \<times> effect list \<times> bytes list) option" where
  "answer_all E ctx [] s = Some (s, [], [])"
| "answer_all E ctx (req # reqs) s =
     (case serveRequest E ctx req s of
        None \<Rightarrow> None
      | Some (s1, ms, None) \<Rightarrow> Some (s1, ms, [])
      | Some (s1, ms, Some payload) \<Rightarrow>
          (case answer_all E ctx reqs s1 of
             None \<Rightarrow> None
           | Some (s2, ms', out) \<Rightarrow> Some (s2, ms @ ms', payload # out)))"

definition encoded :: "Request list \<Rightarrow> bytes list \<Rightarrow> bool" where
  "encoded reqs bss \<longleftrightarrow> map EncodeRequest reqs = map Inr bss"

lemma DecodeRequest_end: "DecodeRequest (NewReader []) = Inl EOF"
  by (simp add: DecodeRequest_def readLine_def)

lemma encoded_Cons:
  assumes "sendable req" and "encoded (req # reqs) bss"
  obtains bs bss' where "bss = bs # bss'" "encoded reqs bss'"
    "\<And>rest. DecodeRequest (NewReader (bs @ rest)) = Inr (received req, NewReader rest)"
  using assms request_roundtrip_lemma [OF assms(1)] by (fastforce simp: encoded_def)

lemma encoded_exists: "\<forall>req\<in>set reqs. sendable req \<Longrightarrow> \<exists>bss. encoded reqs bss"
proof (induction reqs)
  case (Cons req reqs)
  then obtain bss where "encoded reqs bss" by auto
  moreover obtain bs where "EncodeRequest req = Inr bs" using request_roundtrip_lemma [of req] Cons.prems by auto
  ultimately have "encoded (req # reqs) (bs # bss)" by (simp add: encoded_def)
  then show ?case by blast
qed (auto simp: encoded_def)

lemma handleConn_encoded:
  assumes "\<forall>req\<in>set reqs. sendable req" and "encoded reqs bss"
  shows "handleConn E ctx (NewReader (concat bss)) s = answer_all E ctx (map received reqs) s"
  using assms
proof (induction reqs arbitrary: bss s)
  case Nil
  then show ?case
    by (subst handleConn.simps) (simp add: encoded_def DecodeRequest_end refuseInput_def split: prod.split)
next
  case (Cons req reqs)
  obtain bs bss' where b: "bss = bs # bss'" "encoded reqs bss'"
    "DecodeRequest (NewReader (bs @ concat bss')) = Inr (received req, NewReader (concat bss'))"
    using encoded_Cons [OF _ Cons.prems(2)] Cons.prems(1) by (metis list.set_intros(1))
  have "handleConn E ctx (NewReader (concat bss')) s1 = answer_all E ctx (map received reqs) s1" for s1
    by (rule Cons.IH [OF _ b(2)]) (use Cons.prems(1) in simp)
  then show ?case using b by (subst handleConn.simps) (simp split: option.split prod.split)
qed

lemma decodes_safely_encoded:
  assumes "\<forall>req\<in>set reqs. sendable req" and "encoded reqs bss"
  shows "decodes_safely (NewReader (concat bss))"
  using assms
proof (induction reqs arbitrary: bss)
  case Nil
  then show ?case by (simp add: encoded_def bad_input [OF DecodeRequest_end])
next
  case (Cons req reqs)
  obtain bs bss' where "bss = bs # bss'" "encoded reqs bss'"
    "DecodeRequest (NewReader (bs @ concat bss')) = Inr (received req, NewReader (concat bss'))"
    using encoded_Cons [OF _ Cons.prems(2)] Cons.prems(1) by (metis list.set_intros(1))
  then show ?case using Cons.IH Cons.prems(1) by (auto intro: next_request)
qed

section \<open>Connection slots\<close>

lemma listen_step_active:
  assumes "int (li_active st) \<le> maxc"
  shows "int (li_active (listen_step maxc ev st)) \<le> maxc"
  using assms by (cases ev) (auto simp: listen_step_def)

lemma listen_step_stopped: "li_stopped st \<Longrightarrow> li_stopped (listen_step maxc ev st) \<and> li_active (listen_step maxc ev st) \<le> li_active st"
  by (cases ev) (auto simp: listen_step_def)

lemma ListenAndServe_active: "0 \<le> maxc \<Longrightarrow> int (li_active (ListenAndServe maxc evs)) \<le> maxc"
proof -
  have "int (li_active st) \<le> maxc \<Longrightarrow> int (li_active (fold (listen_step maxc) evs st)) \<le> maxc" for st
    by (induction evs arbitrary: st) (simp_all add: listen_step_active)
  then show "0 \<le> maxc \<Longrightarrow> int (li_active (ListenAndServe maxc evs)) \<le> maxc" by (simp add: ListenAndServe_def)
qed

section \<open>Properties\<close>

definition demo_server :: "string \<Rightarrow> Server" where
  "demo_server self =
     \<lparr>sv_cfg = \<lparr>sc_Addr = self, sc_MaxConnections = 4, sc_ReadTimeout = second, sc_WriteTimeout = second, sc_ShutdownTimeout = second\<rparr>,
      sv_store = mg_store demo_manager, sv_cluster = Some \<lparr>cl_ring = demo_ring, selfID = self\<rparr>,
      sv_repl = Some (mg_cfg demo_manager, mg_health demo_manager, mg_peer demo_manager), sv_raft = None, sv_metrics = Some NewRegistry\<rparr>"

definition demo_server_env :: "unit server_env" where
  "demo_server_env =
     \<lparr>en_net = demo_refusing, en_sched = (\<lambda>_. \<lparr>run_order = id, ctx_ends = None\<rparr>), en_raft = (\<lambda>_. demo_env),
      en_apply = (\<lambda>ent cv. (cv, [])), en_await = (\<lambda>_ s. (s, None)), en_write = (\<lambda>_ w. (w, None)), en_quote = id,
      un_RequestVote = (\<lambda>_. Inl ''json''), ma_RequestVote = (\<lambda>_. Inl ''json''), un_AppendEntries = (\<lambda>_. Inl ''json''),
      ma_AppendEntries = (\<lambda>_. Inl ''json''), ma_Status = (\<lambda>_. Inl ''json''), ma_Snapshot = (\<lambda>_. Inl ''json'')\<rparr>"

lemma demo_env_safe: "env_safe demo_server_env"
  by (simp add: env_safe_def demo_server_env_def net_safe_def demo_refusing_def)

lemma demo_server_inv: "server_inv (demo_server self)"
  by (simp add: server_inv_def demo_server_def server_wf_def cluster_inv_def demo_ring_inv metrics_inv_def NewRegistry_def
      demo_manager_def store_Set_inv NewStore_inv defaultMaxSamples_def)

lemma demo_sendable: "sendable demo_request" "sendable (\<lparr>rq_Command = ''PING'', rq_Key = [], rq_Value = None, rq_TTL = 0\<rparr>)"
proof -
  have "TrimSpace ''k 1'' = ''k 1''" by code_simp
  then show "sendable demo_request"
    by (simp add: sendable_def known_commands_def command_defs keyless_def setlike_def valued_def maxAlloc_def)
  show "sendable (\<lparr>rq_Command = ''PING'', rq_Key = [], rq_Value = None, rq_TTL = 0\<rparr>)"
    by (simp add: sendable_def known_commands_def command_defs keyless_def setlike_def valued_def)
qed



text \<open>
  C39: Requests may be sent without waiting for answers. On the concatenation of any encoded requests the
  handler does what serving the decoded requests one after the other does: same state, same answers, in
  the order of the requests; no request reads into the next.
\<close>

theorem pipelined_requests:
  assumes "\<forall>req\<in>set reqs. sendable req"
  shows "\<exists>bss. encoded reqs bss \<and> (\<forall>E ctx (s :: Server \<times> 'w).
    handleConn E ctx (NewReader (concat bss)) s = answer_all E ctx (map received reqs) s)"
proof -
  obtain bss where "encoded reqs bss" using encoded_exists [OF assms] by blast
  then show ?thesis using handleConn_encoded [OF assms] by blast
qed

theorem pipelined_requests_witness:
  "\<exists>bss. encoded [demo_request, demo_request] bss \<and>
     (\<forall>s :: Server \<times> unit. handleConn demo_server_env Background (NewReader (concat bss)) s =
        answer_all demo_server_env Background [received demo_request, received demo_request] s)"
proof -
  have "\<forall>req\<in>set [demo_request, demo_request]. sendable req" by (simp add: demo_sendable)
  from pipelined_requests [OF this, where 'w = unit] show ?thesis by auto
qed

text \<open>
  C8: One redirect is enough. When a server answers \<open>SET\<close>, \<open>DELETE\<close> or \<open>GET\<close> with \<open>MOVED\<close>, it changed nothing
  and named the owner of the key on its ring; the server of that name, if it has the same owner for the key, then
  returns an answer to the same request that is not another redirect. This holds with and without
  replication and for every read consistency.
\<close>

theorem one_redirect:
  assumes "rq_Command req \<in> set key_commands"
    and "sv_cluster srv = Some cv" and "dispatch E ctx req (srv, w) = Some (s', ms, resp)" and "rs_Kind resp = ResponseMoved"
    and "env_safe E'" and "server_inv srv'" and "sv_cluster srv' = Some cv'" and "SelfID cv' = rs_NodeID resp"
    and "Owner cv' (rq_Key req) = Owner cv (rq_Key req)"
  shows "s' = (srv, w) \<and> Owner cv (rq_Key req) = Some \<lparr>nd_ID = rs_NodeID resp, nd_Addr = rs_Addr resp\<rparr> \<and>
    (\<exists>s2 ms2 resp2. dispatch E' ctx' req (srv', w') = Some (s2, ms2, resp2) \<and> rs_Kind resp2 \<noteq> ResponseMoved)"
proof -
  have m: "Owner cv (rq_Key req) = Some \<lparr>nd_ID = rs_NodeID resp, nd_Addr = rs_Addr resp\<rparr> \<and> s' = (srv, w)"
    by (rule moved_to_owner [OF assms(1-4)])
  have "cluster_inv cv'" using assms(6,7) by (simp add: server_inv_def)
  then have "not_moved (dispatch E' ctx' req (srv', w'))"
    using owner_answers [OF assms(1,7), of "\<lparr>nd_ID = rs_NodeID resp, nd_Addr = rs_Addr resp\<rparr>"] m assms(8,9) by (simp add: SelfID_def)
  then show ?thesis
    using m dispatch_good [OF assms(5,6), of ctx' req w'] unfolding good_def not_moved_def by (metis prod.collapse)
qed

abbreviation demo_set :: Request where
  "demo_set \<equiv> empty_Request\<lparr>rq_Command := ''SET'', rq_Key := ''k'', rq_Value := Some ''new''\<rparr>"

lemma demo_moved:
  "dispatch demo_server_env Background demo_set (demo_server ''n1'', ()) =
     Some ((demo_server ''n1'', ()), [], node_response ResponseMoved ''n2'' ''h2:1'')"
proof -
  have r: "checkWriteRouting (demo_server ''n1'') ''k'' = Some (node_response ResponseMoved ''n2'' ''h2:1'')" by code_simp
  show ?thesis using dispatch_commands(1) [of demo_set demo_server_env Background "(demo_server ''n1'', ())"] r
    by (simp add: served_def command_defs)
qed

theorem one_redirect_witness:
  "\<exists>s2 ms2 resp2. dispatch demo_server_env Background demo_set (demo_server ''n2'', ()) = Some (s2, ms2, resp2) \<and>
     rs_Kind resp2 \<noteq> ResponseMoved"
  using one_redirect [OF _ _ demo_moved _ demo_env_safe demo_server_inv [of "''n2''"], of "\<lparr>cl_ring = demo_ring, selfID = ''n1''\<rparr>"
      "\<lparr>cl_ring = demo_ring, selfID = ''n2''\<rparr>" Background "()"]
  by (simp add: demo_server_def key_commands_def command_defs SelfID_def Owner_def)

end
