(* ===== verification/Cluster_World.thy ===== *)
theory Cluster_World
  imports Cache_Server
begin

text \<open>
  The servers of a cluster together. The world holds the server at every address, the addresses that do
  not answer, and the clock, which stands still while calls run. A transfer hands the bytes to the
  connection handler of the server at the address (\<open>Cache_Server\<close>) and returns the bytes it wrote; the
  calls that this server makes in turn go to the same network, one level deeper. What the sources leave
  outside (the JSON codec, quoting, the schedules) is the argument \<open>base\<close>.

  The replication manager (\<open>Replication_Manager\<close>) was verified against the interface \<open>replica_net\<close> of a
  network of replicas. Here that interface is discharged for this network: the bytes of
  \<^verbatim>\<open>src/internal/replication/peer.go\<close>, the codec of \<^verbatim>\<open>src/internal/protocol/protocol.go\<close>, the
  dispatcher of \<^verbatim>\<open>src/internal/server/server.go\<close> and the store behind it.
\<close>

section \<open>Model\<close>

record World =
  wd_now :: time
  wd_servers :: "(string, Server) gomap"
  wd_down :: "string list"

fun cluster_net :: "World server_env \<Rightarrow> nat \<Rightarrow> World Network" where
  "cluster_net base 0 = \<lparr>clock = wd_now, transfer = (\<lambda>w _ _ _ _. (w, Inl ''call depth''))\<rparr>"
| "cluster_net base (Suc n) =
     \<lparr>clock = wd_now,
      transfer = (\<lambda>w _ _ addr payload.
        case map_of (wd_servers w) addr of
          None \<Rightarrow> (w, Inl ''connection refused'')
        | Some srv \<Rightarrow>
            if addr \<in> set (wd_down w) then (w, Inl ''i/o timeout'')
            else case handleConn (base\<lparr>en_net := cluster_net base n\<rparr>) Background (NewReader payload) (srv, w) of
              None \<Rightarrow> (w, Inl ''connection reset'')
            | Some ((srv', w'), _, out) \<Rightarrow>
                (w'\<lparr>wd_servers := AList.update addr srv' (wd_servers w')\<rparr>, Inr (NewReader (concat out))))\<rparr>"

declare cluster_net.simps(2) [simp del]

definition world_env :: "World server_env \<Rightarrow> nat \<Rightarrow> World server_env" where
  "world_env base n = base\<lparr>en_net := cluster_net base n\<rparr>"

definition held_at :: "World \<Rightarrow> string \<Rightarrow> string \<Rightarrow> bytes option" where
  "held_at w addr key =
     (case map_of (wd_servers w) addr of
        None \<Rightarrow> None
      | Some srv \<Rightarrow> live (wd_now w) (sv_store srv) key)"

definition key_ok :: "string \<Rightarrow> bool" where
  "key_ok key \<longleftrightarrow> key \<noteq> [] \<and> TrimSpace key = key \<and> newline \<notin> set key"

definition world_inv :: "World server_env \<Rightarrow> World \<Rightarrow> bool" where
  "world_inv base w \<longleftrightarrow> en_write base = (\<lambda>p w. (w, None)) \<and> 0 < wd_now w \<and>
     (\<forall>srv\<in>ran (map_of (wd_servers w)). server_inv srv) \<and>
     (\<forall>addr key v. held_at w addr key = Some v \<longrightarrow> int (length v) \<le> maxAlloc)"

section \<open>One exchange\<close>

lemma clock_cluster_net [simp]: "clock (cluster_net base n) = wd_now"
  by (cases n) (simp_all add: cluster_net.simps(2))

lemma serveRequest_reply:
  assumes "dispatch E (requestCtx E ctx (srv, w)) req (srv, w) = Some ((srv1, w), ms, resp)" and "server_inv srv1"
    and "deliverable resp" and "en_write E = (\<lambda>p w. (w, None))"
  obtains reg bs where "serveRequest E ctx req (srv, w) = Some ((srv1\<lparr>sv_metrics := reg\<rparr>, w), ms, Some bs)"
    "server_inv (srv1\<lparr>sv_metrics := reg\<rparr>)" "DecodeResponse (NewReader bs) = Inr (delivered resp, NewReader [])"
proof -
  obtain bs where bs: "EncodeResponse resp = Inr bs" "DecodeResponse (NewReader bs) = Inr (delivered resp, NewReader [])"
    using response_roundtrip_lemma [OF assms(3)] unfolding survives_def by (metis append_Nil2)
  show thesis
  proof (cases "sv_metrics srv1")
    case None
    then show thesis
      using that [of None bs] assms(1,4) bs server_inv_metrics [OF assms(2), of None]
      by (simp add: serveRequest_def writeResponse_def)
  next
    case (Some r)
    obtain r' where "Observe (rq_Command req) 0 (rs_Kind resp = ResponseError) r = Some r'" "metrics_inv r'"
      using Observe_inv Some assms(2) by (metis server_inv_def)
    then show thesis
      using that [of "Some r'" bs] assms(1,4) bs server_inv_metrics [OF assms(2), of "Some r'"] Some
      by (simp add: serveRequest_def writeResponse_def)
  qed
qed

lemma handleConn_reply:
  assumes "sendable req" and "EncodeRequest req = Inr payload"
    and "\<And>ctx. dispatch E ctx (received req) (srv, w) = Some ((srv1, w), ms, resp)" and "server_inv srv1"
    and "deliverable resp" and "en_write E = (\<lambda>p w. (w, None))"
  obtains reg bs where "handleConn E ctx (NewReader payload) (srv, w) = Some ((srv1\<lparr>sv_metrics := reg\<rparr>, w), ms, [bs])"
    "server_inv (srv1\<lparr>sv_metrics := reg\<rparr>)" "DecodeResponse (NewReader bs) = Inr (delivered resp, NewReader [])"
proof -
  obtain reg bs where s: "serveRequest E ctx (received req) (srv, w) = Some ((srv1\<lparr>sv_metrics := reg\<rparr>, w), ms, Some bs)"
    "server_inv (srv1\<lparr>sv_metrics := reg\<rparr>)" "DecodeResponse (NewReader bs) = Inr (delivered resp, NewReader [])"
    using serveRequest_reply [OF assms(3) assms(4-6)] .
  moreover have "handleConn E ctx (NewReader payload) (srv, w) = answer_all E ctx [received req] (srv, w)"
    using handleConn_encoded [of "[req]" "[payload]" E ctx "(srv, w)"] assms(1,2) by (simp add: encoded_def)
  ultimately show thesis using that by simp
qed

text \<open>A call that reaches a server which answers without calling others.\<close>

definition answered_by :: "World server_env \<Rightarrow> nat \<Rightarrow> Request \<Rightarrow> Server \<Rightarrow> World \<Rightarrow> Server \<Rightarrow> Response \<Rightarrow> bool" where
  "answered_by base n req srv w srv1 resp \<longleftrightarrow> server_inv srv1 \<and> deliverable resp \<and>
     (\<exists>ms. \<forall>ctx. dispatch (world_env base n) ctx (received req) (srv, w) = Some ((srv1, w), ms, resp))"

definition with_server :: "string \<Rightarrow> Server \<Rightarrow> World \<Rightarrow> World" where
  "with_server addr srv w = w\<lparr>wd_servers := AList.update addr srv (wd_servers w)\<rparr>"

lemma delivered_kind [simp]: "rs_Kind (delivered resp) = rs_Kind resp"
  by (simp add: delivered_def split: ResponseKind.split)

lemma transfer_up:
  assumes w: "world_inv base w" and req: "sendable req" "EncodeRequest req = Inr payload"
    and srv: "map_of (wd_servers w) addr = Some srv" "addr \<notin> set (wd_down w)"
    and ans: "answered_by base n req srv w srv1 resp"
  obtains reg bs where "server_inv (srv1\<lparr>sv_metrics := reg\<rparr>)"
    "transfer (cluster_net base (Suc n)) w t d addr payload = (with_server addr (srv1\<lparr>sv_metrics := reg\<rparr>) w, Inr (NewReader bs))"
    "DecodeResponse (NewReader bs) = Inr (delivered resp, NewReader [])"
proof -
  obtain ms where a: "server_inv srv1" "deliverable resp"
    "\<And>ctx. dispatch (world_env base n) ctx (received req) (srv, w) = Some ((srv1, w), ms, resp)"
    using ans by (auto simp: answered_by_def)
  have wr: "en_write (world_env base n) = (\<lambda>p w. (w, None))" using w by (simp add: world_inv_def world_env_def)
  obtain reg bs where h: "handleConn (world_env base n) Background (NewReader payload) (srv, w) =
      Some ((srv1\<lparr>sv_metrics := reg\<rparr>, w), ms, [bs])" "server_inv (srv1\<lparr>sv_metrics := reg\<rparr>)"
    "DecodeResponse (NewReader bs) = Inr (delivered resp, NewReader [])"
    by (rule handleConn_reply [OF req a(3) a(1,2) wr])
  show thesis using that [OF h(2) _ h(3)] srv h(1) by (simp add: cluster_net.simps(2) world_env_def with_server_def)
qed

lemma roundTrip_up:
  assumes w: "world_inv base w" and req: "sendable req" and srv: "map_of (wd_servers w) addr = Some srv" "addr \<notin> set (wd_down w)"
    and ans: "answered_by base n req srv w srv1 resp"
  obtains reg where "server_inv (srv1\<lparr>sv_metrics := reg\<rparr>)" "roundTrip (cluster_net base (Suc n)) p ctx addr req w =
    Some (with_server addr (srv1\<lparr>sv_metrics := reg\<rparr>) w,
      if rs_Kind resp = ResponseError then Inl (RemoteError (rs_Message (delivered resp))) else Inr (delivered resp))"
proof -
  obtain payload where enc: "EncodeRequest req = Inr payload" using request_roundtrip_lemma [OF req] by blast
  let ?t = "if peer_Timeout p \<le> 0 then 2 * second else peer_Timeout p"
  let ?d = "case ctx_Deadline ctx of Some d \<Rightarrow> d | None \<Rightarrow> clock (cluster_net base (Suc n)) w + ?t"
  obtain reg bs where "server_inv (srv1\<lparr>sv_metrics := reg\<rparr>)"
    "transfer (cluster_net base (Suc n)) w ?t ?d addr payload = (with_server addr (srv1\<lparr>sv_metrics := reg\<rparr>) w, Inr (NewReader bs))"
    "DecodeResponse (NewReader bs) = Inr (delivered resp, NewReader [])"
    by (rule transfer_up [OF w req enc srv ans])
  then show thesis using that enc unfolding roundTrip_def Let_def by simp
qed

lemma roundTrip_world:
  assumes w: "world_inv base w" and req: "sendable req"
    and ans: "\<And>srv. map_of (wd_servers w) addr = Some srv \<Longrightarrow> server_inv srv \<Longrightarrow> answered_by base n req srv w (f srv) (g srv)"
    and rt: "roundTrip (cluster_net base (Suc n)) p ctx addr req w = Some (w', r)"
  shows "(w' = w \<and> (\<exists>e. r = Inl (NetError e))) \<or>
    (\<exists>srv reg. map_of (wd_servers w) addr = Some srv \<and> server_inv srv \<and> server_inv ((f srv)\<lparr>sv_metrics := reg\<rparr>) \<and>
      w' = with_server addr ((f srv)\<lparr>sv_metrics := reg\<rparr>) w \<and>
      r = (if rs_Kind (g srv) = ResponseError then Inl (RemoteError (rs_Message (delivered (g srv)))) else Inr (delivered (g srv))))"
proof (cases "map_of (wd_servers w) addr = None \<or> addr \<in> set (wd_down w)")
  case True
  obtain payload where "EncodeRequest req = Inr payload" using request_roundtrip_lemma [OF req] by blast
  then show ?thesis using rt True by (auto simp: roundTrip_def Let_def cluster_net.simps(2) split: option.splits)
next
  case False
  then obtain srv where srv: "map_of (wd_servers w) addr = Some srv" "addr \<notin> set (wd_down w)" by auto
  then have inv: "server_inv srv" using w by (auto simp: world_inv_def intro: ranI)
  show ?thesis by (rule roundTrip_up [OF w req srv ans [OF srv(1) inv], of p ctx]) (use rt srv(1) inv in auto)
qed

section \<open>Replica commands\<close>

lemma texts_deliverable:
  "deliverable (Resp ResponseOK)" "deliverable (Resp ResponseNotFound)"
  "deliverable (error_response ''replication not enabled'')"
  "deliverable (error_response (repl_error_text q ErrNotInReplicaSet))"
  "deliverable (error_response (repl_error_text q (ReplStore e)))"
proof -
  have t: "TrimSpace ''replication not enabled'' = ''replication not enabled''"
    "TrimSpace ''key not in local replica set'' = ''key not in local replica set''"
    "TrimSpace ''entry exceeds maximum memory limit'' = ''entry exceeds maximum memory limit''"
    "TrimSpace ''unable to store entry within memory limit'' = ''unable to store entry within memory limit''"
    by code_simp+
  show "deliverable (error_response ''replication not enabled'')"
    "deliverable (error_response (repl_error_text q ErrNotInReplicaSet))"
    "deliverable (error_response (repl_error_text q (ReplStore e)))"
    using t by (simp_all add: deliverable_def error_response_def Resp_def repl_error_text_def store_error_text_def split: store_error.split)
qed (simp_all add: deliverable_def)

lemma manager_store [simp]: "sv_store (with_manager m srv) = mg_store m"
  by (simp add: with_manager_def)

text \<open>What a replica command does to the store behind it.\<close>

lemma dispatchReplicaSet_outcome:
  assumes "server_inv srv" and "0 < en_clock E w" and "rq_Value req = Some v"
    and "dispatchReplicaSet E req (srv, w) = ((srv1, w1), resp)"
  shows "w1 = w" and "deliverable resp"
    and "rs_Kind resp \<noteq> ResponseError \<Longrightarrow> (0 < rq_TTL req \<longrightarrow> en_clock E w + rq_TTL req > t) \<Longrightarrow> live t (sv_store srv1) (rq_Key req) = Some v"
    and "live t (sv_store srv1) k \<in> {None, Some v, live t (sv_store srv) k}"
proof -
  show "w1 = w" using assms(4) by (auto simp: dispatchReplicaSet_def Let_def split: option.splits prod.splits)
  consider "srv1 = srv" "rs_Kind resp = ResponseError" "deliverable resp"
    | st e where "store_Set (en_clock E w) (rq_Key req) v (rq_TTL req) (sv_store srv) = (st, e)" "sv_store srv1 = st"
        "resp = (case e of Some e \<Rightarrow> error_response (repl_error_text (en_quote E) (ReplStore e)) | None \<Rightarrow> Resp ResponseOK)"
  proof (cases "manager_of srv")
    case None
    then show thesis using that(1) assms(4) texts_deliverable(3) by (auto simp: dispatchReplicaSet_def)
  next
    case (Some m)
    then have st: "mg_store m = sv_store srv" using manager_of_Some by simp
    show thesis
    proof (cases "IsInReplicaSet m (rq_Key req)")
      case True
      obtain s e where "store_Set (en_clock E w) (rq_Key req) v (rq_TTL req) (sv_store srv) = (s, e)" by fastforce
      then show thesis
        using that(2) assms(3,4) Some True st by (cases e) (auto simp: dispatchReplicaSet_def ApplyReplicaSet_def mg_Set_def)
    next
      case False
      then show thesis
        using that(1) assms(4) Some texts_deliverable(4) with_manager_id [OF Some] by (auto simp: dispatchReplicaSet_def ApplyReplicaSet_def)
    qed
  qed
  note cases = this
  show "deliverable resp" using texts_deliverable by (cases rule: cases) (auto split: option.splits)
  show "live t (sv_store srv1) (rq_Key req) = Some v"
    if "rs_Kind resp \<noteq> ResponseError" "0 < rq_TTL req \<longrightarrow> en_clock E w + rq_TTL req > t"
    using that store_Set_ok_live [OF server_inv_storeD [OF assms(1)] assms(2)]
    by (cases rule: cases) (auto split: option.splits)
  show "live t (sv_store srv1) k \<in> {None, Some v, live t (sv_store srv) k}"
  proof (cases rule: cases)
    case (2 st e)
    show ?thesis
    proof (cases "k = rq_Key req")
      case True
      then show ?thesis
        using 2 store_Set_ok_live [OF server_inv_storeD [OF assms(1)] assms(2)] store_Set_fail_live [OF server_inv_storeD [OF assms(1)]]
        by (cases e) auto
    next
      case False
      then show ?thesis
        using 2 store_Set_other_live [OF server_inv_storeD [OF assms(1)] False, of t "en_clock E w" v "rq_TTL req"] by auto
    qed
  qed simp
qed

lemma dispatchReplicaGet_outcome:
  assumes "server_inv srv" and "dispatchReplicaGet E key (srv, w) = ((srv1, w1), resp)"
    and "\<And>v. live (en_clock E w) (sv_store srv) key = Some v \<Longrightarrow> int (length v) \<le> maxAlloc"
  shows "w1 = w" and "deliverable resp" and "live (en_clock E w) (sv_store srv1) = live (en_clock E w) (sv_store srv)"
    and "rs_Kind resp = ResponseError \<or>
      resp = (case live (en_clock E w) (sv_store srv) key of None \<Rightarrow> Resp ResponseNotFound | Some v \<Rightarrow> value_response v)"
proof -
  have g: "live (en_clock E w) (fst (store_Get (en_clock E w) key (sv_store srv))) = live (en_clock E w) (sv_store srv)"
    by (rule live_Get) (use assms(1) in \<open>simp_all add: server_inv_def store_inv_def\<close>)
  consider "srv1 = srv" "rs_Kind resp = ResponseError" "deliverable resp" "w1 = w"
    | "w1 = w" "srv1 = srv\<lparr>sv_store := fst (store_Get (en_clock E w) key (sv_store srv))\<rparr>"
      "resp = (case live (en_clock E w) (sv_store srv) key of None \<Rightarrow> Resp ResponseNotFound | Some v \<Rightarrow> value_response v)"
    using assms(2) texts_deliverable(4) [of "en_quote E"] store_Get_live [of "en_clock E w" key "sv_store srv"]
    by (auto simp: dispatchReplicaGet_def Let_def split: if_splits prod.splits)
  note cases = this
  show "w1 = w" by (cases rule: cases)
  show "deliverable resp"
    using texts_deliverable(2) assms(3)
    by (cases rule: cases) (auto simp: deliverable_def value_response_def Resp_def split: option.splits)
  show "live (en_clock E w) (sv_store srv1) = live (en_clock E w) (sv_store srv)" using g by (cases rule: cases) simp_all
  show "rs_Kind resp = ResponseError \<or>
      resp = (case live (en_clock E w) (sv_store srv) key of None \<Rightarrow> Resp ResponseNotFound | Some v \<Rightarrow> value_response v)"
    by (cases rule: cases) simp_all
qed

lemma dispatchReplicaDelete_outcome:
  assumes "server_inv srv" and "dispatchReplicaDelete E key (srv, w) = ((srv1, w1), resp)"
  shows "w1 = w" and "deliverable resp"
    and "rs_Kind resp \<noteq> ResponseError \<Longrightarrow> live t (sv_store srv1) key = None"
    and "live t (sv_store srv1) k \<in> {None, live t (sv_store srv) k}"
proof -
  have d: "live t (fst (store_Delete (en_clock E w) key (sv_store srv))) = (live t (sv_store srv))(key := None)"
    by (rule cs.del_view) (use assms(1) in \<open>simp add: server_inv_def\<close>)
  consider "srv1 = srv" "rs_Kind resp = ResponseError" "deliverable resp" "w1 = w"
    | "w1 = w" "sv_store srv1 = fst (store_Delete (en_clock E w) key (sv_store srv))"
      "resp = Resp ResponseNotFound \<or> resp = Resp ResponseOK"
  proof (cases "manager_of srv")
    case None
    then show thesis using that(1) assms(2) texts_deliverable(3) by (auto simp: dispatchReplicaDelete_def)
  next
    case (Some m)
    then have st: "mg_store m = sv_store srv" using manager_of_Some by simp
    show thesis
    proof (cases "IsInReplicaSet m key")
      case True
      obtain s b where "store_Delete (en_clock E w) key (sv_store srv) = (s, b)" by fastforce
      then show thesis
        using that(2) assms(2) Some True st by (cases b) (auto simp: dispatchReplicaDelete_def ApplyReplicaDelete_def mg_Delete_def)
    next
      case False
      then show thesis
        using that(1) assms(2) Some texts_deliverable(4) with_manager_id [OF Some]
        by (auto simp: dispatchReplicaDelete_def ApplyReplicaDelete_def)
    qed
  qed
  note cases = this
  show "w1 = w" by (cases rule: cases)
  show "deliverable resp" using texts_deliverable(1,2) by (cases rule: cases) auto
  show "live t (sv_store srv1) key = None" if "rs_Kind resp \<noteq> ResponseError"
    using d that by (cases rule: cases) auto
  show "live t (sv_store srv1) k \<in> {None, live t (sv_store srv) k}" using d by (cases rule: cases) auto
qed

section \<open>The network of replicas\<close>

lemma held_with_server:
  "held_at (with_server addr srv w) a = (if a = addr then live (wd_now w) (sv_store srv) else held_at w a)"
  by (rule ext) (simp add: held_at_def with_server_def update_conv' split: option.split)

lemma world_inv_with_server:
  assumes "world_inv base w" and "map_of (wd_servers w) addr = Some srv0" and "server_inv srv"
    and "\<And>k v. live (wd_now w) (sv_store srv) k = Some v \<Longrightarrow> int (length v) \<le> maxAlloc"
  shows "world_inv base (with_server addr srv w)"
proof -
  have "\<forall>s\<in>ran (map_of (wd_servers (with_server addr srv w))). server_inv s"
    using assms(1,3) by (auto simp: world_inv_def with_server_def update_conv' ran_def)
  moreover have "int (length v) \<le> maxAlloc" if "held_at (with_server addr srv w) a k = Some v" for a k v
    using that assms(1,4) by (auto simp: held_with_server world_inv_def split: if_splits)
  ultimately show ?thesis using assms(1) by (simp add: world_inv_def with_server_def)
qed

lemma world_held:
  assumes "world_inv base w" and "map_of (wd_servers w) addr = Some srv" and "live (wd_now w) (sv_store srv) k = Some v"
  shows "int (length v) \<le> maxAlloc"
  using assms unfolding world_inv_def held_at_def by (metis option.simps(5))

definition req_set :: "string \<Rightarrow> bytes \<Rightarrow> duration \<Rightarrow> Request" where
  "req_set key v ttl = \<lparr>rq_Command = CommandReplSet, rq_Key = key, rq_Value = Some v, rq_TTL = ttl\<rparr>"

definition req_key :: "string \<Rightarrow> string \<Rightarrow> Request" where
  "req_key cmd key = \<lparr>rq_Command = cmd, rq_Key = key, rq_Value = None, rq_TTL = 0\<rparr>"

lemma request_of_calls:
  "\<lparr>rq_Command = CommandReplSet, rq_Key = key, rq_Value = Some v, rq_TTL = ttl\<rparr> = req_set key v ttl"
  "empty_Request\<lparr>rq_Command := c, rq_Key := key\<rparr> = req_key c key"
  by (simp_all add: req_set_def req_key_def)

lemma req_sendable:
  "key_ok key \<Longrightarrow> ttl < 2 ^ 63 \<Longrightarrow> int (length v) \<le> maxAlloc \<Longrightarrow> sendable (req_set key v ttl)"
  "key_ok key \<Longrightarrow> sendable (req_key CommandReplGet key)" "key_ok key \<Longrightarrow> sendable (req_key CommandReplDelete key)"
  by (simp_all add: sendable_def req_set_def req_key_def key_ok_def known_commands_def command_defs keyless_def setlike_def valued_def)

lemma req_received:
  "rq_Command (received (req_set key v ttl)) = CommandReplSet" "rq_Key (received (req_set key v ttl)) = key"
  "rq_Value (received (req_set key v ttl)) = Some v"
  "received (req_key CommandReplGet key) = req_key CommandReplGet key" "received (req_key CommandReplDelete key) = req_key CommandReplDelete key"
  by (simp_all add: received_def req_set_def req_key_def keyless_def setlike_def valued_def command_defs)

lemma req_key_fields [simp]: "rq_Command (req_key c key) = c" "rq_Key (req_key c key) = key"
  by (simp_all add: req_key_def)

text \<open>The three calls of a peer, at a server of the world.\<close>

lemma ReplicateSet_world:
  assumes w: "world_inv base w" and k: "key_ok key" "ttl < 2 ^ 63" "int (length v) \<le> maxAlloc"
    and c: "ReplicateSet (cluster_net base (Suc n)) p ctx addr key (Some v) ttl w = Some (w', err)"
  shows "world_inv base w'" and "wd_now w' = wd_now w" and "a \<noteq> addr \<Longrightarrow> held_at w' a = held_at w a"
    and "err = None \<Longrightarrow> held_at w' addr key = Some v"
proof -
  let ?req = "req_set key v ttl" and ?E = "world_env base n"
  let ?d = "\<lambda>srv. dispatchReplicaSet ?E (received ?req) (srv, w)"
  have clk: "en_clock ?E w = wd_now w" by (simp add: world_env_def)
  have pos: "0 < en_clock ?E w" using w clk by (simp add: world_inv_def)
  obtain r where rt: "roundTrip (cluster_net base (Suc n)) p ctx addr ?req w = Some (w', r)" "err = err_of r"
    using c by (auto simp: ReplicateSet_def request_of_calls bind_eq_Some_conv)
  have ans: "answered_by base n ?req srv w (fst (fst (?d srv))) (snd (?d srv))" if "server_inv srv" for srv
  proof -
    obtain srv1 w1 resp where d: "?d srv = ((srv1, w1), resp)" by (metis prod.collapse)
    show ?thesis
      using d dispatchReplicaSet_outcome(1,2) [OF that pos req_received(3) d] dispatchReplica_inv(1) [OF that, of ?E "received ?req" w]
      by (simp add: answered_by_def dispatch_commands(4) req_received served_def)
  qed
  from roundTrip_world [OF w req_sendable(1) [OF k] ans rt(1)]
  consider "w' = w" "err \<noteq> None"
    | srv reg where "map_of (wd_servers w) addr = Some srv" "server_inv srv" "server_inv ((fst (fst (?d srv)))\<lparr>sv_metrics := reg\<rparr>)"
      "w' = with_server addr ((fst (fst (?d srv)))\<lparr>sv_metrics := reg\<rparr>) w" "err = None \<longleftrightarrow> rs_Kind (snd (?d srv)) \<noteq> ResponseError"
    using rt(2) by (fastforce simp: err_of_def split: if_splits)
  note cases = this
  have st: "live t (sv_store (fst (fst (?d srv)))) k \<in> {None, Some v, live t (sv_store srv) k}"
    "rs_Kind (snd (?d srv)) \<noteq> ResponseError \<Longrightarrow> live (wd_now w) (sv_store (fst (fst (?d srv)))) key = Some v" if "server_inv srv" for srv t k
  proof -
    obtain srv1 w1 resp where d: "?d srv = ((srv1, w1), resp)" by (metis prod.collapse)
    note o = dispatchReplicaSet_outcome [OF that pos req_received(3) d]
    have "0 < rq_TTL (received ?req) \<longrightarrow> wd_now w < en_clock ?E w + rq_TTL (received ?req)" by (simp add: clk)
    then show "rs_Kind (snd (?d srv)) \<noteq> ResponseError \<Longrightarrow> live (wd_now w) (sv_store (fst (fst (?d srv)))) key = Some v"
      using o(3) [of "wd_now w"] d by (simp add: req_received)
    show "live t (sv_store (fst (fst (?d srv)))) k \<in> {None, Some v, live t (sv_store srv) k}" using o(4) d by simp
  qed
  show "world_inv base w'"
  proof (cases rule: cases)
    case (2 srv reg)
    show ?thesis unfolding 2(4)
    proof (rule world_inv_with_server [OF w 2(1,3)])
      fix k' u
      assume "live (wd_now w) (sv_store ((fst (fst (?d srv)))\<lparr>sv_metrics := reg\<rparr>)) k' = Some u"
      then have "u = v \<or> live (wd_now w) (sv_store srv) k' = Some u" using st(1) [OF 2(2), of "wd_now w" k'] by auto
      then show "int (length u) \<le> maxAlloc" using world_held [OF w 2(1)] k(3) by auto
    qed
  qed (use w in simp)
  show "wd_now w' = wd_now w" by (cases rule: cases) (simp_all add: with_server_def)
  show "held_at w' a = held_at w a" if "a \<noteq> addr" using that by (cases rule: cases) (simp_all add: held_with_server)
  show "held_at w' addr key = Some v" if "err = None"
    using that st(2) by (cases rule: cases) (simp_all add: held_with_server)
qed

lemma peer_Get_world:
  assumes w: "world_inv base w" and k: "key_ok key" and c: "peer_Get (cluster_net base (Suc n)) p ctx addr key w = Some (w', rr)"
  shows "world_inv base w'" and "wd_now w' = wd_now w" and "held_at w' = held_at w" and "rr = Inr x \<Longrightarrow> x = held_at w addr key"
proof -
  let ?req = "req_key CommandReplGet key" and ?E = "world_env base n"
  let ?d = "\<lambda>srv. dispatchReplicaGet ?E key (srv, w)"
  have clk: "en_clock ?E w = wd_now w" by (simp add: world_env_def)
  define res where "res = (\<lambda>r :: peer_error + Response. case r of Inl err \<Rightarrow> Inl err
    | Inr resp \<Rightarrow> (case rs_Kind resp of ResponseValue \<Rightarrow> Inr (Some (rs_Value resp)) | ResponseNotFound \<Rightarrow> Inr None
       | k \<Rightarrow> Inl (UnexpectedGet k)))"
  obtain r where rt: "roundTrip (cluster_net base (Suc n)) p ctx addr ?req w = Some (w', r)" "rr = res r"
    using c unfolding peer_Get_def request_of_calls by (auto simp: bind_eq_Some_conv res_def)
  have out: "snd (fst (?d srv)) = w" "deliverable (snd (?d srv))" "live (wd_now w) (sv_store (fst (fst (?d srv)))) = live (wd_now w) (sv_store srv)"
    "rs_Kind (snd (?d srv)) = ResponseError \<or>
      snd (?d srv) = (case live (wd_now w) (sv_store srv) key of None \<Rightarrow> Resp ResponseNotFound | Some v \<Rightarrow> value_response v)"
    if "map_of (wd_servers w) addr = Some srv" "server_inv srv" for srv
  proof -
    obtain srv1 w1 resp where d: "?d srv = ((srv1, w1), resp)" by (metis prod.collapse)
    have "int (length v) \<le> maxAlloc" if "live (en_clock ?E w) (sv_store srv) key = Some v" for v
      using world_held [OF w \<open>map_of (wd_servers w) addr = Some srv\<close>] that clk by simp
    note o = dispatchReplicaGet_outcome [OF that(2) d this]
    show "snd (fst (?d srv)) = w" "deliverable (snd (?d srv))" "live (wd_now w) (sv_store (fst (fst (?d srv)))) = live (wd_now w) (sv_store srv)"
      "rs_Kind (snd (?d srv)) = ResponseError \<or>
      snd (?d srv) = (case live (wd_now w) (sv_store srv) key of None \<Rightarrow> Resp ResponseNotFound | Some v \<Rightarrow> value_response v)"
      using o d clk by simp_all
  qed
  have ans: "answered_by base n ?req srv w (fst (fst (?d srv))) (snd (?d srv))"
    if "map_of (wd_servers w) addr = Some srv" "server_inv srv" for srv
    using out(1,2) [OF that] dispatchReplica_inv(3) [OF that(2), of ?E key w]
    by (simp add: answered_by_def dispatch_commands(5) req_received served_def prod_eq_iff)
  from roundTrip_world [OF w req_sendable(2) [OF k] ans rt(1)]
  consider "w' = w" "\<And>x. rr \<noteq> Inr x"
    | srv reg where "map_of (wd_servers w) addr = Some srv" "server_inv srv" "server_inv ((fst (fst (?d srv)))\<lparr>sv_metrics := reg\<rparr>)"
      "w' = with_server addr ((fst (fst (?d srv)))\<lparr>sv_metrics := reg\<rparr>) w"
      "r = (if rs_Kind (snd (?d srv)) = ResponseError then Inl (RemoteError (rs_Message (delivered (snd (?d srv))))) else Inr (delivered (snd (?d srv))))"
    using rt(2) by (auto simp: res_def)
  note cases = this
  show "world_inv base w'"
  proof (cases rule: cases)
    case (2 srv reg)
    show ?thesis unfolding 2(4)
      by (rule world_inv_with_server [OF w 2(1,3)]) (use out(3) [OF 2(1,2)] world_held [OF w 2(1)] in simp)
  qed (use w in simp)
  show "wd_now w' = wd_now w" by (cases rule: cases) (simp_all add: with_server_def)
  show "held_at w' = held_at w"
  proof (cases rule: cases)
    case (2 srv reg)
    then show ?thesis using out(3) [OF 2(1,2)] by (auto simp: fun_eq_iff held_with_server held_at_def)
  qed simp
  show "x = held_at w addr key" if "rr = Inr x"
  proof (cases rule: cases)
    case (2 srv reg)
    have "rs_Kind (snd (?d srv)) \<noteq> ResponseError" using 2(5) rt(2) that by (auto simp: res_def)
    then have "snd (?d srv) = (case live (wd_now w) (sv_store srv) key of None \<Rightarrow> Resp ResponseNotFound | Some v \<Rightarrow> value_response v)"
      using out(4) [OF 2(1,2)] by blast
    then show ?thesis
      using 2(1,5) rt(2) that by (cases "live (wd_now w) (sv_store srv) key") (auto simp: res_def held_at_def delivered_def value_response_def)
  qed (use that in blast)
qed

lemma ReplicateDelete_world:
  assumes w: "world_inv base w" and k: "key_ok key" and c: "ReplicateDelete (cluster_net base (Suc n)) p ctx addr key w = Some (w', err)"
  shows "world_inv base w'" and "wd_now w' = wd_now w" and "a \<noteq> addr \<Longrightarrow> held_at w' a = held_at w a"
    and "err = None \<Longrightarrow> held_at w' addr key = None"
proof -
  let ?req = "req_key CommandReplDelete key" and ?E = "world_env base n"
  let ?d = "\<lambda>srv. dispatchReplicaDelete ?E key (srv, w)"
  obtain r where rt: "roundTrip (cluster_net base (Suc n)) p ctx addr ?req w = Some (w', r)" "err = err_of r"
    using c unfolding ReplicateDelete_def request_of_calls by (auto simp: bind_eq_Some_conv)
  have out: "snd (fst (?d srv)) = w" "deliverable (snd (?d srv))"
    "rs_Kind (snd (?d srv)) \<noteq> ResponseError \<Longrightarrow> live t (sv_store (fst (fst (?d srv)))) key = None"
    "live t (sv_store (fst (fst (?d srv)))) k' \<in> {None, live t (sv_store srv) k'}" if "server_inv srv" for srv t k'
  proof -
    obtain srv1 w1 resp where d: "?d srv = ((srv1, w1), resp)" by (metis prod.collapse)
    note o = dispatchReplicaDelete_outcome [OF that d]
    show "snd (fst (?d srv)) = w" "deliverable (snd (?d srv))"
      "rs_Kind (snd (?d srv)) \<noteq> ResponseError \<Longrightarrow> live t (sv_store (fst (fst (?d srv)))) key = None"
      "live t (sv_store (fst (fst (?d srv)))) k' \<in> {None, live t (sv_store srv) k'}" using o d by simp_all
  qed
  have ans: "answered_by base n ?req srv w (fst (fst (?d srv))) (snd (?d srv))" if "server_inv srv" for srv
    using out(1,2) [OF that] dispatchReplica_inv(2) [OF that, of ?E key w]
    by (simp add: answered_by_def dispatch_commands(6) req_received served_def prod_eq_iff)
  from roundTrip_world [OF w req_sendable(3) [OF k] ans rt(1)]
  consider "w' = w" "err \<noteq> None"
    | srv reg where "map_of (wd_servers w) addr = Some srv" "server_inv srv" "server_inv ((fst (fst (?d srv)))\<lparr>sv_metrics := reg\<rparr>)"
      "w' = with_server addr ((fst (fst (?d srv)))\<lparr>sv_metrics := reg\<rparr>) w" "err = None \<longleftrightarrow> rs_Kind (snd (?d srv)) \<noteq> ResponseError"
    using rt(2) by (fastforce simp: err_of_def split: if_splits)
  note cases = this
  show "world_inv base w'"
  proof (cases rule: cases)
    case (2 srv reg)
    show ?thesis unfolding 2(4)
    proof (rule world_inv_with_server [OF w 2(1,3)])
      fix k' u
      assume "live (wd_now w) (sv_store ((fst (fst (?d srv)))\<lparr>sv_metrics := reg\<rparr>)) k' = Some u"
      then have "live (wd_now w) (sv_store srv) k' = Some u" using out(4) [OF 2(2), of "wd_now w" k'] by auto
      then show "int (length u) \<le> maxAlloc" using world_held [OF w 2(1)] by auto
    qed
  qed (use w in simp)
  show "wd_now w' = wd_now w" by (cases rule: cases) (simp_all add: with_server_def)
  show "held_at w' a = held_at w a" if "a \<noteq> addr" using that by (cases rule: cases) (simp_all add: held_with_server)
  show "held_at w' addr key = None" if "err = None"
    using that out(3) by (cases rule: cases) (simp_all add: held_with_server)
qed

text \<open>A replica that is up, holds the key's replica set and has room acknowledges.\<close>

lemma ReplicateSet_up:
  assumes w: "world_inv base w" and k: "key_ok key" "ttl < 2 ^ 63" "int (length v) \<le> maxAlloc"
    and srv: "map_of (wd_servers w) addr = Some srv" "addr \<notin> set (wd_down w)" "manager_of srv = Some m" "IsInReplicaSet m key"
    and room: "snd (store_Set (wd_now w) key v (rq_TTL (received (req_set key v ttl))) (sv_store srv)) = None"
  obtains w' srv' m' where "ReplicateSet (cluster_net base (Suc n)) p ctx addr key (Some v) ttl w = Some (w', None)"
    "map_of (wd_servers w') addr = Some srv'" "manager_of srv' = Some m'" "mg_cluster m' = mg_cluster m" "mg_cfg m' = mg_cfg m"
    "wd_down w' = wd_down w"
proof -
  let ?req = "req_set key v ttl" and ?E = "world_env base n"
  have inv: "server_inv srv" using w srv(1) by (auto simp: world_inv_def intro: ranI)
  define m1 where "m1 = fst (mg_Set (wd_now w) key (Some v) (rq_TTL (received ?req)) m)"
  have d: "dispatchReplicaSet ?E (received ?req) (srv, w) = ((with_manager m1 srv, w), Resp ResponseOK)"
  proof -
    obtain st where "store_Set (wd_now w) key v (rq_TTL (received ?req)) (sv_store srv) = (st, None)" using room by (metis prod.collapse)
    then show ?thesis
      using srv(3,4) manager_of_Some [OF srv(3)]
      by (simp add: dispatchReplicaSet_def ApplyReplicaSet_def mg_Set_def m1_def world_env_def req_received)
  qed
  have "server_inv (with_manager m1 srv)" using dispatchReplica_inv(1) [OF inv, of ?E "received ?req" w] d by simp
  then have ans: "answered_by base n ?req srv w (with_manager m1 srv) (Resp ResponseOK)"
    using d texts_deliverable(1) by (simp add: answered_by_def dispatch_commands(4) req_received served_def)
  have m1: "mg_cluster m1 = mg_cluster m" "mg_cfg m1 = mg_cfg m" by (simp_all add: m1_def mg_Set_def split: prod.split)
  obtain reg where "roundTrip (cluster_net base (Suc n)) p ctx addr ?req w =
      Some (with_server addr ((with_manager m1 srv)\<lparr>sv_metrics := reg\<rparr>) w, Inr (delivered (Resp ResponseOK)))"
    using roundTrip_up [OF w req_sendable(1) [OF k] srv(1,2) ans, of p ctx] by auto
  then show thesis
    using that [of "with_server addr ((with_manager m1 srv)\<lparr>sv_metrics := reg\<rparr>) w" "(with_manager m1 srv)\<lparr>sv_metrics := reg\<rparr>" m1]
      m1 srv(3)
    by (simp add: ReplicateSet_def request_of_calls err_of_def with_server_def update_conv' manager_of_def with_manager_def
        split: option.splits)
qed

lemma peer_Get_up:
  assumes w: "world_inv base w" and k: "key_ok key"
    and srv: "map_of (wd_servers w) addr = Some srv" "addr \<notin> set (wd_down w)" "manager_of srv = Some m" "IsInReplicaSet m key"
  obtains w' where "peer_Get (cluster_net base (Suc n)) p ctx addr key w = Some (w', Inr (held_at w addr key))"
proof -
  let ?req = "req_key CommandReplGet key" and ?E = "world_env base n"
  have inv: "server_inv srv" using w srv(1) by (auto simp: world_inv_def intro: ranI)
  have clk: "en_clock ?E w = wd_now w" by (simp add: world_env_def)
  define resp where "resp = (case held_at w addr key of None \<Rightarrow> Resp ResponseNotFound | Some v \<Rightarrow> value_response v)"
  define srv1 where "srv1 = srv\<lparr>sv_store := fst (store_Get (wd_now w) key (sv_store srv))\<rparr>"
  have d: "dispatchReplicaGet ?E key (srv, w) = ((srv1, w), resp)"
    using srv store_Get_live [of "wd_now w" key "sv_store srv"] clk
    by (simp add: dispatchReplicaGet_def Let_def resp_def srv1_def held_at_def split_def)
  have "server_inv srv1" using dispatchReplica_inv(3) [OF inv, of ?E key w] d by simp
  moreover have "deliverable resp"
    using w by (auto simp: resp_def deliverable_def value_response_def Resp_def world_inv_def split: option.split)
  ultimately have ans: "answered_by base n ?req srv w srv1 resp"
    using d by (simp add: answered_by_def dispatch_commands(5) req_received served_def)
  have ne: "rs_Kind resp \<noteq> ResponseError" by (simp add: resp_def split: option.split)
  obtain w' where "roundTrip (cluster_net base (Suc n)) p ctx addr ?req w = Some (w', Inr (delivered resp))"
    using roundTrip_up [OF w req_sendable(2) [OF k] srv(1,2) ans, of p ctx] ne by auto
  then show thesis
    using that unfolding peer_Get_def request_of_calls
    by (cases "held_at w addr key") (auto simp: resp_def delivered_def value_response_def)
qed

interpretation cw: replica_net "cluster_net base (Suc n)" "world_inv base" held_at key_ok for base n
proof unfold_locales
  fix w w' :: World and key addr :: string and ttl :: duration and v :: bytes and p ctx err
  assume w: "world_inv base w" "key_ok key"
  {
    assume k: "ttl < 2 ^ 63" "int (length v) \<le> maxAlloc"
    show "held_at w' addr key = Some v" if "ReplicateSet (cluster_net base (Suc n)) p ctx addr key (Some v) ttl w = Some (w', None)"
      using ReplicateSet_world [OF w k that] by blast
    show "world_inv base w' \<and> clock (cluster_net base (Suc n)) w' = clock (cluster_net base (Suc n)) w \<and>
        (\<forall>a. a \<noteq> addr \<longrightarrow> held_at w' a = held_at w a)"
      if "ReplicateSet (cluster_net base (Suc n)) p ctx addr key (Some v) ttl w = Some (w', err)"
      using ReplicateSet_world [OF w k that] by simp
  }
  show "r = held_at w addr key" if "peer_Get (cluster_net base (Suc n)) p ctx addr key w = Some (w', Inr r)" for r
    using peer_Get_world(4) [OF w that refl] .
  show "world_inv base w' \<and> clock (cluster_net base (Suc n)) w' = clock (cluster_net base (Suc n)) w \<and> held_at w' = held_at w"
    if "peer_Get (cluster_net base (Suc n)) p ctx addr key w = Some (w', rr)" for rr
    using peer_Get_world(1-3) [OF w that] by simp
  show "held_at w' addr key = None" if "ReplicateDelete (cluster_net base (Suc n)) p ctx addr key w = Some (w', None)"
    using ReplicateDelete_world [OF w that] by blast
  show "world_inv base w' \<and> clock (cluster_net base (Suc n)) w' = clock (cluster_net base (Suc n)) w \<and>
      (\<forall>a. a \<noteq> addr \<longrightarrow> held_at w' a = held_at w a)"
    if "ReplicateDelete (cluster_net base (Suc n)) p ctx addr key w = Some (w', err)"
    using ReplicateDelete_world [OF w that] by simp
qed

section \<open>Writes and reads through the servers\<close>

abbreviation set_request :: "string \<Rightarrow> bytes \<Rightarrow> duration \<Rightarrow> Request" where
  "set_request key v ttl \<equiv> \<lparr>rq_Command = CommandSet, rq_Key = key, rq_Value = Some v, rq_TTL = ttl\<rparr>"

abbreviation get_request :: "string \<Rightarrow> Request" where
  "get_request key \<equiv> \<lparr>rq_Command = CommandGet, rq_Key = key, rq_Value = None, rq_TTL = 0\<rparr>"

text \<open>The server counts every node of a list as healthy.\<close>

definition all_healthy :: "Server \<Rightarrow> Node list \<Rightarrow> bool" where
  "all_healthy srv ns =
     (case sv_repl srv of None \<Rightarrow> False | Some (_, h, _) \<Rightarrow> list_all (\<lambda>n. IsHealthy (nd_ID n) h) ns)"

lemma all_healthyD: "manager_of srv = Some m \<Longrightarrow> all_healthy srv ns \<Longrightarrow> n \<in> set ns \<Longrightarrow> IsHealthy (nd_ID n) (mg_health m)"
  by (auto simp: manager_of_def all_healthy_def list_all_iff split: option.splits)

lemma manager_of_with: "manager_of srv = Some m \<Longrightarrow> manager_of (with_manager m' srv) = Some m'"
  by (simp add: manager_of_def with_manager_def)

lemma set_accepted:
  assumes "active_manager srv = Some m" and "dispatch E ctx (set_request key v ttl) (srv, w) = Some ((srv1, w1), ms, resp)"
    and "rs_Kind resp = ResponseOK"
  obtains m1 where "WriteSet (en_net E) (en_sched E w) ctx key (Some v) ttl (m, w) = Some ((m1, w1), None)" "srv1 = with_manager m1 srv"
proof -
  have "checkWriteRouting srv key = None"
    using assms by (auto simp: dispatch_commands(1) served_def checkWriteRouting_def redirectToPrimary_def split: option.splits if_splits)
  then have "dispatchSet E ctx (set_request key v ttl) (srv, w) = Some ((srv1, w1), ms, resp)"
    using assms(2) by (simp add: dispatch_commands(1))
  then obtain m1 err where "WriteSet (en_net E) (en_sched E w) ctx key (Some v) ttl (m, w) = Some ((m1, w1), err)" "srv1 = with_manager m1 srv"
    "resp = (case err of Some e \<Rightarrow> error_response (repl_error_text (en_quote E) e) | None \<Rightarrow> Resp ResponseOK)"
    using assms(1) by (auto simp: dispatchSet_def bind_eq_Some_conv)
  then show thesis using that assms(3) by (cases err) auto
qed

lemma get_answered:
  assumes "active_manager srv = Some m" and "IsInReplicaSet m key"
    and "dispatch E ctx (get_request key) (srv, w) = Some ((srv1, w1), ms, resp)"
  obtains m1 r where "manager_Read (en_net E) (en_sched E w) ctx key (m, w) = Some ((m1, w1), r)" "srv1 = with_manager m1 srv"
    "\<And>v. r = Inr (Some v) \<Longrightarrow> resp = value_response v"
proof -
  have "checkReadRouting srv key = None" using assms(1,2) by (simp add: checkReadRouting_def)
  then have "dispatchGet E ctx key (srv, w) = Some ((srv1, w1), ms, resp)" using assms(3) by (simp add: dispatch_commands(3))
  then show thesis using that assms(1) by (auto simp: dispatchGet_def bind_eq_Some_conv)
qed

lemma replica_owners:
  assumes "cluster_inv (mg_cluster m)" and "manager_Enabled m" and "replicaSet m key = Inr owners" and "IsPrimary m key"
  obtains p where "p \<in> set owners" "nd_ID p = SelfID (mg_cluster m)"
    and "distinct (map nd_ID owners)" and "int (length owners) \<le> rp_ReplicationFactor (mg_cfg m)"
proof -
  have os: "Owners (mg_cluster m) key (rp_ReplicationFactor (mg_cfg m)) = Inr owners"
    using assms(2,3) by (simp add: replicaSet_def manager_Enabled_def)
  have "owners \<noteq> [] \<and> Owner (mg_cluster m) key = Some (hd owners)" by (rule cv.owners_primary [OF assms(1) os])
  then show thesis
    using that [of "hd owners"] assms(4) cv.owners_distinct [OF assms(1) os] cv.owners_bound [OF assms(1) os]
    by (auto simp: IsPrimary_def)
qed

text \<open>
  The managers of a cluster: after an acknowledged quorum write, a quorum read that all replicas answer finds
  the value written, since the holders of the value and the replies meet in a read quorum.
\<close>

lemma quorum_write_read:
  assumes w1: "WriteSet (cluster_net base (Suc n)) (en_sched base w) ctx key (Some v) ttl (m, w) = Some ((m1, w1), None)"
    and inv: "world_inv base w" "store_inv (mg_store m)" "cluster_inv (mg_cluster m)" "manager_Enabled m"
    and rs: "replicaSet m key = Inr owners" "distinct (map nd_Addr owners)"
    and cons: "rp_WriteConsistency (mg_cfg m) = WriteQuorum" "rp_ReadConsistency (mg_cfg m) = ReadQuorum"
    and quorums: "1 \<le> rp_ReadQuorum (mg_cfg m)" "rp_ReadQuorum (mg_cfg m) \<le> rp_WriteQuorum (mg_cfg m)" "1 < rp_WriteQuorum (mg_cfg m)"
      "rp_ReplicationFactor (mg_cfg m) < rp_WriteQuorum (mg_cfg m) + rp_ReadQuorum (mg_cfg m)"
    and req: "key_ok key" "ttl < 2 ^ 63" "int (length v) \<le> maxAlloc"
    and sched: "\<And>w xs. mset (run_order (en_sched base w) xs) = mset xs" "ctx_ends (en_sched base w1) = None"
  shows "mg_cfg m1 = mg_cfg m" "mg_cluster m1 = mg_cluster m" "IsPrimary m key" "IsInReplicaSet m1 key"
    "manager_Read (cluster_net base (Suc n)) (en_sched base w1) ctx' key (m1, w1) = Some ((m2, w2), r) \<Longrightarrow>
     (\<And>x. x \<in> set owners \<Longrightarrow> IsHealthy (nd_ID x) (mg_health m1) \<and> IsHealthy (nd_ID x) (mg_health m2)) \<Longrightarrow> r = Inr (Some v)"
proof -
  let ?nw = "cluster_net base (Suc n)"
  have acks: "RequiredWriteAcks (mg_cfg m) = rp_WriteQuorum (mg_cfg m) - 1"
    using cons(1) quorums(3) by (simp add: RequiredWriteAcks_def consistency_defs)
  have pos: "0 < clock ?nw w" using inv(1) by (simp add: world_inv_def)
  have ne: "RequiredWriteAcks (mg_cfg m) \<noteq> 0" using acks quorums(3) by simp
  obtain A where A: "A \<subseteq> set owners" "RequiredWriteAcks (mg_cfg m) \<le> int (card A)"
    "\<And>n. n \<in> A \<Longrightarrow> nd_ID n \<noteq> SelfID (mg_cluster m) \<and> held_at w1 (nd_Addr n) key = Some v"
    "world_inv base w1" "IsPrimary m key" "mg_cfg m1 = mg_cfg m" "mg_cluster m1 = mg_cluster m" "store_inv (mg_store m1)"
    "clock ?nw w1 = clock ?nw w" "\<And>t. live t (mg_store m1) key = (if 0 < ttl \<and> clock ?nw w + ttl \<le> t then None else Some v)"
    using cw.WriteSet_held [OF w1 inv(1) req inv(4) ne rs inv(2) pos sched(1)] by metis
  show "mg_cfg m1 = mg_cfg m" "mg_cluster m1 = mg_cluster m" "IsPrimary m key" by (fact A)+
  show in1: "IsInReplicaSet m1 key"
  proof (rule primary_in_replica_set)
    show "cluster_inv (mg_cluster m1)" using inv(3) A(7) by simp
    show "IsPrimary m1 key" using A(5) unfolding IsPrimary_def A(7) .
    show "manager_Enabled m1" using inv(4) A(6) by (simp add: manager_Enabled_def)
  qed
  obtain p where p: "p \<in> set owners" "nd_ID p = SelfID (mg_cluster m)" and d: "distinct (map nd_ID owners)"
    and len: "int (length owners) \<le> rp_ReplicationFactor (mg_cfg m)"
    by (rule replica_owners [OF inv(3,4) rs(1) A(5)])
  have rs1: "replicaSet m1 key = Inr owners" using rs(1) unfolding replicaSet_def A(6,7) .
  have card: "card (insert p A) = card A + 1"
    using A(1,3) p(2) finite_subset [OF A(1)] by (subst card_insert_disjoint) auto
  show "r = Inr (Some v)" if read: "manager_Read ?nw (en_sched base w1) ctx' key (m1, w1) = Some ((m2, w2), r)"
    and healthy: "\<And>x. x \<in> set owners \<Longrightarrow> IsHealthy (nd_ID x) (mg_health m1) \<and> IsHealthy (nd_ID x) (mg_health m2)"
  proof (rule cw.manager_Read_held [OF read A(4) req(1) A(8) in1 _ sched(2,1) rs1 d healthy, where H = "insert p A"])
    show "rp_ReadConsistency (mg_cfg m1) = ReadQuorum" using cons(2) A(6) by simp
    show "insert p A \<subseteq> set owners" using A(1) p(1) by simp
    show "(if nd_ID x = SelfID (mg_cluster m1) then live (clock ?nw w1) (mg_store m1) key else held_at w1 (nd_Addr x) key) = Some v"
      if "x \<in> insert p A" for x using that A(3,7,9,10) p(2) by auto
    show "1 \<le> rp_ReadQuorum (mg_cfg m1)" "rp_ReadQuorum (mg_cfg m1) \<le> int (card (insert p A))"
      "int (length owners) < rp_ReadQuorum (mg_cfg m1) + int (card (insert p A))"
      using quorums A(2,6) acks card len by simp_all
  qed
qed

section \<open>Properties\<close>

text \<open>
  C1: A quorum read sees the last quorum write. In a cluster of servers connected by their wire protocol,
  with write and read consistency \<open>quorum\<close>, quorums that overlap (their sum exceeds the replication factor)
  and a read quorum no larger than the write quorum: when the primary of a key has answered \<open>OK\<close> to a
  \<open>SET\<close>, a \<open>GET\<close> that it then serves returns the value written, whatever the replicas held before, whichever
  of them missed the write and in whichever order they are asked, provided they all answer the read.
\<close>

theorem write_then_read:
  fixes base :: "World server_env" and n :: nat and srv srv1 srv2 :: Server
  defines "E \<equiv> world_env base (Suc n)"
  assumes inv: "world_inv base w" "server_inv srv" and m: "active_manager srv = Some m" "replicaSet m key = Inr owners" "distinct (map nd_Addr owners)"
    and cons: "rp_WriteConsistency (mg_cfg m) = WriteQuorum" "rp_ReadConsistency (mg_cfg m) = ReadQuorum"
    and quorums: "1 \<le> rp_ReadQuorum (mg_cfg m)" "rp_ReadQuorum (mg_cfg m) \<le> rp_WriteQuorum (mg_cfg m)" "1 < rp_WriteQuorum (mg_cfg m)"
      "rp_ReplicationFactor (mg_cfg m) < rp_WriteQuorum (mg_cfg m) + rp_ReadQuorum (mg_cfg m)"
    and req: "key_ok key" "ttl < 2 ^ 63" "int (length v) \<le> maxAlloc"
    and sched: "\<And>w xs. mset (run_order (en_sched base w) xs) = mset xs" "ctx_ends (en_sched base w1) = None"
    and set_ok: "dispatch E ctx (set_request key v ttl) (srv, w) = Some ((srv1, w1), ms, resp)" "rs_Kind resp = ResponseOK"
    and get: "dispatch E ctx' (get_request key) (srv1, w1) = Some ((srv2, w2), ms', resp')"
    and healthy: "all_healthy srv1 owners" "all_healthy srv2 owners"
  shows "resp' = value_response v"
proof -
  let ?nw = "cluster_net base (Suc n)"
  have E: "en_net E = ?nw" "\<And>w. en_sched E w = en_sched base w" by (simp_all add: E_def world_env_def)
  note mo = active_manager_Some [OF m(1)]
  have st: "store_inv (mg_store m)" by (rule manager_store_inv [OF inv(2) conjunct1 [OF mo]])
  have cl: "cluster_inv (mg_cluster m)" using inv(2) active_manager_cluster [OF m(1)] by (simp add: server_inv_def)
  obtain m1 where w1: "WriteSet ?nw (en_sched base w) ctx key (Some v) ttl (m, w) = Some ((m1, w1), None)" "srv1 = with_manager m1 srv"
    using set_accepted [OF m(1) set_ok] E by metis
  note qwr = quorum_write_read [OF w1(1) inv(1) st cl conjunct2 [OF mo] m(2,3) cons quorums req sched]
  have m1: "manager_of srv1 = Some m1" using manager_of_with [OF conjunct1 [OF mo]] w1(2) by simp
  then have am1: "active_manager srv1 = Some m1" using mo qwr(1) by (simp add: active_manager_def manager_Enabled_def)
  obtain m2 r where r: "manager_Read ?nw (en_sched base w1) ctx' key (m1, w1) = Some ((m2, w2), r)" "srv2 = with_manager m2 srv1"
    "\<And>v. r = Inr (Some v) \<Longrightarrow> resp' = value_response v"
    using get_answered [OF am1 qwr(4) get] E by metis
  have m2: "manager_of srv2 = Some m2" using manager_of_with [OF m1] r(2) by simp
  have "r = Inr (Some v)"
    by (rule qwr(5) [OF r(1)]) (use all_healthyD [OF m1 healthy(1)] all_healthyD [OF m2 healthy(2)] in simp)
  then show ?thesis by (rule r(3))
qed

definition demo_base :: "World server_env" where
  "demo_base =
     \<lparr>en_net = cluster_net undefined 0, en_sched = (\<lambda>_. \<lparr>run_order = id, ctx_ends = None\<rparr>), en_raft = (\<lambda>_. demo_env),
      en_apply = (\<lambda>ent cv. (cv, [])), en_await = (\<lambda>_ s. (s, None)), en_write = (\<lambda>_ w. (w, None)), en_quote = id,
      un_RequestVote = (\<lambda>_. Inl ''json''), ma_RequestVote = (\<lambda>_. Inl ''json''), un_AppendEntries = (\<lambda>_. Inl ''json''),
      ma_AppendEntries = (\<lambda>_. Inl ''json''), ma_Status = (\<lambda>_. Inl ''json''), ma_Snapshot = (\<lambda>_. Inl ''json'')\<rparr>"

definition demo_world :: World where
  "demo_world = \<lparr>wd_now = 1, wd_servers = [(''h1:1'', demo_server ''n1'')], wd_down = []\<rparr>"

abbreviation demo_env2 :: "World server_env" where
  "demo_env2 \<equiv> world_env demo_base (Suc 0)"

lemma demo_facts:
  "manager_of (demo_server ''n2'') = Some demo_manager" "IsPrimary demo_manager ''k''" "replicaSet demo_manager ''k'' = Inr [demo_n2, demo_n1]"
  "snd (store_Set 1 ''k'' ''new'' 0 (mg_store demo_manager)) = None" "TrimSpace ''k'' = ''k''"
  "LookupN demo_ring ''k'' 2 = Inr [demo_n2, demo_n1]"
proof -
  have "replicaSet demo_manager ''k'' = Inr [demo_n2, demo_n1] \<and> IsPrimary demo_manager ''k''" by code_simp
  then show "IsPrimary demo_manager ''k''" and r: "replicaSet demo_manager ''k'' = Inr [demo_n2, demo_n1]" by blast+
  from r show "LookupN demo_ring ''k'' 2 = Inr [demo_n2, demo_n1]"
    by (simp add: replicaSet_def demo_manager_def repl_Enabled_def Owners_def)
  show "manager_of (demo_server ''n2'') = Some demo_manager" by (simp add: manager_of_def demo_server_def) (simp add: demo_manager_def)
  show "snd (store_Set 1 ''k'' ''new'' 0 (mg_store demo_manager)) = None" by code_simp
  show "TrimSpace ''k'' = ''k''" by code_simp
qed

lemma demo_in_replica_set:
  assumes "mg_cluster m = \<lparr>cl_ring = demo_ring, selfID = ''n1''\<rparr>" and "mg_cfg m = mg_cfg demo_manager"
  shows "IsInReplicaSet m ''k''"
proof -
  have "replicaSet m ''k'' = Inr [demo_n2, demo_n1]"
    using demo_facts(6) assms by (simp add: replicaSet_def demo_manager_def repl_Enabled_def Owners_def)
  then show ?thesis
    using assms by (simp add: IsInReplicaSet_def demo_n1_def SelfID_def manager_Enabled_def repl_Enabled_def demo_manager_def)
qed

lemma demo_world_inv: "world_inv demo_base demo_world"
proof -
  let ?st = "mg_store demo_manager"
  have "live t ?st k \<in> {None, Some ''old''}" for t k
  proof (cases "k = ''k''")
    case True
    have "(case store_Set 1 ''k'' ''old'' 0 (NewStore DefaultStoreConfig) of (_, None) \<Rightarrow> True | _ \<Rightarrow> False)" by code_simp
    then obtain st where "store_Set 1 ''k'' ''old'' 0 (NewStore DefaultStoreConfig) = (st, None)"
      by (cases "store_Set 1 ''k'' ''old'' 0 (NewStore DefaultStoreConfig)") (auto split: option.splits)
    then show ?thesis using store_Set_ok_live [OF NewStore_inv, of 1] True by (simp add: demo_manager_def)
  next
    case False
    then show ?thesis
      using store_Set_other_live [OF NewStore_inv [of DefaultStoreConfig] False, of t 1 "''old''" 0]
      by (auto simp: demo_manager_def live_def NewStore_def)
  qed
  then have "v = ''old''" if "live t ?st k = Some v" for t k v using that by (metis empty_iff insert_iff option.distinct(1) option.inject)
  moreover have "int (length ''old'') \<le> maxAlloc" by (simp add: maxAlloc_def)
  ultimately have "int (length v) \<le> maxAlloc" if "live t ?st k = Some v" for t k v using that by metis
  moreover have "sv_store (demo_server ''n1'') = ?st" by (simp add: demo_server_def)
  ultimately show ?thesis
    by (auto simp: world_inv_def demo_world_def demo_base_def held_at_def demo_server_inv split: if_splits option.splits)
qed

lemma demo_sched: "en_sched demo_base w = \<lparr>run_order = id, ctx_ends = None\<rparr>"
  by (simp add: demo_base_def)

lemma demo_set:
  "\<exists>m1 w1 srv1' m1'. WriteSet (cluster_net demo_base (Suc 0)) (en_sched demo_base demo_world) Background ''k'' (Some ''new'') 0
      (demo_manager, demo_world) = Some ((m1, w1), None) \<and> world_inv demo_base w1 \<and> wd_down w1 = [] \<and>
    mg_cluster m1 = mg_cluster demo_manager \<and> mg_cfg m1 = mg_cfg demo_manager \<and>
    IsHealthy ''n1'' (mg_health m1) \<and> IsHealthy ''n2'' (mg_health m1) \<and>
    map_of (wd_servers w1) ''h1:1'' = Some srv1' \<and> manager_of srv1' = Some m1' \<and> IsInReplicaSet m1' ''k''"
proof -
  let ?nw = "cluster_net demo_base (Suc 0)"
  have k: "key_ok ''k''" "(0 :: int) < 2 ^ 63" "int (length ''new'') \<le> maxAlloc"
    using demo_facts(5) by (simp_all add: key_ok_def maxAlloc_def)
  let ?m0 = "\<lparr>mg_cfg = mg_cfg demo_manager, mg_cluster = \<lparr>cl_ring = demo_ring, selfID = ''n1''\<rparr>, mg_store = mg_store demo_manager,
    mg_health = mg_health demo_manager, mg_peer = mg_peer demo_manager\<rparr>"
  have s0: "map_of (wd_servers demo_world) ''h1:1'' = Some (demo_server ''n1'')" "''h1:1'' \<notin> set (wd_down demo_world)"
    by (simp_all add: demo_world_def)
  have m0: "manager_of (demo_server ''n1'') = Some ?m0" by (simp add: manager_of_def demo_server_def)
  have i0: "IsInReplicaSet ?m0 ''k''" by (rule demo_in_replica_set) simp_all
  have room: "snd (store_Set (wd_now demo_world) ''k'' ''new'' (rq_TTL (received (req_set ''k'' ''new'' 0))) (sv_store (demo_server ''n1''))) = None"
    using demo_facts(4) by (simp add: demo_world_def demo_server_def received_def req_set_def)
  obtain w1 srv1' m1' where r: "ReplicateSet ?nw (mg_peer demo_manager) Background ''h1:1'' ''k'' (Some ''new'') 0 demo_world = Some (w1, None)"
    "map_of (wd_servers w1) ''h1:1'' = Some srv1'" "manager_of srv1' = Some m1'" "mg_cluster m1' = mg_cluster ?m0" "mg_cfg m1' = mg_cfg ?m0"
    "wd_down w1 = wd_down demo_world"
    by (rule ReplicateSet_up [OF demo_world_inv k s0 m0 i0 room])
  obtain st where st: "store_Set 1 ''k'' ''new'' 0 (mg_store demo_manager) = (st, None)" using demo_facts(4) by (metis prod.collapse)
  define m1 where "m1 = mark ''n1'' (None :: peer_error option) (demo_manager\<lparr>mg_store := st\<rparr>)"
  have "WriteSet ?nw (en_sched demo_base demo_world) Background ''k'' (Some ''new'') 0 (demo_manager, demo_world) = Some ((m1, w1), None)"
    using demo_facts(2,3) st r(1) unfolding WriteSet_def m1_def
    by (simp add: demo_manager_def manager_Enabled_def repl_Enabled_def RequiredWriteAcks_def consistency_defs localSet_def mg_Set_def
        demo_world_def collectAcks_def demo_base_def setTargets_def demo_n1_def demo_n2_def SelfID_def setOn_def)
  moreover have "IsInReplicaSet m1' ''k''" by (rule demo_in_replica_set) (use r in simp_all)
  moreover have "world_inv demo_base w1" by (rule ReplicateSet_world(1) [OF demo_world_inv k r(1)])
  moreover have "wd_down w1 = []" using r(6) by (simp add: demo_world_def)
  moreover have "IsHealthy ''n1'' (mg_health m1)" "IsHealthy ''n2'' (mg_health m1)" "mg_cluster m1 = mg_cluster demo_manager"
    "mg_cfg m1 = mg_cfg demo_manager"
    by (simp_all add: m1_def mark_def demo_manager_def MarkHealthy_def IsHealthy_def NewHealthTracker_def)
  ultimately show ?thesis using r(2,3) by blast
qed


lemma demo_get:
  assumes w: "world_inv demo_base w1" "wd_down w1 = []" "map_of (wd_servers w1) ''h1:1'' = Some srv'" "manager_of srv' = Some m'" "IsInReplicaSet m' ''k''"
    and m: "mg_cluster m1 = mg_cluster demo_manager" "mg_cfg m1 = mg_cfg demo_manager"
      "IsHealthy ''n1'' (mg_health m1)" "IsHealthy ''n2'' (mg_health m1)"
  shows "\<exists>m2 w2 r. manager_Read (cluster_net demo_base (Suc 0)) (en_sched demo_base w1) Background ''k'' (m1, w1) = Some ((m2, w2), r) \<and>
    IsHealthy ''n1'' (mg_health m2) \<and> IsHealthy ''n2'' (mg_health m2)"
proof -
  let ?nw = "cluster_net demo_base (Suc 0)"
  have k: "key_ok ''k''" using demo_facts(5) by (simp add: key_ok_def)
  have rs: "replicaSet m1 ''k'' = Inr [demo_n2, demo_n1]" using demo_facts(3) unfolding replicaSet_def m .
  have self: "SelfID (mg_cluster m1) = ''n2''" unfolding m by (simp add: SelfID_def demo_manager_def)
  have rc: "rp_ReadConsistency (mg_cfg m1) = ReadQuorum" "manager_Enabled m1"
    using m(2) by (simp_all add: demo_manager_def manager_Enabled_def repl_Enabled_def)
  have ins: "IsInReplicaSet m1 ''k''" using rs self rc(2) by (simp add: IsInReplicaSet_def demo_n2_def)
  obtain ma x where g: "mg_Get (clock ?nw w1) ''k'' m1 = (ma, x)" by fastforce
  have ma: "mg_health ma = mg_health m1" "mg_peer ma = mg_peer m1" "mg_cluster ma = mg_cluster m1"
    using g by (auto simp: mg_Get_def split: prod.splits)
  have up: "''h1:1'' \<notin> set (wd_down w1)" using w(2) by simp
  obtain w2 where "peer_Get ?nw (mg_peer m1) Background ''h1:1'' ''k'' w1 = Some (w2, Inr (held_at w1 ''h1:1'' ''k''))"
    by (rule peer_Get_up [OF w(1) k w(3) up w(4,5)])
  then have "\<exists>rs. readFromAll ?nw Background ''k'' [demo_n2, demo_n1] (m1, w1) =
      Some ((mark ''n1'' (None :: peer_error option) ma, w2), rs)"
    using g ma self by (simp add: readFrom_def demo_n1_def demo_n2_def err_of_def)
  then obtain rs' where "readFromAll ?nw Background ''k'' [demo_n2, demo_n1] (m1, w1) =
      Some ((mark ''n1'' (None :: peer_error option) ma, w2), rs')" by blast
  moreover have "filter (\<lambda>node. IsHealthy (nd_ID node) (mg_health m1)) [demo_n2, demo_n1] = [demo_n2, demo_n1]"
    using m(3,4) by (simp add: demo_n1_def demo_n2_def)
  moreover define os where "os = [demo_n2, demo_n1]"
  ultimately have "\<exists>r. manager_Read ?nw (en_sched demo_base w1) Background ''k'' (m1, w1) =
      Some ((mark ''n1'' (None :: peer_error option) ma, w2), r)"
    using ins rs rc unfolding os_def [symmetric] by (simp add: manager_Read_def readQuorum_def consistency_defs demo_sched)
  moreover have "IsHealthy i (mg_health (mark ''n1'' (None :: peer_error option) ma))" if "IsHealthy i (mg_health m1)" for i
    using that ma(1) by (simp add: mark_def MarkHealthy_def IsHealthy_def update_conv' split: option.splits)
  ultimately show ?thesis using m(3,4) by blast
qed

theorem write_then_read_witness:
  "\<exists>s1 ms r1 s2 ms'. dispatch demo_env2 Background (set_request ''k'' ''new'' 0) (demo_server ''n2'', demo_world) = Some (s1, ms, r1) \<and>
     rs_Kind r1 = ResponseOK \<and> dispatch demo_env2 Background (get_request ''k'') s1 = Some (s2, ms', value_response ''new'')"
proof -
  let ?nw = "cluster_net demo_base (Suc 0)" and ?srv = "demo_server ''n2''"
  obtain m1 w1 srv' m' where s: "WriteSet ?nw (en_sched demo_base demo_world) Background ''k'' (Some ''new'') 0
      (demo_manager, demo_world) = Some ((m1, w1), None)" and w1: "world_inv demo_base w1" "wd_down w1 = []"
    "map_of (wd_servers w1) ''h1:1'' = Some srv'" "manager_of srv' = Some m'" "IsInReplicaSet m' ''k''"
    and m1: "mg_cluster m1 = mg_cluster demo_manager" "mg_cfg m1 = mg_cfg demo_manager" "IsHealthy ''n1'' (mg_health m1)" "IsHealthy ''n2'' (mg_health m1)"
    using demo_set by blast
  obtain m2 w2 r where g: "manager_Read ?nw (en_sched demo_base w1) Background ''k'' (m1, w1) = Some ((m2, w2), r)"
    and m2: "IsHealthy ''n1'' (mg_health m2)" "IsHealthy ''n2'' (mg_health m2)"
    using demo_get [OF w1 m1] by blast
  have en: "manager_Enabled demo_manager" by (simp add: manager_Enabled_def repl_Enabled_def demo_manager_def)
  then have a: "active_manager ?srv = Some demo_manager" using demo_facts(1) by (simp add: active_manager_def)
  have a1: "active_manager (with_manager m1 ?srv) = Some m1"
    using manager_of_with [OF demo_facts(1), of m1] en m1(2) by (simp add: active_manager_def manager_Enabled_def)
  have ins: "IsInReplicaSet m1 ''k''"
    using en m1 demo_facts(3) unfolding IsInReplicaSet_def manager_Enabled_def replicaSet_def
    by (simp add: demo_n2_def SelfID_def demo_manager_def)
  have d1: "dispatch demo_env2 Background (set_request ''k'' ''new'' 0) (?srv, demo_world) = Some ((with_manager m1 ?srv, w1), [], Resp ResponseOK)"
    using a s demo_facts(2) by (simp add: dispatch_commands(1) checkWriteRouting_def dispatchSet_def world_env_def)
  obtain resp where d2: "dispatch demo_env2 Background (get_request ''k'') (with_manager m1 ?srv, w1) =
      Some ((with_manager m2 (with_manager m1 ?srv), w2), [], resp)"
    using a1 g ins by (simp add: dispatch_commands(3) checkReadRouting_def dispatchGet_def world_env_def)
  have "resp = value_response ''new''"
  proof (rule write_then_read [OF demo_world_inv demo_server_inv a demo_facts(3) _ _ _ _ _ _ _ _ _ _ _ _ d1 _ d2])
  qed (use m1 m2 in \<open>simp_all add: demo_manager_def demo_n1_def demo_n2_def key_ok_def demo_facts(5) maxAlloc_def demo_base_def all_healthy_def with_manager_def\<close>)
  then show ?thesis using d1 d2 by auto
qed

end
