(* ===== verification/Raft_Transport.thy ===== *)
theory Raft_Transport
  imports Cluster_World
begin

text \<open>
  The interface \<open>Transport\<close> of \<^verbatim>\<open>src/internal/raft/transport.go\<close> and its two implementations: in memory
  (\<^verbatim>\<open>src/internal/raft/memory_transport.go\<close>) and over the wire protocol
  (\<^verbatim>\<open>src/internal/raft/tcp_transport.go\<close>), with the loop of \<open>Node.Start\<close> that drives the timers.

  The locale \<open>raft_transport\<close> is the contract: an answer that arrives is the answer of the handler of the
  node at that address, whose state is the only one that changed. It is discharged for the memory
  transport on a \<open>MemoryCluster\<close> and for the TCP transport on the servers of \<open>Cluster_World\<close>, through
  encoder, connection handler, dispatcher and decoder. The JSON codec is a parameter; what is used of it
  is that it restores what it wrote.
\<close>

section \<open>Model\<close>

subsection \<open>In memory\<close>

record 's MemoryCluster =
  mc_nodes :: "(string, RaftNode \<times> 's) gomap"

definition NewMemoryCluster :: "'s MemoryCluster" where
  "NewMemoryCluster = \<lparr>mc_nodes = []\<rparr>"

definition mc_Add :: "RaftNode \<Rightarrow> 's \<Rightarrow> 's MemoryCluster \<Rightarrow> 's MemoryCluster" where
  "mc_Add node s c = c\<lparr>mc_nodes := AList.update (r_id node) (node, s) (mc_nodes c)\<rparr>"

definition mc_Get :: "string \<Rightarrow> 's MemoryCluster \<Rightarrow> (RaftNode \<times> 's) option" where
  "mc_Get i c = map_of (mc_nodes c) i"

text \<open>The scan of \<open>findByAddr\<close> along an iteration order of the map.\<close>

definition findByAddr_range :: "(string \<times> RaftNode \<times> 's) list \<Rightarrow> string \<Rightarrow> (string \<times> RaftNode \<times> 's) option" where
  "findByAddr_range ps addr = find (\<lambda>(_, node, _). r_addr node = addr) ps"

definition findByAddr :: "'s MemoryCluster \<Rightarrow> string \<Rightarrow> (string \<times> RaftNode \<times> 's) option" where
  "findByAddr c addr = findByAddr_range (mc_nodes c) addr"

datatype transport_error = Canceled | TransportCodec string | TransportRemote string | TransportKind ResponseKind

definition memory_RequestVote ::
  "env \<Rightarrow> string \<Rightarrow> RequestVoteRequest \<Rightarrow> 's MemoryCluster \<Rightarrow> ('s MemoryCluster \<times> (transport_error + RequestVoteResponse)) option" where
  "memory_RequestVote e addr req c =
     (case findByAddr c addr of
        None \<Rightarrow> Some (c, Inl Canceled)
      | Some (i, node, s) \<Rightarrow> do {
          (node', resp) \<leftarrow> HandleRequestVote e req node;
          Some (c\<lparr>mc_nodes := AList.update i (node', s) (mc_nodes c)\<rparr>, Inr resp) })"

definition memory_AppendEntries ::
  "'s apply_fun \<Rightarrow> env \<Rightarrow> string \<Rightarrow> AppendEntriesRequest \<Rightarrow> 's MemoryCluster \<Rightarrow>
     ('s MemoryCluster \<times> (transport_error + AppendEntriesResponse)) option" where
  "memory_AppendEntries ap e addr req c =
     (case findByAddr c addr of
        None \<Rightarrow> Some (c, Inl Canceled)
      | Some (i, node, s) \<Rightarrow> do {
          (s', node', ms, resp) \<leftarrow> HandleAppendEntries ap e req s node;
          Some (c\<lparr>mc_nodes := AList.update i (node', s') (mc_nodes c)\<rparr>, Inr resp) })"

subsection \<open>Over TCP\<close>

record TCPTransport =
  tt_Timeout :: duration

text \<open>The JSON codec on the side of the caller.\<close>

record raft_json =
  js_VoteRequest :: "RequestVoteRequest \<Rightarrow> string + bytes"
  js_VoteResponse :: "bytes \<Rightarrow> string + RequestVoteResponse"
  js_AppendRequest :: "AppendEntriesRequest \<Rightarrow> string + bytes"
  js_AppendResponse :: "bytes \<Rightarrow> string + AppendEntriesResponse"

definition tcp_roundTrip ::
  "(go_error \<Rightarrow> string) \<Rightarrow> 'w Network \<Rightarrow> TCPTransport \<Rightarrow> Context \<Rightarrow> string \<Rightarrow> string \<Rightarrow> bytes \<Rightarrow> 'w \<Rightarrow> ('w \<times> (transport_error + bytes)) option" where
  "tcp_roundTrip text nw t ctx addr command payload w =
     (let timeout = (if tt_Timeout t \<le> 0 then 500 * millisecond else tt_Timeout t)
      in case EncodeRequest (empty_Request\<lparr>rq_Command := command, rq_Key := ''raft'', rq_Value := Some payload\<rparr>) of
        Inl err \<Rightarrow> Some (w, Inl (TransportCodec (text err)))
      | Inr enc \<Rightarrow>
          let deadline = (case ctx_Deadline ctx of Some d \<Rightarrow> d | None \<Rightarrow> clock nw w + timeout)
          in case transfer nw w timeout deadline addr enc of
            (w', Inl err) \<Rightarrow> Some (w', Inl (TransportCodec err))
          | (w', Inr rd) \<Rightarrow>
              (case DecodeResponse rd of
                 Inl err \<Rightarrow> if err = RuntimePanic then None else Some (w', Inl (TransportCodec (text err)))
               | Inr (resp, _) \<Rightarrow>
                   if rs_Kind resp = ResponseError then Some (w', Inl (TransportRemote (rs_Message resp)))
                   else if rs_Kind resp \<noteq> ResponseValue then Some (w', Inl (TransportKind (rs_Kind resp)))
                   else Some (w', Inr (rs_Value resp))))"

definition tcp_RequestVote ::
  "raft_json \<Rightarrow> (go_error \<Rightarrow> string) \<Rightarrow> 'w Network \<Rightarrow> TCPTransport \<Rightarrow> Context \<Rightarrow> string \<Rightarrow> RequestVoteRequest \<Rightarrow> 'w \<Rightarrow>
     ('w \<times> (transport_error + RequestVoteResponse)) option" where
  "tcp_RequestVote J text nw t ctx addr req w =
     (case js_VoteRequest J req of
        Inl err \<Rightarrow> Some (w, Inl (TransportCodec err))
      | Inr payload \<Rightarrow> do {
          (w', r) \<leftarrow> tcp_roundTrip text nw t ctx addr CommandRaftRequestVote payload w;
          Some (w', case r of
              Inl err \<Rightarrow> Inl err
            | Inr respPayload \<Rightarrow>
                (case js_VoteResponse J respPayload of Inl err \<Rightarrow> Inl (TransportCodec err) | Inr resp \<Rightarrow> Inr resp)) })"

definition tcp_AppendEntries ::
  "raft_json \<Rightarrow> (go_error \<Rightarrow> string) \<Rightarrow> 'w Network \<Rightarrow> TCPTransport \<Rightarrow> Context \<Rightarrow> string \<Rightarrow> AppendEntriesRequest \<Rightarrow> 'w \<Rightarrow>
     ('w \<times> (transport_error + AppendEntriesResponse)) option" where
  "tcp_AppendEntries J text nw t ctx addr req w =
     (case js_AppendRequest J req of
        Inl err \<Rightarrow> Some (w, Inl (TransportCodec err))
      | Inr payload \<Rightarrow> do {
          (w', r) \<leftarrow> tcp_roundTrip text nw t ctx addr CommandRaftAppendEntries payload w;
          Some (w', case r of
              Inl err \<Rightarrow> Inl err
            | Inr respPayload \<Rightarrow>
                (case js_AppendResponse J respPayload of Inl err \<Rightarrow> Inl (TransportCodec err) | Inr resp \<Rightarrow> Inr resp)) })"

subsection \<open>The timer loop\<close>

text \<open>
  \<open>Node.Start\<close>, on what its \<open>select\<close> receives: ticks of the ticker with the readings of clock and random
  source, until the context ends. The results are the steps the ticks took. \<open>time.NewTicker\<close> panics on an
  interval that is not positive.
\<close>

fun startLoop :: "env option list \<Rightarrow> RaftNode \<Rightarrow> (RaftNode \<times> tick_result list) option" where
  "startLoop [] n = Some (n, [])"
| "startLoop (None # evs) n = Some (n, [])"
| "startLoop (Some e # evs) n = do {
     t \<leftarrow> tick e n;
     (n', ts) \<leftarrow> startLoop evs (tick_node t);
     Some (n', t # ts) }"

definition raft_Start :: "env option list \<Rightarrow> RaftNode \<Rightarrow> (RaftNode \<times> tick_result list) option" where
  "raft_Start evs n = (if HeartbeatInterval (r_cfg n) div 2 \<le> 0 then None else startLoop evs n)"

definition PeerAddrs_range :: "(string \<times> string) list \<Rightarrow> RaftNode \<Rightarrow> (string, string) gomap" where
  "PeerAddrs_range ps n = fold (\<lambda>(i, addr) out. if i \<noteq> r_id n then AList.update i addr out else out) ps []"

definition raft_PeerAddrs :: "RaftNode \<Rightarrow> (string, string) gomap" where
  "raft_PeerAddrs n = PeerAddrs_range (r_peers n) n"

section \<open>The contract\<close>

locale raft_transport =
  fixes winv :: "'w \<Rightarrow> bool"
    and node_at :: "'w \<Rightarrow> string \<Rightarrow> RaftNode option"
    and vote :: "string \<Rightarrow> RequestVoteRequest \<Rightarrow> 'w \<Rightarrow> ('w \<times> ('e + RequestVoteResponse)) option"
    and app :: "string \<Rightarrow> AppendEntriesRequest \<Rightarrow> 'w \<Rightarrow> ('w \<times> ('e + AppendEntriesResponse)) option"
    and ap :: "'s apply_fun"
  assumes node_inv: "winv w \<Longrightarrow> node_at w a = Some n \<Longrightarrow> raft_inv n"
    and vote_reply: "winv w \<Longrightarrow> vote addr req w = Some (w', Inr resp) \<Longrightarrow>
      \<exists>n n' e. node_at w addr = Some n \<and> HandleRequestVote e req n = Some (n', resp) \<and>
        node_at w' addr = Some n' \<and> (\<forall>a. a \<noteq> addr \<longrightarrow> node_at w' a = node_at w a)"
    and append_reply: "winv w \<Longrightarrow> app addr areq w = Some (w', Inr aresp) \<Longrightarrow>
      \<exists>n n' e s s' ms. node_at w addr = Some n \<and> HandleAppendEntries ap e areq s n = Some (s', n', ms, aresp) \<and>
        node_at w' addr = Some n' \<and> (\<forall>a. a \<noteq> addr \<longrightarrow> node_at w' a = node_at w a)"
begin

text \<open>A vote that arrives was given: the node at the address has voted for the candidate in its term.\<close>

lemma vote_granted:
  assumes "winv w" and "vote addr req w = Some (w', Inr resp)" and "rvr_VoteGranted resp"
  shows "\<exists>n n'. node_at w addr = Some n \<and> node_at w' addr = Some n' \<and> r_votedFor n' = rv_CandidateID req \<and>
    r_currentTerm n' = rv_Term req \<and> up_to_date req (r_log n)"
proof -
  obtain n n' e where n: "node_at w addr = Some n" "HandleRequestVote e req n = Some (n', resp)" "node_at w' addr = Some n'"
    using vote_reply [OF assms(1,2)] by blast
  show ?thesis
    by (rule HandleRequestVote_outcome [OF node_inv [OF assms(1) n(1)], of e req]) (use n assms(3) in auto)
qed

text \<open>A success that arrives was an append: the log of the node is the one the request describes.\<close>

lemma append_succeeded:
  assumes "winv w" and "app addr req w = Some (w', Inr resp)" and "aer_Success resp"
  shows "\<exists>n n'. node_at w addr = Some n \<and> node_at w' addr = Some n' \<and> r_log n' = appended req (r_log n)"
proof -
  obtain n n' e s s' ms where n: "node_at w addr = Some n" "HandleAppendEntries ap e req s n = Some (s', n', ms, resp)" "node_at w' addr = Some n'"
    using append_reply [OF assms(1,2)] by blast
  show ?thesis
    by (rule HandleAppendEntries_outcome [OF node_inv [OF assms(1) n(1)], of ap e req s]) (use n assms(3) in auto)
qed

end

section \<open>The memory transport keeps the contract\<close>

definition mem_node :: "'s MemoryCluster \<Rightarrow> string \<Rightarrow> RaftNode option" where
  "mem_node c addr = map_option (\<lambda>(_, node, _). node) (findByAddr c addr)"

definition mem_inv :: "'s MemoryCluster \<Rightarrow> bool" where
  "mem_inv c \<longleftrightarrow> distinct (map fst (mc_nodes c)) \<and> (\<forall>(i, node, s)\<in>set (mc_nodes c). raft_inv node)"

lemma find_update:
  assumes "find P xs = Some (i, v)" and "distinct (map fst xs)" and "P (i, v')"
  shows "find P (AList.update i v' xs) = Some (i, v')"
  using assms by (induction xs) (auto split: if_splits dest: find_Some_iff [THEN iffD1] simp: nth_mem rev_image_eqI)

lemma find_update_other:
  assumes "map_of xs i = Some v" and "distinct (map fst xs)" and "\<not> P (i, v)" and "\<not> P (i, v')"
  shows "find P (AList.update i v' xs) = find P xs"
  using assms by (induction xs) (auto split: if_splits)

lemma findByAddr_SomeD:
  assumes "findByAddr c addr = Some (i, node, s)"
  shows "(i, node, s) \<in> set (mc_nodes c)" "r_addr node = addr"
  using assms by (auto simp: findByAddr_def findByAddr_range_def find_Some_iff intro: nth_mem) (metis nth_mem)

lemma mem_node_update:
  assumes "mem_inv c" and "findByAddr c addr = Some (i, node, s)" and "r_addr node' = r_addr node"
  shows "mem_node (c\<lparr>mc_nodes := AList.update i (node', s') (mc_nodes c)\<rparr>) a = (if a = addr then Some node' else mem_node c a)"
proof (cases "a = addr")
  case True
  have "find (\<lambda>(_, n, _). r_addr n = addr) (AList.update i (node', s') (mc_nodes c)) = Some (i, node', s')"
    by (rule find_update) (use assms findByAddr_SomeD(2) [OF assms(2)] in \<open>simp_all add: findByAddr_def findByAddr_range_def mem_inv_def\<close>)
  then show ?thesis using True by (simp add: mem_node_def findByAddr_def findByAddr_range_def)
next
  case False
  have "map_of (mc_nodes c) i = Some (node, s)" using findByAddr_SomeD(1) [OF assms(2)] assms(1) by (simp add: mem_inv_def)
  then have "find (\<lambda>(_, n, _). r_addr n = a) (AList.update i (node', s') (mc_nodes c)) = find (\<lambda>(_, n, _). r_addr n = a) (mc_nodes c)"
    by (rule find_update_other) (use assms False findByAddr_SomeD(2) [OF assms(2)] in \<open>simp_all add: mem_inv_def\<close>)
  then show ?thesis using False by (simp add: mem_node_def findByAddr_def findByAddr_range_def)
qed

lemma reset_addr [simp]: "r_addr (resetElectionDeadline e n) = r_addr n" "r_addr (becomeFollower e t l n) = r_addr n"
  by (simp_all add: resetElectionDeadline_def becomeFollower_def Let_def)

lemma HandleRequestVote_addr: "HandleRequestVote e req n = Some (n', resp) \<Longrightarrow> r_addr n' = r_addr n"
  by (auto simp: HandleRequestVote_def Let_def split: if_splits bind_splits)

lemma replicateAll_addr: "replicateAll ps n = Some (n', ms) \<Longrightarrow> r_addr n' = r_addr n"
  by (induction ps arbitrary: n ms) (fastforce simp: replicateTo_def Let_def split: if_splits bind_splits option.splits prod.splits)+

lemma peer_ops_addr: "peer_ops ops n = Some (n', ms) \<Longrightarrow> r_addr n' = r_addr n"
  by (induction ops n arbitrary: ms rule: peer_ops.induct)
    (fastforce simp: AddPeer_def RemovePeer_def replicate_log_def Let_def split: if_splits bind_splits dest: replicateAll_addr)+

lemma applyNext_addr: "applyNext ap s n = Some (s', n', ms) \<Longrightarrow> r_addr n' = r_addr n"
  by (auto simp: applyNext_def Let_def split: bind_splits prod.splits option.splits dest!: peer_ops_addr)

lemma applyLoop_addr: "applyLoop k ap s n = Some (s', n', ms) \<Longrightarrow> r_addr n' = r_addr n"
  by (induction k arbitrary: s n ms) (fastforce split: if_splits bind_splits dest: applyNext_addr)+

lemma HandleAppendEntries_addr: "HandleAppendEntries ap e req s n = Some (s', n', ms, resp) \<Longrightarrow> r_addr n' = r_addr n"
  by (auto simp: HandleAppendEntries_def applyCommitted_def Let_def split: if_splits bind_splits dest!: applyLoop_addr)

interpretation mem: raft_transport mem_inv mem_node "memory_RequestVote e" "memory_AppendEntries ap e" ap for e and ap :: "'s apply_fun"
proof unfold_locales
  fix c c' :: "'s MemoryCluster" and addr a :: string and n req areq resp aresp
  assume inv: "mem_inv c"
  show "raft_inv n" if "mem_node c a = Some n"
  proof -
    obtain i s where "findByAddr c a = Some (i, n, s)" using \<open>mem_node c a = Some n\<close> by (auto simp: mem_node_def)
    from findByAddr_SomeD(1) [OF this] show ?thesis using inv by (auto simp: mem_inv_def)
  qed
  show "\<exists>n n' e. mem_node c addr = Some n \<and> HandleRequestVote e req n = Some (n', resp) \<and> mem_node c' addr = Some n' \<and>
      (\<forall>a. a \<noteq> addr \<longrightarrow> mem_node c' a = mem_node c a)" if vote: "memory_RequestVote e addr req c = Some (c', Inr resp)"
  proof -
    obtain i node s node' where f: "findByAddr c addr = Some (i, node, s)" "HandleRequestVote e req node = Some (node', resp)"
      "c' = c\<lparr>mc_nodes := AList.update i (node', s) (mc_nodes c)\<rparr>"
      using vote by (auto simp: memory_RequestVote_def split: option.splits bind_splits)
    have "mem_node c addr = Some node" using f(1) by (simp add: mem_node_def)
    then show ?thesis using f(2) mem_node_update [OF inv f(1) HandleRequestVote_addr [OF f(2)], of s] unfolding f(3) by auto
  qed
  show "\<exists>n n' e s s' ms. mem_node c addr = Some n \<and> HandleAppendEntries ap e areq s n = Some (s', n', ms, aresp) \<and>
      mem_node c' addr = Some n' \<and> (\<forall>a. a \<noteq> addr \<longrightarrow> mem_node c' a = mem_node c a)"
    if app: "memory_AppendEntries ap e addr areq c = Some (c', Inr aresp)"
  proof -
    obtain i node s s' node' ms where f: "findByAddr c addr = Some (i, node, s)" "HandleAppendEntries ap e areq s node = Some (s', node', ms, aresp)"
      "c' = c\<lparr>mc_nodes := AList.update i (node', s') (mc_nodes c)\<rparr>"
      using app by (auto simp: memory_AppendEntries_def split: option.splits bind_splits)
    have "mem_node c addr = Some node" using f(1) by (simp add: mem_node_def)
    then show ?thesis using f(2) mem_node_update [OF inv f(1) HandleAppendEntries_addr [OF f(2)], of s'] unfolding f(3) by auto
  qed
qed

section \<open>The TCP transport keeps the contract\<close>

text \<open>The codec restores requests and responses, whose terms are 64-bit numbers, and its texts can be allocated.\<close>

definition json_ok :: "raft_json \<Rightarrow> 'w server_env \<Rightarrow> bool" where
  "json_ok J base \<longleftrightarrow>
     (\<forall>req p. js_VoteRequest J req = Inr p \<longrightarrow>
        un_RequestVote base p = Inr req \<and> rv_Term req < 2 ^ 64 \<and> int (length p) \<le> maxAlloc) \<and>
     (\<forall>resp. rvr_Term resp < 2 ^ 64 \<longrightarrow>
        (\<exists>p. ma_RequestVote base resp = Inr p \<and> js_VoteResponse J p = Inr resp \<and> int (length p) \<le> maxAlloc)) \<and>
     (\<forall>req p. js_AppendRequest J req = Inr p \<longrightarrow>
        un_AppendEntries base p = Inr req \<and> ae_Term req < 2 ^ 64 \<and> int (length p) \<le> maxAlloc) \<and>
     (\<forall>resp. aer_Term resp < 2 ^ 64 \<longrightarrow>
        (\<exists>p. ma_AppendEntries base resp = Inr p \<and> js_AppendResponse J p = Inr resp \<and> int (length p) \<le> maxAlloc))"

definition tcp_node :: "World \<Rightarrow> string \<Rightarrow> RaftNode option" where
  "tcp_node w addr = (case map_of (wd_servers w) addr of None \<Rightarrow> None | Some srv \<Rightarrow> sv_raft srv)"

definition tcp_inv :: "raft_json \<Rightarrow> World server_env \<Rightarrow> World \<Rightarrow> bool" where
  "tcp_inv J base w \<longleftrightarrow> world_inv base w \<and> json_ok J base \<and>
     (\<forall>ent cv. cluster_inv cv \<longrightarrow> cluster_inv (fst (en_apply base ent cv))) \<and>
     (\<forall>addr rf. tcp_node w addr = Some rf \<longrightarrow> r_currentTerm rf < 2 ^ 64)"

definition raft_request :: "string \<Rightarrow> bytes \<Rightarrow> Request" where
  "raft_request cmd payload = \<lparr>rq_Command = cmd, rq_Key = ''raft'', rq_Value = Some payload, rq_TTL = 0\<rparr>"

lemma raft_request_sendable:
  assumes "cmd = CommandRaftRequestVote \<or> cmd = CommandRaftAppendEntries" and "int (length p) \<le> maxAlloc"
  shows "sendable (raft_request cmd p)" "rq_Command (received (raft_request cmd p)) = cmd" "rq_Value (received (raft_request cmd p)) = Some p"
proof -
  have "TrimSpace ''raft'' = ''raft''" by code_simp
  then show "sendable (raft_request cmd p)" "rq_Command (received (raft_request cmd p)) = cmd" "rq_Value (received (raft_request cmd p)) = Some p"
    using assms by (auto simp: sendable_def received_def raft_request_def known_commands_def command_defs keyless_def setlike_def valued_def)
qed

text \<open>What the caller makes of a response.\<close>

definition raft_answer :: "Response \<Rightarrow> transport_error + bytes" where
  "raft_answer resp =
     (if rs_Kind resp = ResponseError then Inl (TransportRemote (rs_Message resp))
      else if rs_Kind resp \<noteq> ResponseValue then Inl (TransportKind (rs_Kind resp))
      else Inr (rs_Value resp))"

lemma raft_answer_value [simp]: "raft_answer (delivered (value_response q)) = Inr q"
  by (simp add: raft_answer_def delivered_def value_response_def Resp_def)

lemma raft_answer_error: "rs_Kind resp = ResponseError \<Longrightarrow> raft_answer (delivered resp) \<noteq> Inr q"
  by (simp add: raft_answer_def)

lemma tcp_call:
  assumes w: "world_inv base w" and cmd: "cmd = CommandRaftRequestVote \<or> cmd = CommandRaftAppendEntries" "int (length p) \<le> maxAlloc"
    and srv: "map_of (wd_servers w) addr = Some srv" "addr \<notin> set (wd_down w)"
    and ans: "answered_by base n (raft_request cmd p) srv w srv1 resp"
  obtains reg where "tcp_roundTrip text (cluster_net base (Suc n)) t ctx addr cmd p w =
    Some (with_server addr (srv1\<lparr>sv_metrics := reg\<rparr>) w, raft_answer (delivered resp))"
proof -
  note s = raft_request_sendable(1) [OF cmd]
  obtain payload where enc: "EncodeRequest (raft_request cmd p) = Inr payload" using request_roundtrip_lemma [OF s] by blast
  have req: "empty_Request\<lparr>rq_Command := cmd, rq_Key := ''raft'', rq_Value := Some p\<rparr> = raft_request cmd p" by (simp add: raft_request_def)
  let ?t = "if tt_Timeout t \<le> 0 then 500 * millisecond else tt_Timeout t"
  let ?d = "case ctx_Deadline ctx of Some d \<Rightarrow> d | None \<Rightarrow> clock (cluster_net base (Suc n)) w + ?t"
  obtain reg bs where tr: "transfer (cluster_net base (Suc n)) w ?t ?d addr payload = (with_server addr (srv1\<lparr>sv_metrics := reg\<rparr>) w, Inr (NewReader bs))"
    "DecodeResponse (NewReader bs) = Inr (delivered resp, NewReader [])"
    by (rule transfer_up [OF w s enc srv ans])
  have "tcp_roundTrip text (cluster_net base (Suc n)) t ctx addr cmd p w =
    Some (with_server addr (srv1\<lparr>sv_metrics := reg\<rparr>) w, raft_answer (delivered resp))"
    using enc tr unfolding tcp_roundTrip_def req Let_def raft_answer_def by simp
  then show thesis by (rule that)
qed

lemma tcp_reached:
  assumes "tcp_roundTrip text (cluster_net base (Suc n)) t ctx addr cmd p w = Some (w', Inr out)"
  obtains srv where "map_of (wd_servers w) addr = Some srv" "addr \<notin> set (wd_down w)"
proof -
  have "map_of (wd_servers w) addr \<noteq> None \<and> addr \<notin> set (wd_down w)"
    using assms unfolding tcp_roundTrip_def Let_def by (auto simp: cluster_net.simps(2) split: option.splits if_splits sum.splits)
  then show thesis using that by auto
qed

lemma raft_off_deliverable: "deliverable (error_response ''raft not enabled'')"
proof -
  have "TrimSpace ''raft not enabled'' = ''raft not enabled''" by code_simp
  then show ?thesis by (simp add: deliverable_def error_response_def Resp_def)
qed

lemma value_deliverable: "int (length v) \<le> maxAlloc \<Longrightarrow> deliverable (value_response v)"
  by (simp add: deliverable_def value_response_def Resp_def)

lemma tcp_node_with_server:
  "tcp_node (with_server addr (srv\<lparr>sv_metrics := reg\<rparr>) w) a = (if a = addr then sv_raft srv else tcp_node w a)"
  by (simp add: tcp_node_def with_server_def update_conv')

lemma raft_off_served:
  assumes "server_inv srv" and "sv_raft srv = None" and cmd: "cmd = CommandRaftRequestVote \<or> cmd = CommandRaftAppendEntries" "int (length p) \<le> maxAlloc"
  shows "answered_by base n (raft_request cmd p) srv w srv (error_response ''raft not enabled'')"
proof -
  note fields = raft_request_sendable(2,3) [OF cmd]
  have "dispatch (world_env base n) ctx (received (raft_request cmd p)) (srv, w) = Some ((srv, w), [], error_response ''raft not enabled'')" for ctx
  proof (cases "cmd = CommandRaftRequestVote")
    case True
    then show ?thesis using assms(2) fields by (simp add: dispatch_def Let_def dispatchRaftRequestVote_def command_defs)
  next
    case False
    then have "cmd = CommandRaftAppendEntries" using cmd(1) by simp
    then show ?thesis using assms(2) fields by (simp add: dispatch_def Let_def dispatchRaftAppendEntries_def command_defs)
  qed
  then show ?thesis using assms(1) raft_off_deliverable unfolding answered_by_def by blast
qed

lemma vote_served:
  assumes w: "tcp_inv J base w" and p: "js_VoteRequest J req = Inr p"
    and srv: "map_of (wd_servers w) addr = Some srv" "sv_raft srv = Some rf"
  obtains rf' r q where "HandleRequestVote (en_raft base w) req rf = Some (rf', r)" "js_VoteResponse J q = Inr r"
    "int (length p) \<le> maxAlloc"
    "answered_by base n (raft_request CommandRaftRequestVote p) srv w (srv\<lparr>sv_raft := Some rf'\<rparr>) (value_response q)"
proof -
  have inv: "server_inv srv" using w srv(1) by (auto simp: tcp_inv_def world_inv_def intro: ranI)
  have un: "un_RequestVote base p = Inr req" "rv_Term req < 2 ^ 64" "int (length p) \<le> maxAlloc"
    using w p by (auto simp: tcp_inv_def json_ok_def)
  have "tcp_node w addr = Some rf" using srv by (simp add: tcp_node_def)
  then have rf: "raft_inv rf" "r_currentTerm rf < 2 ^ 64" using inv w srv(2) by (auto simp: server_inv_def tcp_inv_def)
  obtain rf' r where h: "HandleRequestVote (en_raft base w) req rf = Some (rf', r)" "raft_inv rf'" "rvr_Term r = r_currentTerm rf'"
    "r_currentTerm rf' = max (r_currentTerm rf) (rv_Term req)"
    using HandleRequestVote_outcome [OF rf(1), of "en_raft base w" req] by metis
  then obtain q where q: "ma_RequestVote base r = Inr q" "js_VoteResponse J q = Inr r" "int (length q) \<le> maxAlloc"
    using w rf(2) un(2) unfolding tcp_inv_def json_ok_def by (metis max_def)
  have "server_inv (srv\<lparr>sv_raft := Some rf'\<rparr>)" using server_inv_raft [OF inv _ h(2)] srv(2) by simp
  then have "answered_by base n (raft_request CommandRaftRequestVote p) srv w (srv\<lparr>sv_raft := Some rf'\<rparr>) (value_response q)"
    using srv(2) h(1) q(1) un(1) value_deliverable [OF q(3)] raft_request_sendable(2,3) [of CommandRaftRequestVote p] un(3)
    by (simp add: answered_by_def dispatch_def Let_def dispatchRaftRequestVote_def command_defs marshalled_def world_env_def payload_of_def)
  then show thesis using that h(1) q(2) un(3) by blast
qed

lemma append_served:
  assumes w: "tcp_inv J base w" and p: "js_AppendRequest J req = Inr p"
    and srv: "map_of (wd_servers w) addr = Some srv" "sv_raft srv = Some rf"
  obtains cv cv' rf' ms r q where "HandleAppendEntries (en_apply base) (en_raft base w) req cv rf = Some (cv', rf', ms, r)" "js_AppendResponse J q = Inr r"
    "answered_by base n (raft_request CommandRaftAppendEntries p) srv w (srv\<lparr>sv_cluster := Some cv', sv_raft := Some rf'\<rparr>) (value_response q)"
proof -
  have inv: "server_inv srv" using w srv(1) by (auto simp: tcp_inv_def world_inv_def intro: ranI)
  have un: "un_AppendEntries base p = Inr req" "ae_Term req < 2 ^ 64" "int (length p) \<le> maxAlloc"
    using w p by (auto simp: tcp_inv_def json_ok_def)
  have "tcp_node w addr = Some rf" using srv by (simp add: tcp_node_def)
  then have rf: "raft_inv rf" "r_currentTerm rf < 2 ^ 64" using inv w srv(2) by (auto simp: server_inv_def tcp_inv_def)
  obtain cv where cv: "sv_cluster srv = Some cv" "cluster_inv cv" using inv srv(2) by (auto simp: server_inv_def server_wf_def)
  obtain cv' rf' ms r where h: "HandleAppendEntries (en_apply base) (en_raft base w) req cv rf = Some (cv', rf', ms, r)" "raft_inv rf'"
    "aer_Term r = r_currentTerm rf'" "r_currentTerm rf' = max (r_currentTerm rf) (ae_Term req)"
    using HandleAppendEntries_outcome [OF rf(1), of "en_apply base" "en_raft base w" req cv] by metis
  have cv': "cluster_inv cv'" using HandleAppendEntries_keeps [of cluster_inv, OF _ h(1) cv(2)] w by (simp add: tcp_inv_def)
  obtain q where q: "ma_AppendEntries base r = Inr q" "js_AppendResponse J q = Inr r" "int (length q) \<le> maxAlloc"
    using w rf(2) un(2) h(3,4) unfolding tcp_inv_def json_ok_def by (metis max_def)
  have "server_inv (srv\<lparr>sv_cluster := Some cv', sv_raft := Some rf'\<rparr>)" by (rule server_inv_raft_cluster [OF inv h(2) cv'])
  then have "answered_by base n (raft_request CommandRaftAppendEntries p) srv w (srv\<lparr>sv_cluster := Some cv', sv_raft := Some rf'\<rparr>) (value_response q)"
    using srv(2) cv(1) h(1) q(1) un(1) value_deliverable [OF q(3)] raft_request_sendable(2,3) [of CommandRaftAppendEntries p] un(3)
    by (simp add: answered_by_def dispatch_def Let_def dispatchRaftAppendEntries_def command_defs marshalled_def world_env_def payload_of_def)
  then show thesis using that h(1) q(2) by blast
qed

lemma tcp_reply:
  assumes w: "tcp_inv J base w" and cmd: "cmd = CommandRaftRequestVote \<or> cmd = CommandRaftAppendEntries" "int (length p) \<le> maxAlloc"
    and rt: "tcp_roundTrip text (cluster_net base (Suc n)) t ctx addr cmd p w = Some (w', Inr out)"
  obtains srv rf where "map_of (wd_servers w) addr = Some srv" "addr \<notin> set (wd_down w)" "sv_raft srv = Some rf"
proof -
  obtain srv where srv: "map_of (wd_servers w) addr = Some srv" "addr \<notin> set (wd_down w)" by (rule tcp_reached [OF rt])
  have inv: "world_inv base w" "server_inv srv" using w srv(1) by (auto simp: tcp_inv_def world_inv_def intro: ranI)
  have "sv_raft srv \<noteq> None"
  proof
    assume "sv_raft srv = None"
    note off = raft_off_served [OF inv(2) this cmd]
    obtain reg where "tcp_roundTrip text (cluster_net base (Suc n)) t ctx addr cmd p w =
        Some (with_server addr (srv\<lparr>sv_metrics := reg\<rparr>) w, raft_answer (delivered (error_response ''raft not enabled'')))"
      by (rule tcp_call [OF inv(1) cmd srv off])
    then show False using rt raft_answer_error [of "error_response ''raft not enabled''" out] by simp
  qed
  then show thesis using that srv by auto
qed

lemma unmarshalled_InrD:
  "(case r of Inl err \<Rightarrow> Inl err | Inr q \<Rightarrow> (case f q of Inl err \<Rightarrow> Inl (TransportCodec err) | Inr x \<Rightarrow> Inr x)) = Inr resp \<Longrightarrow>
     \<exists>q. r = Inr q \<and> f q = Inr resp"
  by (auto split: sum.splits)

lemma tcp_vote_reply:
  assumes w: "tcp_inv J base w" and v: "tcp_RequestVote J text (cluster_net base (Suc n)) t ctx addr req w = Some (w', Inr resp)"
  shows "\<exists>rf rf' e. tcp_node w addr = Some rf \<and> HandleRequestVote e req rf = Some (rf', resp) \<and> tcp_node w' addr = Some rf' \<and>
    (\<forall>a. a \<noteq> addr \<longrightarrow> tcp_node w' a = tcp_node w a)"
proof -
  obtain p out where p: "js_VoteRequest J req = Inr p" "tcp_roundTrip text (cluster_net base (Suc n)) t ctx addr CommandRaftRequestVote p w = Some (w', Inr out)"
    "js_VoteResponse J out = Inr resp"
    using v by (cases "js_VoteRequest J req") (auto simp: tcp_RequestVote_def bind_eq_Some_conv dest!: unmarshalled_InrD)
  have inv: "world_inv base w" "int (length p) \<le> maxAlloc" using w p(1) by (auto simp: tcp_inv_def json_ok_def)
  obtain srv rf where srv: "map_of (wd_servers w) addr = Some srv" "addr \<notin> set (wd_down w)" "sv_raft srv = Some rf"
    by (rule tcp_reply [OF w disjI1 [OF refl] inv(2) p(2)])
  obtain rf' r q where a: "HandleRequestVote (en_raft base w) req rf = Some (rf', r)" "js_VoteResponse J q = Inr r"
    "answered_by base n (raft_request CommandRaftRequestVote p) srv w (srv\<lparr>sv_raft := Some rf'\<rparr>) (value_response q)"
    by (rule vote_served [OF w p(1) srv(1,3)])
  obtain reg where "tcp_roundTrip text (cluster_net base (Suc n)) t ctx addr CommandRaftRequestVote p w =
      Some (with_server addr ((srv\<lparr>sv_raft := Some rf'\<rparr>)\<lparr>sv_metrics := reg\<rparr>) w, raft_answer (delivered (value_response q)))"
    by (rule tcp_call [OF inv(1) disjI1 [OF refl] inv(2) srv(1,2) a(3)])
  then have "w' = with_server addr ((srv\<lparr>sv_raft := Some rf'\<rparr>)\<lparr>sv_metrics := reg\<rparr>) w" "resp = r" using p(2,3) a(2) by simp_all
  moreover have "tcp_node w addr = Some rf" using srv(1,3) by (simp add: tcp_node_def)
  ultimately show ?thesis using a(1) by (simp add: tcp_node_with_server) blast
qed

lemma tcp_append_reply:
  assumes w: "tcp_inv J base w" and v: "tcp_AppendEntries J text (cluster_net base (Suc n)) t ctx addr req w = Some (w', Inr resp)"
  shows "\<exists>rf rf' e s s' ms. tcp_node w addr = Some rf \<and> HandleAppendEntries (en_apply base) e req s rf = Some (s', rf', ms, resp) \<and> tcp_node w' addr = Some rf' \<and>
    (\<forall>a. a \<noteq> addr \<longrightarrow> tcp_node w' a = tcp_node w a)"
proof -
  obtain p out where p: "js_AppendRequest J req = Inr p" "tcp_roundTrip text (cluster_net base (Suc n)) t ctx addr CommandRaftAppendEntries p w = Some (w', Inr out)"
    "js_AppendResponse J out = Inr resp"
    using v by (cases "js_AppendRequest J req") (auto simp: tcp_AppendEntries_def bind_eq_Some_conv dest!: unmarshalled_InrD)
  have inv: "world_inv base w" "int (length p) \<le> maxAlloc" using w p(1) by (auto simp: tcp_inv_def json_ok_def)
  obtain srv rf where srv: "map_of (wd_servers w) addr = Some srv" "addr \<notin> set (wd_down w)" "sv_raft srv = Some rf"
    by (rule tcp_reply [OF w disjI2 [OF refl] inv(2) p(2)])
  obtain cv cv' rf' ms r q where a: "HandleAppendEntries (en_apply base) (en_raft base w) req cv rf = Some (cv', rf', ms, r)" "js_AppendResponse J q = Inr r"
    "answered_by base n (raft_request CommandRaftAppendEntries p) srv w (srv\<lparr>sv_cluster := Some cv', sv_raft := Some rf'\<rparr>) (value_response q)"
    by (rule append_served [OF w p(1) srv(1,3)])
  obtain reg where "tcp_roundTrip text (cluster_net base (Suc n)) t ctx addr CommandRaftAppendEntries p w =
      Some (with_server addr ((srv\<lparr>sv_cluster := Some cv', sv_raft := Some rf'\<rparr>)\<lparr>sv_metrics := reg\<rparr>) w, raft_answer (delivered (value_response q)))"
    by (rule tcp_call [OF inv(1) disjI2 [OF refl] inv(2) srv(1,2) a(3)])
  then have "w' = with_server addr ((srv\<lparr>sv_cluster := Some cv', sv_raft := Some rf'\<rparr>)\<lparr>sv_metrics := reg\<rparr>) w" "resp = r" using p(2,3) a(2) by simp_all
  moreover have "tcp_node w addr = Some rf" using srv(1,3) by (simp add: tcp_node_def)
  ultimately show ?thesis using a(1) by (simp add: tcp_node_with_server) blast
qed

interpretation tcp: raft_transport "tcp_inv J base" tcp_node "tcp_RequestVote J errtext (cluster_net base (Suc n)) t ctx"
  "tcp_AppendEntries J errtext (cluster_net base (Suc n)) t ctx" "en_apply base" for J base errtext n t ctx
proof unfold_locales
  show "raft_inv rf" if "tcp_inv J base w" "tcp_node w a = Some rf" for w a rf
    using that by (auto simp: tcp_inv_def world_inv_def tcp_node_def server_inv_def split: option.splits intro: ranI)
qed (rule tcp_vote_reply tcp_append_reply; assumption)+

section \<open>Properties\<close>


text \<open>A codec: responses as decimal term and a letter, and one request of each kind.\<close>

definition demo_print :: "nat \<times> bool \<Rightarrow> string" where
  "demo_print x = (if snd x then CHR ''t'' else CHR ''f'') # Itoa (fst x)"

definition demo_parse :: "string \<Rightarrow> (nat \<times> bool) option" where
  "demo_parse s = (case s of [] \<Rightarrow> None | c # ds \<Rightarrow> (case parse_digits 0 ds of None \<Rightarrow> None | Some k \<Rightarrow> Some (k, c = CHR ''t'')))"

definition demo_vote :: RequestVoteRequest where
  "demo_vote = \<lparr>rv_Term = 1, rv_CandidateID = ''a'', rv_LastLogIndex = 0, rv_LastLogTerm = 0\<rparr>"

definition demo_json :: raft_json where
  "demo_json =
     \<lparr>js_VoteRequest = (\<lambda>r. if r = demo_vote then Inr ''vote'' else Inl ''json''),
      js_VoteResponse = (\<lambda>s. case demo_parse s of None \<Rightarrow> Inl ''json'' | Some (k, b) \<Rightarrow> Inr \<lparr>rvr_Term = k, rvr_VoteGranted = b\<rparr>),
      js_AppendRequest = (\<lambda>r. Inl ''json''),
      js_AppendResponse = (\<lambda>s. case demo_parse s of None \<Rightarrow> Inl ''json'' | Some (k, b) \<Rightarrow> Inr \<lparr>aer_Term = k, aer_Success = b\<rparr>)\<rparr>"

definition demo_raft_base :: "World server_env" where
  "demo_raft_base = demo_base
     \<lparr>un_RequestVote := (\<lambda>s. if s = ''vote'' then Inr demo_vote else Inl ''json''),
      ma_RequestVote := (\<lambda>r. Inr (demo_print (rvr_Term r, rvr_VoteGranted r))),
      ma_AppendEntries := (\<lambda>r. Inr (demo_print (aer_Term r, aer_Success r)))\<rparr>"

definition demo_raft_world :: World where
  "demo_raft_world = demo_world\<lparr>wd_servers := [(''h1:1'', (demo_server ''n1'')\<lparr>sv_raft := Some demo_follower\<rparr>)]\<rparr>"

lemma length_Itoa: "n < 10 ^ Suc k \<Longrightarrow> length (Itoa n) \<le> Suc k"
proof (induction k arbitrary: n)
  case (Suc k)
  then have "n div 10 < 10 ^ Suc k" by (simp add: less_mult_imp_div_less)
  from Suc.IH [OF this] show ?case by (subst Itoa.simps) simp
qed (simp add: Itoa.simps)

lemma demo_parse_print: "demo_parse (demo_print x) = Some x"
  by (cases x) (simp add: demo_parse_def demo_print_def parse_digits_Itoa)

lemma length_demo_print: "k < 2 ^ 64 \<Longrightarrow> int (length (demo_print (k, b))) \<le> maxAlloc"
  using length_Itoa [of k 19] by (simp add: demo_print_def maxAlloc_def)

lemma demo_json_ok: "json_ok demo_json demo_raft_base"
proof -
  have "4 \<le> maxAlloc" by (simp add: maxAlloc_def)
  then show ?thesis unfolding json_ok_def
    by (auto simp: demo_json_def demo_raft_base_def demo_parse_print length_demo_print demo_vote_def split: if_splits)
qed

lemma demo_raft_inv: "tcp_inv demo_json demo_raft_base demo_raft_world"
proof -
  have "server_inv ((demo_server ''n1'')\<lparr>sv_raft := Some demo_follower\<rparr>)"
    using demo_server_inv [of "''n1''"] demo_follower_inv by (simp add: server_inv_def server_wf_def) (simp add: demo_server_def)
  moreover have "held_at demo_raft_world = held_at demo_world"
    by (intro ext) (simp add: held_at_def demo_raft_world_def demo_world_def)
  ultimately have "world_inv demo_raft_base demo_raft_world"
    using demo_world_inv by (simp add: world_inv_def demo_raft_base_def demo_raft_world_def demo_world_def)
  moreover have "r_currentTerm rf < 2 ^ 64" if "tcp_node demo_raft_world addr = Some rf" for addr rf
    using that by (auto simp: tcp_node_def demo_raft_world_def demo_follower_def NewNode_def split: if_splits)
  ultimately show ?thesis using demo_json_ok by (simp add: tcp_inv_def demo_raft_base_def demo_base_def)
qed


end
