(* ===== verification/Node_Start.thy ===== *)
theory Node_Start
  imports Cache_Server
begin

text \<open>
  How a node is put together: the settings from the environment (\<^verbatim>\<open>src/internal/config/env.go\<close>), the
  discovery view (\<^verbatim>\<open>src/internal/discovery/discovery.go\<close>) and \<open>main\<close> of \<^verbatim>\<open>src/cmd/node/main.go\<close> up to the
  server it starts, with the callback that applies Raft entries to the cluster view.

  The environment is the function \<open>getenv\<close>, which gives the empty string for an unset variable, as
  \<open>os.Getenv\<close> does. Parsed flags are a record. Logging is left out; \<open>os.Exit\<close> after an error is the
  left summand of the result.
\<close>

section \<open>Model\<close>

subsection \<open>Settings from the environment\<close>

type_synonym environment = "string \<Rightarrow> string"

text \<open>\<open>strconv.ParseBool\<close>.\<close>

definition ParseBool :: "string \<Rightarrow> bool option" where
  "ParseBool s =
     (if s \<in> {''1'', ''t'', ''T'', ''TRUE'', ''true'', ''True''} then Some True
      else if s \<in> {''0'', ''f'', ''F'', ''FALSE'', ''false'', ''False''} then Some False
      else None)"

definition StringFromEnv :: "environment \<Rightarrow> string \<Rightarrow> string \<Rightarrow> string" where
  "StringFromEnv getenv flagValue envKey =
     (if TrimSpace flagValue \<noteq> [] then flagValue else TrimSpace (getenv envKey))"

definition BoolFromEnv :: "environment \<Rightarrow> bool \<Rightarrow> string \<Rightarrow> bool" where
  "BoolFromEnv getenv flagValue envKey =
     (let raw = TrimSpace (getenv envKey)
      in if raw = [] then flagValue
         else case ParseBool raw of None \<Rightarrow> flagValue | Some parsed \<Rightarrow> parsed)"

definition IntFromEnv :: "environment \<Rightarrow> int \<Rightarrow> string \<Rightarrow> int" where
  "IntFromEnv getenv flagValue envKey =
     (let raw = TrimSpace (getenv envKey)
      in if raw = [] then flagValue
         else case Atoi raw of None \<Rightarrow> flagValue | Some parsed \<Rightarrow> parsed)"

definition Int64FromEnv :: "environment \<Rightarrow> int \<Rightarrow> string \<Rightarrow> int" where
  "Int64FromEnv getenv flagValue envKey =
     (let raw = TrimSpace (getenv envKey)
      in if raw = [] then flagValue
         else case ParseInt raw of None \<Rightarrow> flagValue | Some parsed \<Rightarrow> parsed)"

subsection \<open>Discovery\<close>

record discovery_Node =
  dn_ID :: string
  dn_Addr :: string

record discovery_Snapshot =
  ds_SelfID :: string
  ds_Nodes :: "discovery_Node list"

type_synonym ClusterProvider = "Cluster option"

definition NewClusterProvider :: "Cluster option \<Rightarrow> ClusterProvider" where
  "NewClusterProvider clusterView = clusterView"

definition provider_Snapshot :: "ClusterProvider option \<Rightarrow> discovery_Snapshot" where
  "provider_Snapshot p =
     (case p of
        Some (Some cv) \<Rightarrow>
          \<lparr>ds_SelfID = SelfID cv, ds_Nodes = map (\<lambda>member. \<lparr>dn_ID = nd_ID member, dn_Addr = nd_Addr member\<rparr>) (cluster_Members cv)\<rparr>
      | _ \<Rightarrow> \<lparr>ds_SelfID = [], ds_Nodes = []\<rparr>)"

subsection \<open>Flags\<close>

record node_flags =
  fl_addr :: string
  fl_advertiseAddr :: string
  fl_nodeID :: string
  fl_peers :: string
  fl_vnodes :: int
  fl_raftEnabled :: bool
  fl_replicationFactor :: int
  fl_writeQuorum :: int
  fl_readQuorum :: int
  fl_writeConsistency :: string
  fl_readConsistency :: string
  fl_healthInterval :: duration
  fl_maxConns :: int
  fl_maxBytes :: int
  fl_cleanupInterval :: duration
  fl_readTimeout :: duration
  fl_writeTimeout :: duration
  fl_debugAddr :: string

definition default_flags :: node_flags where
  "default_flags =
     \<lparr>fl_addr = '':6379'', fl_advertiseAddr = [], fl_nodeID = [], fl_peers = [], fl_vnodes = 128, fl_raftEnabled = False,
      fl_replicationFactor = 1, fl_writeQuorum = 0, fl_readQuorum = 0, fl_writeConsistency = ''quorum'',
      fl_readConsistency = ''quorum'', fl_healthInterval = 5 * second, fl_maxConns = 1024, fl_maxBytes = 0,
      fl_cleanupInterval = second, fl_readTimeout = 30 * second, fl_writeTimeout = 30 * second, fl_debugAddr = []\<rparr>"

definition override_flags :: "environment \<Rightarrow> node_flags \<Rightarrow> node_flags" where
  "override_flags getenv fl =
     fl\<lparr>fl_nodeID := StringFromEnv getenv (fl_nodeID fl) ''CACHE_NODE_ID'',
        fl_advertiseAddr := StringFromEnv getenv (fl_advertiseAddr fl) ''CACHE_ADVERTISE_ADDR'',
        fl_peers := StringFromEnv getenv (fl_peers fl) ''CACHE_PEERS'',
        fl_debugAddr := StringFromEnv getenv (fl_debugAddr fl) ''CACHE_DEBUG_ADDR'',
        fl_raftEnabled := BoolFromEnv getenv (fl_raftEnabled fl) ''CACHE_RAFT'',
        fl_replicationFactor := IntFromEnv getenv (fl_replicationFactor fl) ''CACHE_REPLICATION_FACTOR'',
        fl_maxBytes := Int64FromEnv getenv (fl_maxBytes fl) ''CACHE_MAX_BYTES''\<rparr>"

subsection \<open>Construction\<close>

datatype start_error =
    InvalidPeers peers_error
  | ClusterFailed cluster_error
  | ReplicationNeedsCluster
  | ManagerFailed manager_error
  | RaftNeedsCluster
  | ServerFailed

definition startStore :: "node_flags \<Rightarrow> Store" where
  "startStore fl = NewStore (DefaultStoreConfig\<lparr>MaxBytes := fl_maxBytes fl, CleanupInterval := fl_cleanupInterval fl\<rparr>)"

definition publicAddr :: "node_flags \<Rightarrow> string" where
  "publicAddr fl = (if fl_advertiseAddr fl = [] then fl_addr fl else fl_advertiseAddr fl)"

definition startCluster :: "node_flags \<Rightarrow> start_error + Cluster option \<times> Node list" where
  "startCluster fl =
     (if fl_nodeID fl = [] then Inr (None, [])
      else case ParsePeers (fl_peers fl) of
        Inl err \<Rightarrow> Inl (InvalidPeers err)
      | Inr peerNodes \<Rightarrow>
          (case NewCluster \<lparr>nd_ID = fl_nodeID fl, nd_Addr = publicAddr fl\<rparr> peerNodes
                  \<lparr>VirtualNodes = fl_vnodes fl, Hash = None\<rparr> of
             Inl err \<Rightarrow> Inl (ClusterFailed err)
           | Inr cv \<Rightarrow> Inr (Some cv, peerNodes)))"

definition startReplication :: "node_flags \<Rightarrow> Cluster option \<Rightarrow> Store \<Rightarrow> start_error + Manager option" where
  "startReplication fl clusterView store =
     (if fl_replicationFactor fl \<le> 1 then Inr None
      else if clusterView = None then Inl ReplicationNeedsCluster
      else case NewManager \<lparr>rp_ReplicationFactor = fl_replicationFactor fl, rp_WriteQuorum = fl_writeQuorum fl,
               rp_ReadQuorum = fl_readQuorum fl, rp_WriteConsistency = fl_writeConsistency fl,
               rp_ReadConsistency = fl_readConsistency fl\<rparr> clusterView (Some store) of
        Inl err \<Rightarrow> Inl (ManagerFailed err)
      | Inr m \<Rightarrow> Inr (Some m))"

text \<open>The callback of \<open>main\<close>: the view changes first, then the peers of the Raft node.\<close>

definition node_apply :: "Cluster apply_fun" where
  "node_apply ent cv =
     (let cmd = e_Command ent
      in if c_Type cmd = CommandAddMember
         then (case Join \<lparr>nd_ID = c_NodeID cmd, nd_Addr = c_Addr cmd\<rparr> cv of
                 Inl err \<Rightarrow> (cv, [])
               | Inr cv' \<Rightarrow> (cv', [AddPeerOp (c_NodeID cmd) (c_Addr cmd)]))
         else if c_Type cmd = CommandRemoveMember
         then (case Leave (c_NodeID cmd) cv of
                 Inl err \<Rightarrow> (cv, [])
               | Inr cv' \<Rightarrow> (cv', [RemovePeerOp (c_NodeID cmd)]))
         else (cv, []))"

definition startRaft :: "env \<Rightarrow> node_flags \<Rightarrow> Cluster option \<Rightarrow> Node list \<Rightarrow> start_error + RaftNode option" where
  "startRaft e fl clusterView peerNodes =
     (if \<not> fl_raftEnabled fl then Inr None
      else if clusterView = None then Inl RaftNeedsCluster
      else let peerMap = fold (\<lambda>peer m. AList.update (nd_ID peer) (nd_Addr peer) m) peerNodes []
           in Inr (Some (NewNode e (fl_nodeID fl) (publicAddr fl) peerMap DefaultRaftConfig)))"

definition startMetrics :: "node_flags \<Rightarrow> Cluster option \<Rightarrow> Registry option \<times> ClusterProvider option" where
  "startMetrics fl clusterView =
     (if fl_debugAddr fl = [] then (None, None)
      else (Some NewRegistry, if clusterView = None then None else Some (NewClusterProvider clusterView)))"

text \<open>\<open>main\<close> up to the listening server; the manager of the server is the one on its own view and store.\<close>

definition node_main :: "env \<Rightarrow> environment \<Rightarrow> node_flags \<Rightarrow> start_error + Server" where
  "node_main e getenv flags =
     (let fl = override_flags getenv flags; store = startStore fl
      in case startCluster fl of
        Inl err \<Rightarrow> Inl err
      | Inr (clusterView, peerNodes) \<Rightarrow>
          (case startReplication fl clusterView store of
             Inl err \<Rightarrow> Inl err
           | Inr manager \<Rightarrow>
               (case startRaft e fl clusterView peerNodes of
                  Inl err \<Rightarrow> Inl err
                | Inr raftNode \<Rightarrow>
                    (case New \<lparr>sc_Addr = fl_addr fl, sc_MaxConnections = fl_maxConns fl, sc_ReadTimeout = fl_readTimeout fl,
                               sc_WriteTimeout = fl_writeTimeout fl, sc_ShutdownTimeout = 0\<rparr>
                            clusterView (map_option (\<lambda>m. (mg_cfg m, mg_health m, mg_peer m)) manager) raftNode
                            (fst (startMetrics fl clusterView)) (Some store) of
                       None \<Rightarrow> Inl ServerFailed
                     | Some srv \<Rightarrow> Inr srv))))"

section \<open>Lemmas\<close>

lemma addPeers_inv: "addPeers self peers r = Inr r' \<Longrightarrow> ring_inv r \<Longrightarrow> ring_inv r'"
  by (induction peers arbitrary: r) (auto split: if_splits sum.splits intro: ring_inv_AddNode)

lemma NewCluster_InrD:
  assumes "NewCluster self peers cfg = Inr c"
  obtains r where "AddNode self (NewRing cfg) = Inr r" "addPeers self peers r = Inr (cl_ring c)" "ring_inv r" "cluster_inv c"
    "selfID c = nd_ID self" "map_of (nodes r) = [nd_ID self \<mapsto> self]"
proof -
  have ne: "nd_ID self \<noteq> []" "nd_Addr self \<noteq> []" using assms by (auto simp: NewCluster_def split: if_splits)
  obtain r where r: "AddNode self (NewRing cfg) = Inr r" "ring_inv r" "map_of (nodes r) = [nd_ID self \<mapsto> self]"
    by (rule NewCluster_self [OF ne])
  have a: "addPeers self peers r = Inr (cl_ring c)" "selfID c = nd_ID self"
    using assms ne r(1) by (auto simp: NewCluster_def split: sum.splits)
  have "cluster_inv c" using addPeers_inv [OF a(1) r(2)] by (simp add: cluster_inv_def)
  then show thesis using that [OF r(1) a(1) r(2) _ a(2) r(3)] by blast
qed

lemma startCluster_inv: "startCluster fl = Inr (Some cv, peerNodes) \<Longrightarrow> cluster_inv cv"
  by (auto simp: startCluster_def split: if_splits sum.splits elim: NewCluster_InrD)

lemma node_apply_inv: "cluster_inv cv \<Longrightarrow> cluster_inv (fst (node_apply ent cv))"
  by (auto simp: node_apply_def Let_def split: sum.split intro: inv_intros)

lemma peerMap_distinct: "distinct (map fst m) \<Longrightarrow> distinct (map fst (fold (\<lambda>peer m. AList.update (nd_ID peer) (nd_Addr peer) m) ps m))"
  by (induction ps arbitrary: m) (simp_all add: distinct_update)

lemma NewManager_fields:
  assumes "NewManager cfg cv st = Inr m"
  shows "Validate (mg_cfg m) = None" "mg_cfg m = Normalize cfg"
  using assms by (auto simp: NewManager_def Let_def split: option.splits)

lemma metrics_inv_New: "metrics_inv NewRegistry"
  by (simp add: metrics_inv_def NewRegistry_def defaultMaxSamples_def)

lemma New_Some: "\<exists>srv. New cfg cv repl rf reg (Some st) = Some srv"
  by (simp add: New_def Let_def)

text \<open>The server that \<open>main\<close> starts.\<close>

lemma node_main_inv:
  assumes "node_main e getenv flags = Inr srv"
  shows "server_inv srv" and "\<And>cfg h p. sv_repl srv = Some (cfg, h, p) \<Longrightarrow> Validate cfg = None \<and> h = NewHealthTracker"
proof -
  define fl where "fl = override_flags getenv flags"
  from assms obtain cv ps m rf where c: "startCluster fl = Inr (cv, ps)" and m: "startReplication fl cv (startStore fl) = Inr m"
    and rf: "startRaft e fl cv ps = Inr rf"
    and srv: "sv_store srv = startStore fl" "sv_cluster srv = cv" "sv_repl srv = map_option (\<lambda>m. (mg_cfg m, mg_health m, mg_peer m)) m"
      "sv_raft srv = rf" "sv_metrics srv = fst (startMetrics fl cv)"
    by (auto simp: node_main_def New_def Let_def fl_def [symmetric] split: sum.splits option.splits prod.splits)
  have "cv \<noteq> None" if "sv_repl srv \<noteq> None \<or> sv_raft srv \<noteq> None"
    using that m rf srv by (auto simp: startReplication_def startRaft_def split: if_splits)
  moreover have "raft_inv n" if "rf = Some n" for n
    using that rf by (auto simp: startRaft_def Let_def split: if_splits intro!: NewNode_inv peerMap_distinct)
  moreover have "metrics_inv r" if "sv_metrics srv = Some r" for r
    using that srv(5) by (auto simp: startMetrics_def metrics_inv_New split: if_splits)
  ultimately show "server_inv srv"
    using srv startCluster_inv c by (auto simp: server_inv_def server_wf_def startStore_def NewStore_inv)
  show "Validate cfg = None \<and> h = NewHealthTracker" if "sv_repl srv = Some (cfg, h, p)" for cfg h p
    using that m srv(3) NewManager_fields(1)
    by (auto simp: startReplication_def NewManager_def Let_def split: if_splits sum.splits option.splits)
qed

subsection \<open>Members agree\<close>

lemma AddNode_same: "AddNode nd r = Inr r' \<Longrightarrow> vnodes r' = vnodes r \<and> hashf r' = hashf r"
  by (simp add: AddNode_InrD)

lemma addPeers_same: "addPeers self peers r = Inr r' \<Longrightarrow> vnodes r' = vnodes r \<and> hashf r' = hashf r"
  by (induction peers arbitrary: r) (auto split: if_splits sum.splits dest!: AddNode_same)

lemma addPeers_nodes:
  "addPeers self peers r = Inr r' \<Longrightarrow> map_of (nodes r') = map_of (nodes r) ++ map_of (rev (map (\<lambda>p. (nd_ID p, p)) peers))"
  by (induction peers arbitrary: r) (auto split: if_splits sum.splits dest: AddNode_InrD(6) simp: update_conv')

lemma addPeers_full:
  assumes "addPeers self peers r = Inr r'" and "ring_full r"
    and "\<And>k m. k \<noteq> m \<Longrightarrow> map_of (nodes r') k \<noteq> None \<Longrightarrow> map_of (nodes r') m \<noteq> None \<Longrightarrow> vnode_set r k \<inter> vnode_set r m = {}"
  shows "ring_full r'"
  using assms
proof (induction peers arbitrary: r)
  case (Cons p peers)
  from Cons.prems(1) obtain r1 where r1: "AddNode p r = Inr r1" "addPeers self peers r1 = Inr r'"
    by (auto split: if_splits sum.splits)
  note a = AddNode_InrD [OF r1(1)]
  have v: "vnode_set r1 = vnode_set r" using a(4,5) by (rule vnode_set_eqI)
  have sub: "map_of (nodes r') k \<noteq> None" if "map_of (nodes r1) k \<noteq> None" for k
    using that addPeers_nodes [OF r1(2)] by (auto simp: map_add_def split: option.splits)
  have "ring_full r1"
  proof (rule ring_full_AddNode [OF Cons.prems(2) r1(1)])
    fix k
    assume k: "map_of (nodes r) k \<noteq> None"
    then have "k \<noteq> nd_ID p" using a(3) by auto
    then show "vnode_set r k \<inter> vnode_set r (nd_ID p) = {}"
      using Cons.prems(3) [of k "nd_ID p"] sub [of k] sub [of "nd_ID p"] k by (simp add: a(6))
  qed
  then show ?case using Cons.IH [OF r1(2)] Cons.prems(3) v by simp
qed simp

lemma NewCluster_nodes:
  assumes "NewCluster self peers cfg = Inr c"
  shows "map_of (nodes (cl_ring c)) k = Some nd \<longleftrightarrow> nd \<in> insert self (set peers) \<and> nd_ID nd = k"
proof -
  obtain r where r: "AddNode self (NewRing cfg) = Inr r" "addPeers self peers r = Inr (cl_ring c)" "ring_inv r" "cluster_inv c"
    "map_of (nodes r) = [nd_ID self \<mapsto> self]" by (rule NewCluster_InrD [OF assms])
  have d: "nd_ID self \<in> dom (map_of (nodes r))" using r(5) by simp
  obtain r' where r': "addPeers self peers r = Inr r'"
    "\<forall>nd. map_of (nodes r') (nd_ID nd) = Some nd \<longleftrightarrow> map_of (nodes r) (nd_ID nd) = Some nd \<or> nd \<in> set peers"
    using addPeers_ok [OF r(3) d] addPeers_InrD [OF r(2) d] by blast
  have "map_of (nodes (cl_ring c)) (nd_ID nd) = Some nd \<longleftrightarrow> nd \<in> insert self (set peers)" for nd
    using r'(1,2) r(2,5) by (auto split: if_splits)
  moreover have "nd_ID nd = k" if "map_of (nodes (cl_ring c)) k = Some nd"
    using that r(4) by (simp add: cluster_inv_def ring_inv_def)
  ultimately show ?thesis by auto
qed

lemma NewCluster_hash:
  assumes "NewCluster self peers cfg = Inr c"
  shows "vnode_set (cl_ring c) = vnode_set (NewRing cfg)" "hashf (cl_ring c) = hashf (NewRing cfg)"
proof -
  obtain r where "AddNode self (NewRing cfg) = Inr r" "addPeers self peers r = Inr (cl_ring c)" by (rule NewCluster_InrD [OF assms])
  then have v: "vnodes (cl_ring c) = vnodes (NewRing cfg)" and h: "hashf (cl_ring c) = hashf (NewRing cfg)"
    using AddNode_same addPeers_same by metis+
  show "hashf (cl_ring c) = hashf (NewRing cfg)" by (fact h)
  show "vnode_set (cl_ring c) = vnode_set (NewRing cfg)" using v h by (rule vnode_set_eqI)
qed

lemma NewCluster_full:
  assumes "NewCluster self peers cfg = Inr c"
    and "\<And>k m. k \<noteq> m \<Longrightarrow> map_of (nodes (cl_ring c)) k \<noteq> None \<Longrightarrow> map_of (nodes (cl_ring c)) m \<noteq> None \<Longrightarrow>
      vnode_set (NewRing cfg) k \<inter> vnode_set (NewRing cfg) m = {}"
  shows "ring_full (cl_ring c)"
proof -
  obtain r where r: "AddNode self (NewRing cfg) = Inr r" "addPeers self peers r = Inr (cl_ring c)" by (rule NewCluster_InrD [OF assms(1)])
  have v: "vnode_set r = vnode_set (NewRing cfg)" using AddNode_InrD(4,5) [OF r(1)] by (rule vnode_set_eqI)
  have "ring_full (NewRing cfg)" by (simp add: ring_full_def NewRing_def)
  then have "ring_full r" by (rule ring_full_AddNode [OF _ r(1)]) (simp add: NewRing_def)
  then show ?thesis by (rule addPeers_full [OF r(2)]) (use assms(2) v in simp)
qed

section \<open>Properties\<close>

text \<open>
  C14: The members of a cluster agree. Two nodes that are started with the same members, each with itself
  as the local node and the others as its peers in any order, name the same owner and the same replicas
  for every key and list the same members, when no two virtual nodes collide on the ring.
\<close>

theorem members_agree:
  assumes "NewCluster self peers cfg = Inr c" and "NewCluster self' peers' cfg = Inr c'"
    and "insert self (set peers) = insert self' (set peers')" and "ring_full (cl_ring c)"
  shows "(\<forall>key. Owner c' key = Owner c key) \<and> (\<forall>key n. Owners c' key n = Owners c key n) \<and>
    set (cluster_Members c') = set (cluster_Members c)"
proof -
  let ?r = "cl_ring c" and ?r' = "cl_ring c'"
  have nodes: "map_of (nodes ?r') = map_of (nodes ?r)"
  proof
    fix k
    have "map_of (nodes ?r') k = Some nd \<longleftrightarrow> map_of (nodes ?r) k = Some nd" for nd
      unfolding NewCluster_nodes [OF assms(1)] NewCluster_nodes [OF assms(2)] assms(3) ..
    then show "map_of (nodes ?r') k = map_of (nodes ?r) k" by (metis option.exhaust)
  qed
  have inv: "ring_inv ?r" "ring_inv ?r'"
    using NewCluster_InrD [OF assms(1)] NewCluster_InrD [OF assms(2)] unfolding cluster_inv_def by metis+
  note h = NewCluster_hash [OF assms(1)] NewCluster_hash [OF assms(2)]
  have full: "ring_full ?r'"
    by (rule NewCluster_full [OF assms(2)]) (use ring_full_disjoint [OF assms(4)] nodes h(1) in simp)
  have "map_of (lookup ?r') x = Some k \<longleftrightarrow> map_of (lookup ?r) x = Some k" for x k
    using full assms(4) nodes h by (simp add: ring_full_def)
  then have lk: "map_of (lookup ?r') = map_of (lookup ?r)" by (metis ext option.exhaust)
  have "set (hashes ?r') = set (hashes ?r)" using inv lk by (simp add: ring_inv_def)
  note cong = LookupN_cong [OF inv this _ lk nodes]
  have "set (cluster_Members c') = set (cluster_Members c)"
    using members_map_of [OF inv(1)] members_map_of [OF inv(2)] nodes by (auto simp: cluster_Members_def)
  then show ?thesis using cong h by (simp add: Owner_def Owners_def)
qed

abbreviation demo_ring_config :: RingConfig where
  "demo_ring_config \<equiv> \<lparr>VirtualNodes = 2, Hash = None\<rparr>"

lemma demo_NewCluster:
  assumes "nd_ID a \<noteq> []" "nd_Addr a \<noteq> []" "nd_ID b \<noteq> []" "nd_Addr b \<noteq> []" "nd_ID a \<noteq> nd_ID b"
  shows "NewCluster a [b] demo_ring_config = Inr \<lparr>cl_ring = fold ring_step [AddOp a, AddOp b] (NewRing demo_ring_config), selfID = nd_ID a\<rparr>"
proof -
  obtain r where r: "AddNode a (NewRing demo_ring_config) = Inr r" "map_of (nodes r) = [nd_ID a \<mapsto> a]"
    by (rule NewCluster_self [OF assms(1,2)])
  obtain r' where "AddNode b r = Inr r'" using AddNode_succeeds [OF assms(3,4), of r] r(2) assms(5) by auto
  then show ?thesis using r(1) assms by (simp add: NewCluster_def)
qed

theorem members_agree_witness:
  "\<exists>c c'. NewCluster demo_n1 [demo_n2] demo_ring_config = Inr c \<and> NewCluster demo_n2 [demo_n1] demo_ring_config = Inr c' \<and>
     (\<forall>key. Owner c' key = Owner c key)"
proof -
  let ?c = "\<lparr>cl_ring = demo_ring, selfID = ''n1''\<rparr>"
    and ?c' = "\<lparr>cl_ring = fold ring_step [AddOp demo_n2, AddOp demo_n1] (NewRing demo_ring_config), selfID = ''n2''\<rparr>"
  have 1: "NewCluster demo_n1 [demo_n2] demo_ring_config = Inr ?c"
    using demo_NewCluster [of demo_n1 demo_n2] by (simp add: demo_n1_def demo_n2_def demo_ring_def)
  have 2: "NewCluster demo_n2 [demo_n1] demo_ring_config = Inr ?c'"
    using demo_NewCluster [of demo_n2 demo_n1] by (simp add: demo_n1_def demo_n2_def)
  have "\<forall>key. Owner ?c' key = Owner ?c key"
    using members_agree [OF 1 2] demo_full by (simp add: insert_commute)
  then show ?thesis using 1 2 by blast
qed

text \<open>
  A node that starts can serve. Whatever the flags and the environment variables are, when \<open>main\<close> gets
  to its server, the configuration of replication is valid and the server survives every connection: the
  handler returns without a panic and leaves all parts well formed. Here the entries that Raft applies go
  through the callback of \<open>main\<close>; the network and the other goroutines are as in the statement about
  connections.
\<close>

theorem started_node_serves:
  assumes "node_main e getenv flags = Inr srv"
    and "net_safe (en_net E)" and "en_apply E = node_apply"
    and "\<And>k s w s' w' err. server_inv s \<Longrightarrow> en_await E k (s, w) = ((s', w'), err) \<Longrightarrow> server_inv s'"
    and "decodes_safely rd"
  shows "(\<forall>cfg h p. sv_repl srv = Some (cfg, h, p) \<longrightarrow> Validate cfg = None) \<and>
    (\<exists>srv' w' ms out. handleConn E ctx rd (srv, w) = Some ((srv', w'), ms, out) \<and> server_inv srv')"
proof -
  have "env_safe E" using assms(2-4) node_apply_inv unfolding env_safe_def by simp
  then have "good (handleConn E ctx rd (srv, w))" by (rule handleConn_good [OF _ assms(5) node_main_inv(1) [OF assms(1)]])
  then show ?thesis using node_main_inv(2) [OF assms(1)] unfolding good_def by (metis prod.collapse)
qed

definition demo_flags :: node_flags where
  "demo_flags = default_flags\<lparr>fl_nodeID := ''n1'', fl_peers := ''n2=h2:1'', fl_vnodes := 2, fl_raftEnabled := True,
     fl_replicationFactor := 2, fl_debugAddr := ''d:1''\<rparr>"

lemma demo_start: "\<exists>srv. node_main demo_env (\<lambda>_. []) demo_flags = Inr srv"
proof -
  have "TrimSpace ''n1'' = ''n1''" "TrimSpace ''n2=h2:1'' = ''n2=h2:1''" "TrimSpace ''d:1'' = ''d:1''" "TrimSpace [] = []" by code_simp+
  then have fl: "override_flags (\<lambda>_. []) demo_flags = demo_flags"
    by (simp add: override_flags_def StringFromEnv_def BoolFromEnv_def IntFromEnv_def Int64FromEnv_def demo_flags_def default_flags_def)
  have p: "ParsePeers ''n2=h2:1'' = Inr [demo_n2]" by code_simp
  have c: "\<exists>cv. startCluster demo_flags = Inr (Some cv, [demo_n2])"
    using demo_NewCluster [of "\<lparr>nd_ID = ''n1'', nd_Addr = '':6379''\<rparr>" demo_n2] p
    by (simp add: startCluster_def demo_flags_def default_flags_def publicAddr_def demo_n2_def)
  have v: "Validate (Normalize \<lparr>rp_ReplicationFactor = 2, rp_WriteQuorum = 0, rp_ReadQuorum = 0, rp_WriteConsistency = ''quorum'',
      rp_ReadConsistency = ''quorum''\<rparr>) = None" by code_simp
  have m: "\<exists>m. startReplication demo_flags (Some cv) st = Inr m" for cv st
    using v by (simp add: startReplication_def NewManager_def demo_flags_def default_flags_def)
  obtain cv where cv: "startCluster demo_flags = Inr (Some cv, [demo_n2])" using c by blast
  obtain m where m: "startReplication demo_flags (Some cv) (startStore demo_flags) = Inr m" using m by blast
  have "\<exists>rf. startRaft demo_env demo_flags (Some cv) [demo_n2] = Inr rf" by (simp add: startRaft_def Let_def)
  then obtain rf where "startRaft demo_env demo_flags (Some cv) [demo_n2] = Inr rf" by blast
  moreover obtain srv where "New \<lparr>sc_Addr = fl_addr demo_flags, sc_MaxConnections = fl_maxConns demo_flags,
      sc_ReadTimeout = fl_readTimeout demo_flags, sc_WriteTimeout = fl_writeTimeout demo_flags, sc_ShutdownTimeout = 0\<rparr> (Some cv)
      (map_option (\<lambda>m. (mg_cfg m, mg_health m, mg_peer m)) m) rf (fst (startMetrics demo_flags (Some cv))) (Some (startStore demo_flags)) = Some srv"
    using New_Some by blast
  ultimately show ?thesis using cv m by (simp add: node_main_def fl)
qed

theorem started_node_serves_witness:
  "\<exists>srv srv' w' ms out. node_main demo_env (\<lambda>_. []) demo_flags = Inr srv \<and>
     handleConn (demo_server_env\<lparr>en_apply := node_apply\<rparr>) Background (NewReader []) (srv, ()) = Some ((srv', w'), ms, out) \<and> server_inv srv'"
proof -
  obtain srv where srv: "node_main demo_env (\<lambda>_. []) demo_flags = Inr srv" using demo_start by blast
  have "decodes_safely (NewReader [])" by (rule bad_input [OF DecodeRequest_end]) simp
  then show ?thesis
    using started_node_serves [OF srv, of "demo_server_env\<lparr>en_apply := node_apply\<rparr>" "NewReader []" Background "()"] srv
    by (simp add: demo_server_env_def net_safe_def demo_refusing_def)
qed

end
