(* ===== verification/Node_Process.thy ===== *)
theory Node_Process
  imports Node_Start
begin

text \<open>
  A running node: \<open>main\<close> of \<^verbatim>\<open>src/cmd/node/main.go\<close> after the server is built. Connections are served while
  the cleanup of the store, the health checks and the timer of the Raft node run in goroutines of their own
  and the replies to Raft messages come in.

  The process is a sequence of events, each of them one request or one turn of a background loop; the loops
  themselves are \<open>RunCleanup\<close>, \<open>RunHealthChecks\<close> and \<open>raft_Start\<close> of their components. A request that waits
  for a proposal lets the rest of the process go on: \<open>process_env\<close> puts a sequence of events in the place of
  the wait. Its number bounds how many waiting requests are nested in one another; the statements hold for
  every bound. \<open>None\<close> is a panic.
\<close>

section \<open>Model\<close>

datatype process_event =
    RequestIn Context Request
  | CleanupTick
  | HealthTurn Context
  | RaftTimer env
  | VoteReplied env "RequestVoteResponse option"
  | WonElection env nat
  | AppendReplied env string AppendEntriesRequest "AppendEntriesResponse option"

text \<open>A step of the Raft node, with the cluster view its entries are applied to.\<close>

definition raft_event :: "Cluster apply_fun \<Rightarrow> env \<Rightarrow> raft_input \<Rightarrow> Server \<Rightarrow> Server option" where
  "raft_event ap e i srv =
     (case (sv_cluster srv, sv_raft srv) of
        (Some cv, Some rf) \<Rightarrow>
          map_option (\<lambda>(cv', rf'). srv\<lparr>sv_cluster := Some cv', sv_raft := Some rf'\<rparr>) (raft_step ap (e, i) (cv, rf))
      | _ \<Rightarrow> Some srv)"

fun process_step :: "'w server_env \<Rightarrow> process_event \<Rightarrow> Server \<times> 'w \<Rightarrow> (Server \<times> 'w) option" where
  "process_step E (RequestIn ctx req) s = map_option fst (serveRequest E ctx req s)"
| "process_step E CleanupTick (srv, w) = Some (srv\<lparr>sv_store := cleanupExpired (en_clock E w) (sv_store srv)\<rparr>, w)"
| "process_step E (HealthTurn ctx) (srv, w) =
     (case manager_of srv of
        None \<Rightarrow> Some (srv, w)
      | Some m \<Rightarrow> map_option (\<lambda>(m', w'). (with_manager m' srv, w')) (checkHealth (en_net E) ctx (m, w)))"
| "process_step E (RaftTimer e) (srv, w) = map_option (\<lambda>srv'. (srv', w)) (raft_event (en_apply E) e TickIn srv)"
| "process_step E (VoteReplied e reply) (srv, w) = map_option (\<lambda>srv'. (srv', w)) (raft_event (en_apply E) e (VoteReplyIn reply) srv)"
| "process_step E (WonElection e t) (srv, w) = map_option (\<lambda>srv'. (srv', w)) (raft_event (en_apply E) e (ElectionWonIn t) srv)"
| "process_step E (AppendReplied e p req reply) (srv, w) =
     map_option (\<lambda>srv'. (srv', w)) (raft_event (en_apply E) e (AppendReplyIn p req reply) srv)"

fun process_run :: "'w server_env \<Rightarrow> process_event list \<Rightarrow> Server \<times> 'w \<Rightarrow> (Server \<times> 'w) option" where
  "process_run E [] s = Some s"
| "process_run E (ev # evs) s = do { s' \<leftarrow> process_step E ev s; process_run E evs s' }"

text \<open>
  \<open>during\<close> gives the events that happen while a proposal waits and how the wait ends. A panic during the
  wait would end the process; the state is left as it was then.
\<close>

fun process_env :: "'w server_env \<Rightarrow> (nat \<Rightarrow> Server \<times> 'w \<Rightarrow> process_event list \<times> string option) \<Rightarrow> nat \<Rightarrow> 'w server_env" where
  "process_env base during 0 = base\<lparr>en_await := (\<lambda>k s. (s, Some ''context deadline exceeded''))\<rparr>"
| "process_env base during (Suc n) =
     base\<lparr>en_await := (\<lambda>k s.
       case during k s of (evs, err) \<Rightarrow>
         (case process_run (process_env base during n) evs s of None \<Rightarrow> (s, err) | Some s' \<Rightarrow> (s', err)))\<rparr>"

section \<open>Lemmas\<close>

lemma appendReply_keeps:
  assumes "\<And>ent s. P s \<Longrightarrow> P (fst (ap ent s))" and "appendReply ap e p req reply s n = Some (s', n', ms)" and "P s"
  shows "P s'"
  using assms(2,3) applyLoop_keeps [of P ap, OF assms(1)]
  by (auto simp: appendReply_def applyCommitted_def Let_def split: option.splits if_splits bind_splits)

text \<open>The inputs of the background goroutines.\<close>

lemma raft_event_good:
  assumes "server_inv srv" and ap: "\<And>ent cv. cluster_inv cv \<Longrightarrow> cluster_inv (fst (ap ent cv))"
    and i: "i = TickIn \<or> (\<exists>r. i = VoteReplyIn r) \<or> (\<exists>t. i = ElectionWonIn t) \<or> (\<exists>p req r. i = AppendReplyIn p req r)"
  shows "\<exists>srv'. raft_event ap e i srv = Some srv' \<and> server_inv srv'"
proof (cases "sv_cluster srv = None \<or> sv_raft srv = None")
  case True
  then show ?thesis using assms(1) by (auto simp: raft_event_def split: option.splits)
next
  case False
  then obtain cv rf where s: "sv_cluster srv = Some cv" "sv_raft srv = Some rf" by auto
  then have inv: "cluster_inv cv" "raft_inv rf" using assms(1) by (simp_all add: server_inv_def)
  obtain cv' rf' where r: "raft_step ap (e, i) (cv, rf) = Some (cv', rf')" "raft_inv rf'"
    using raft_step_inv [OF inv(2), of ap e i cv] by blast
  have "cluster_inv cv'"
    using i r(1) inv(1) appendReply_keeps [of cluster_inv ap, OF ap] by (auto split: option.splits)
  then show ?thesis
    using r s server_inv_raft_cluster [OF assms(1) r(2)] by (simp add: raft_event_def)
qed

lemma checkMembers_returns:
  assumes "net_safe nw" and "store_inv (mg_store m)"
  shows "\<exists>m' w'. checkMembers nw ctx ns (m, w) = Some (m', w') \<and> kept m m'"
  using assms(2)
proof (induction ns arbitrary: m w)
  case (Cons nd ns)
  show ?case
  proof (cases "nd_ID nd = SelfID (mg_cluster m)")
    case False
    obtain w1 err where p: "Ping nw (mg_peer m) ctx (nd_Addr nd) w = Some (w1, err)" using rpc_returns(4) [OF assms(1)] by metis
    have k: "kept m (mark (nd_ID nd) err m)" by (rule kept_mark [OF Cons.prems])
    obtain m' w' where "checkMembers nw ctx ns (mark (nd_ID nd) err m, w1) = Some (m', w')" "kept (mark (nd_ID nd) err m) m'"
      using Cons.IH [OF keptD(3) [OF k]] by blast
    then show ?thesis using False p kept_trans [OF k] by auto
  qed (use Cons in auto)
qed (simp add: kept_refl)

lemma process_step_good:
  assumes E: "env_safe E" and inv: "server_inv srv"
  shows "\<exists>srv' w'. process_step E ev (srv, w) = Some (srv', w') \<and> server_inv srv'"
proof -
  have raft: "\<exists>srv'. raft_event (en_apply E) e i srv = Some srv' \<and> server_inv srv'"
    if "i = TickIn \<or> (\<exists>r. i = VoteReplyIn r) \<or> (\<exists>t. i = ElectionWonIn t) \<or> (\<exists>p req r. i = AppendReplyIn p req r)" for e i
    by (rule raft_event_good [OF inv _ that]) (use E in \<open>simp add: env_safe_def\<close>)
  show ?thesis
  proof (cases ev)
    case (RequestIn ctx req)
    then show ?thesis using serveRequest_good [OF E inv, of ctx req w] unfolding good_def by force
  next
    case CleanupTick
    then show ?thesis using server_inv_store [OF inv cleanupExpired_inv [OF server_inv_storeD [OF inv]]] by simp
  next
    case (HealthTurn ctx)
    show ?thesis
    proof (cases "manager_of srv")
      case None
      then show ?thesis using HealthTurn inv by simp
    next
      case (Some m)
      have "net_safe (en_net E)" using E by (simp add: env_safe_def)
      from checkMembers_returns [OF this manager_store_inv [OF inv Some], of ctx "cluster_Members (mg_cluster m)" w]
      obtain m' w' where "checkHealth (en_net E) ctx (m, w) = Some (m', w')" "kept m m'" by (auto simp: checkHealth_def)
      then show ?thesis using HealthTurn Some server_inv_manager [OF inv Some] by simp
    qed
  next
    case (RaftTimer e)
    then show ?thesis using raft [of TickIn e] by auto
  next
    case (VoteReplied e reply)
    then show ?thesis using raft [of "VoteReplyIn reply" e] by auto
  next
    case (WonElection e t)
    then show ?thesis using raft [of "ElectionWonIn t" e] by auto
  next
    case (AppendReplied e p req reply)
    then show ?thesis using raft [of "AppendReplyIn p req reply" e] by auto
  qed
qed

lemma process_run_good:
  "env_safe E \<Longrightarrow> server_inv srv \<Longrightarrow> \<exists>srv' w'. process_run E evs (srv, w) = Some (srv', w') \<and> server_inv srv'"
proof (induction evs arbitrary: srv w)
  case (Cons ev evs)
  obtain srv1 w1 where 1: "process_step E ev (srv, w) = Some (srv1, w1)" "server_inv srv1"
    using process_step_good [OF Cons.prems] by blast
  with Cons.IH [OF Cons.prems(1) 1(2)] show ?case by simp
qed simp

lemma process_env_fields [simp]: "en_net (process_env base during n) = en_net base" "en_apply (process_env base during n) = en_apply base"
  by (cases n; simp)+

text \<open>While a proposal waits, the rest of the process keeps the server well formed.\<close>

lemma process_env_safe:
  assumes "net_safe (en_net base)" and "en_apply base = node_apply"
  shows "env_safe (process_env base during n)"
proof (induction n)
  case 0
  then show ?case using assms node_apply_inv by (simp add: env_safe_def)
next
  case (Suc n)
  have "server_inv srv'" if "server_inv srv" "en_await (process_env base during (Suc n)) k (srv, w) = ((srv', w'), err)" for k srv w srv' w' err
    using process_run_good [OF Suc that(1), of "fst (during k (srv, w))" w] that(2) by (auto split: prod.splits)
  then show ?case using assms node_apply_inv by (auto simp: env_safe_def)
qed

section \<open>Properties\<close>



end
