(* ===== verification/Debug_Server.thy ===== *)
theory Debug_Server
  imports Node_Start
begin

text \<open>
  The debug HTTP server of a node (\<^verbatim>\<open>src/internal/metrics/pprof.go\<close>) and the probe that asks it whether
  the node is alive (\<^verbatim>\<open>src/cmd/healthcheck/main.go\<close>).

  A multiplexer is the list of its patterns with their handlers. Of \<open>http.ServeMux\<close> the model has the rule
  for patterns without host and method on a clean path: a pattern that ends in a slash matches every path
  below it, any other pattern itself only, and the longest match wins; a path that lacks only the final
  slash of a pattern is redirected. The profiling handlers of \<open>net/http/pprof\<close>, the JSON encoder, the
  listening socket and the HTTP client are parameters. Requests are served one after the other.
\<close>

section \<open>Model\<close>

subsection \<open>The debug server\<close>

text \<open>The handlers read registry and view at the time of the request, so the options hold their current values.\<close>

record DebugOptions =
  do_Registry :: "Registry option"
  do_Discovery :: "ClusterProvider option"

datatype debug_handler = Healthz | MetricsJSON | DiscoveryJSON | PProfIndex | PProfCmdline | PProfProfile | PProfSymbol | PProfTrace

type_synonym ServeMux = "(string \<times> debug_handler) list"

definition registerPProf :: "ServeMux \<Rightarrow> ServeMux" where
  "registerPProf mux = mux @
     [(''/debug/pprof/'', PProfIndex), (''/debug/pprof/cmdline'', PProfCmdline), (''/debug/pprof/profile'', PProfProfile),
      (''/debug/pprof/symbol'', PProfSymbol), (''/debug/pprof/trace'', PProfTrace)]"

definition newDebugMux :: "DebugOptions \<Rightarrow> ServeMux" where
  "newDebugMux opts =
     (let m1 = [(''/healthz'', Healthz)];
          m2 = (if do_Registry opts \<noteq> None then m1 @ [(''/metrics'', MetricsJSON)] else m1);
          m3 = (if do_Discovery opts \<noteq> None then m2 @ [(''/discovery'', DiscoveryJSON)] else m2)
      in registerPProf m3)"

text \<open>What \<open>ServeMux\<close> finds for a path.\<close>

datatype route = NoRoute | SlashRedirect | Route debug_handler

definition pattern_matches :: "string \<Rightarrow> string \<Rightarrow> bool" where
  "pattern_matches pat path = (if pat \<noteq> [] \<and> last pat = CHR ''/'' then prefix pat path else pat = path)"

fun longest :: "(string \<times> debug_handler) list \<Rightarrow> (string \<times> debug_handler) option" where
  "longest [] = None"
| "longest ((pat, h) # ps) =
     (case longest ps of
        None \<Rightarrow> Some (pat, h)
      | Some (pat', h') \<Rightarrow> if length pat' < length pat then Some (pat, h) else Some (pat', h'))"

definition mux_route :: "ServeMux \<Rightarrow> string \<Rightarrow> route" where
  "mux_route mux path =
     (case longest (filter (\<lambda>(pat, h). pattern_matches pat path) mux) of
        Some (pat, h) \<Rightarrow> Route h
      | None \<Rightarrow> if map_of mux (path @ ''/'') \<noteq> None then SlashRedirect else NoRoute)"

text \<open>The answer to a request: status and body; \<open>he_page\<close> is the page of the multiplexer itself for a status.\<close>

record http_env =
  he_Snapshot :: "Snapshot \<Rightarrow> bytes"
  he_Discovery :: "discovery_Snapshot \<Rightarrow> bytes"
  he_pprof :: "debug_handler \<Rightarrow> nat \<times> bytes"
  he_page :: "nat \<Rightarrow> string \<Rightarrow> bytes"

definition debug_handle :: "http_env \<Rightarrow> time \<Rightarrow> DebugOptions \<Rightarrow> debug_handler \<Rightarrow> (nat \<times> bytes) option" where
  "debug_handle he now opts h =
     (case h of
        Healthz \<Rightarrow> Some (200, ''ok'' @ [newline])
      | MetricsJSON \<Rightarrow> (case do_Registry opts of None \<Rightarrow> None | Some reg \<Rightarrow> Some (200, he_Snapshot he (registry_Snapshot now reg)))
      | DiscoveryJSON \<Rightarrow> (case do_Discovery opts of None \<Rightarrow> None | Some p \<Rightarrow> Some (200, he_Discovery he (provider_Snapshot (Some p))))
      | _ \<Rightarrow> Some (he_pprof he h))"

definition debug_serve :: "http_env \<Rightarrow> time \<Rightarrow> DebugOptions \<Rightarrow> string \<Rightarrow> (nat \<times> bytes) option" where
  "debug_serve he now opts path =
     (case mux_route (newDebugMux opts) path of
        NoRoute \<Rightarrow> Some (404, he_page he 404 path)
      | SlashRedirect \<Rightarrow> Some (301, he_page he 301 path)
      | Route h \<Rightarrow> debug_handle he now opts h)"

text \<open>
  \<open>StartDebug\<close>: an empty address starts nothing; otherwise the address the listener is bound to and the
  multiplexer that serves it, or the error of the listener.
\<close>

definition StartDebug :: "(string \<Rightarrow> string + string) \<Rightarrow> string \<Rightarrow> DebugOptions \<Rightarrow> string + string \<times> ServeMux option" where
  "StartDebug listen addr opts =
     (if addr = [] then Inr ([], None)
      else case listen addr of
        Inl err \<Rightarrow> Inl (''listen debug server on '' @ addr @ '': '' @ err)
      | Inr bound \<Rightarrow> Inr (bound, Some (newDebugMux opts)))"

text \<open>\<open>ServeDebug\<close> blocks in \<open>server.Serve\<close>, whose result is the parameter \<open>serve\<close>.\<close>

definition ServeDebug :: "(string \<Rightarrow> string + string) \<Rightarrow> (ServeMux \<Rightarrow> string option) \<Rightarrow> string \<Rightarrow> DebugOptions \<Rightarrow> string option" where
  "ServeDebug listen serve addr opts =
     (if addr = [] then None
      else case listen addr of
        Inl err \<Rightarrow> Some (''listen debug server on '' @ addr @ '': '' @ err)
      | Inr _ \<Rightarrow> serve (newDebugMux opts))"

subsection \<open>The probe\<close>

definition healthcheck_target :: "environment \<Rightarrow> string" where
  "healthcheck_target getenv =
     (let target = getenv ''HEALTHCHECK_URL''
      in if target = [] then ''http://127.0.0.1:6060/healthz'' else target)"

definition healthcheck_timeout :: "(string \<Rightarrow> duration option) \<Rightarrow> environment \<Rightarrow> duration" where
  "healthcheck_timeout ParseDuration getenv =
     (let raw = getenv ''HEALTHCHECK_TIMEOUT''
      in if raw = [] then 3 * second
         else case ParseDuration raw of None \<Rightarrow> 3 * second | Some parsed \<Rightarrow> parsed)"

text \<open>The exit code; \<open>get\<close> is the HTTP client, with the status code of the answer.\<close>

definition healthcheck_main :: "(string \<Rightarrow> duration option) \<Rightarrow> (duration \<Rightarrow> string \<Rightarrow> string + nat) \<Rightarrow> environment \<Rightarrow> nat" where
  "healthcheck_main ParseDuration get getenv =
     (case get (healthcheck_timeout ParseDuration getenv) (healthcheck_target getenv) of
        Inl err \<Rightarrow> 1
      | Inr status \<Rightarrow> if status \<noteq> 200 then 1 else 0)"

section \<open>Lemmas\<close>

lemma newDebugMux_patterns:
  "distinct (map fst (newDebugMux opts))"
  by (simp add: newDebugMux_def registerPProf_def Let_def)

text \<open>Every endpoint is routed to its handler; the optional ones are there exactly when their source is.\<close>

lemma debug_routes:
  "mux_route (newDebugMux opts) ''/healthz'' = Route Healthz"
  "mux_route (newDebugMux opts) ''/metrics'' = (if do_Registry opts = None then NoRoute else Route MetricsJSON)"
  "mux_route (newDebugMux opts) ''/discovery'' = (if do_Discovery opts = None then NoRoute else Route DiscoveryJSON)"
  "mux_route (newDebugMux opts) ''/debug/pprof/heap'' = Route PProfIndex"
  "mux_route (newDebugMux opts) ''/debug/pprof/profile'' = Route PProfProfile"
  "mux_route (newDebugMux opts) ''/debug/pprof'' = SlashRedirect"
  by (simp_all add: mux_route_def newDebugMux_def registerPProf_def Let_def pattern_matches_def)

lemma longest_mem: "longest ps = Some p \<Longrightarrow> p \<in> set ps"
  by (induction ps arbitrary: p) (auto split: option.splits if_splits)

text \<open>No request makes a handler dereference a missing registry or view.\<close>

lemma debug_serve_answers: "debug_serve he now opts path \<noteq> None"
proof (cases "mux_route (newDebugMux opts) path")
  case (Route h)
  then obtain pat where "longest (filter (\<lambda>(pat, h). pattern_matches pat path) (newDebugMux opts)) = Some (pat, h)"
    by (auto simp: mux_route_def split: option.splits if_splits)
  from longest_mem [OF this] have "(pat, h) \<in> set (newDebugMux opts)" by simp
  then show ?thesis
    using Route by (auto simp: debug_serve_def debug_handle_def newDebugMux_def registerPProf_def Let_def split: if_splits)
qed (simp_all add: debug_serve_def)

text \<open>The discovery endpoint of a started node lists the members of its view.\<close>

lemma discovery_endpoint:
  "debug_serve he now \<lparr>do_Registry = reg, do_Discovery = Some (NewClusterProvider (Some cv))\<rparr> ''/discovery'' =
     Some (200, he_Discovery he \<lparr>ds_SelfID = SelfID cv,
       ds_Nodes = map (\<lambda>member. \<lparr>dn_ID = nd_ID member, dn_Addr = nd_Addr member\<rparr>) (cluster_Members cv)\<rparr>)"
  by (simp add: debug_serve_def debug_routes debug_handle_def provider_Snapshot_def NewClusterProvider_def)

text \<open>A probe with its default settings succeeds on a node whose debug server answers it.\<close>

lemma probe_succeeds:
  assumes "getenv ''HEALTHCHECK_URL'' = []"
    and "\<And>t. get t ''http://127.0.0.1:6060/healthz'' = Inr (fst (the (debug_serve he now opts ''/healthz'')))"
  shows "healthcheck_main ParseDuration get getenv = 0"
  using assms by (simp add: healthcheck_main_def healthcheck_target_def debug_serve_def debug_routes debug_handle_def)

end
