(* ===== verification/Clients.thy ===== *)
theory Clients
  imports Replication_Manager Metrics_Registry
begin

text \<open>
  The programs that talk to a node: the command line client (\<^verbatim>\<open>src/cmd/client/main.go\<close>) and the load
  generator (\<^verbatim>\<open>src/cmd/loadtest/main.go\<close>).

  The client opens a connection for each request, so it uses the \<open>Network\<close> of the replication manager.
  The load generator keeps its connection; the sockets are the record \<open>Sockets\<close>: dial, close, and an
  exchange that writes bytes and gives the bytes that arrive in answer. What the programs print is part
  of the result, \<open>None\<close> is a panic. Flag parsing, the time at which a context ends and the numbers drawn
  by \<open>math/rand\<close> are arguments.
\<close>

section \<open>The client\<close>

definition maxRedirects :: nat where
  "maxRedirects = 5"

text \<open>
  \<open>strings.ToUpper\<close> on the letters that can become a letter of a command: the ASCII letters, the dotless i
  and the long s. Other letters outside ASCII keep their bytes here; no command contains one.
\<close>

fun ToUpper :: "string \<Rightarrow> string" where
  "ToUpper [] = []"
| "ToUpper (c # cs) =
     (case cs of
        d # ds \<Rightarrow>
          if c = CHR 0xC4 \<and> d = CHR 0xB1 then CHR ''I'' # ToUpper ds
          else if c = CHR 0xC5 \<and> d = CHR 0xBF then CHR ''S'' # ToUpper ds
          else (if of_char c \<in> {97..122 :: nat} then char_of (of_char c - 32 :: nat) else c) # ToUpper cs
      | [] \<Rightarrow> [if of_char c \<in> {97..122 :: nat} then char_of (of_char c - 32 :: nat) else c])"

definition buildRequest :: "(string \<Rightarrow> string) \<Rightarrow> string \<Rightarrow> string list \<Rightarrow> duration \<Rightarrow> string + Request" where
  "buildRequest quote command args ttl =
     (let cmd = ToUpper command; req = empty_Request\<lparr>rq_Command := cmd, rq_TTL := ttl\<rparr>
      in if cmd = CommandSet
         then (case args of
                 [k, v] \<Rightarrow> Inr (req\<lparr>rq_Key := k, rq_Value := Some v\<rparr>)
               | _ \<Rightarrow> Inl ''SET requires key and value'')
         else if cmd \<in> {CommandGet, CommandDelete, CommandOwner, CommandClusterLeave}
         then (case args of
                 [k] \<Rightarrow> Inr (req\<lparr>rq_Key := k\<rparr>)
               | _ \<Rightarrow> Inl (cmd @ '' requires key''))
         else if cmd = CommandClusterMembers
         then (if args \<noteq> [] then Inl ''CLUSTER_MEMBERS accepts no arguments'' else Inr req)
         else if cmd = CommandMetrics
         then (if args \<noteq> [] then Inl ''METRICS accepts no arguments'' else Inr req)
         else if cmd = CommandRaftStatus
         then (if args \<noteq> [] then Inl ''RAFT_STATUS accepts no arguments'' else Inr req)
         else if cmd = CommandClusterJoin
         then (case args of
                 [k, v] \<Rightarrow> Inr (req\<lparr>rq_Key := k, rq_Value := Some v\<rparr>)
               | _ \<Rightarrow> Inl ''CLUSTER_JOIN requires node-id and address'')
         else Inl (''unsupported command '' @ quote command))"

datatype client_error =
    EncodeRequestFailed go_error
  | ExchangeFailed string
  | ReadResponseFailed go_error

definition client_roundTrip ::
  "'w Network \<Rightarrow> string \<Rightarrow> duration \<Rightarrow> Request \<Rightarrow> 'w \<Rightarrow> ('w \<times> (client_error + Response)) option" where
  "client_roundTrip nw addr timeout req w =
     (case EncodeRequest req of
        Inl err \<Rightarrow> Some (w, Inl (EncodeRequestFailed err))
      | Inr payload \<Rightarrow>
          (case transfer nw w timeout (clock nw w + timeout) addr payload of
             (w', Inl err) \<Rightarrow> Some (w', Inl (ExchangeFailed err))
           | (w', Inr rd) \<Rightarrow>
               (case DecodeResponse rd of
                  Inl err \<Rightarrow> if err = RuntimePanic then None else Some (w', Inl (ReadResponseFailed err))
                | Inr (resp, _) \<Rightarrow> Some (w', Inr resp))))"

datatype client_outcome =
    Printed string
  | RequestFailed client_error
  | TooManyRedirects
  | ServerError string
  | UnexpectedKind ResponseKind
  | LoopLeft

definition outcome_exit :: "client_outcome \<Rightarrow> nat" where
  "outcome_exit oc = (case oc of Printed _ \<Rightarrow> 0 | LoopLeft \<Rightarrow> 0 | _ \<Rightarrow> 1)"

text \<open>What is done with a response that is not a redirect.\<close>

definition show_response :: "string \<Rightarrow> Response \<Rightarrow> client_outcome" where
  "show_response command resp =
     (case rs_Kind resp of
        ResponseOK \<Rightarrow> Printed (''OK'' @ [newline])
      | ResponseNotFound \<Rightarrow> Printed (''NOT_FOUND'' @ [newline])
      | ResponseValue \<Rightarrow>
          if command = CommandRaftStatus then Printed (''RAFT_STATUS '' @ rs_Value resp @ [newline])
          else if command = CommandMetrics then Printed (''METRICS '' @ rs_Value resp @ [newline])
          else Printed (''VALUE '' @ rs_Value resp @ [newline])
      | ResponseOwner \<Rightarrow> Printed (''OWNER '' @ rs_NodeID resp @ '' '' @ rs_Addr resp @ [newline])
      | ResponseMembers \<Rightarrow>
          Printed (''MEMBERS '' @ Itoa (length (rs_Members resp)) @ [newline] @
            concat (map (\<lambda>m. m_ID m @ '' '' @ m_Addr m @ [newline]) (rs_Members resp)))
      | ResponseError \<Rightarrow> ServerError (rs_Message resp)
      | kind \<Rightarrow> UnexpectedKind kind)"

text \<open>The loop of \<open>main\<close>, with the number of redirects followed.\<close>

function clientLoop ::
  "'w Network \<Rightarrow> duration \<Rightarrow> string \<Rightarrow> Request \<Rightarrow> nat \<Rightarrow> string \<Rightarrow> 'w \<Rightarrow> ('w \<times> client_outcome) option" where
  "clientLoop nw timeout command req redirects targetAddr w =
     (if maxRedirects < redirects then Some (w, LoopLeft)
      else case client_roundTrip nw targetAddr timeout req w of
        None \<Rightarrow> None
      | Some (w', Inl err) \<Rightarrow> Some (w', RequestFailed err)
      | Some (w', Inr resp) \<Rightarrow>
          if rs_Kind resp = ResponseMoved
          then if redirects = maxRedirects then Some (w', TooManyRedirects)
               else clientLoop nw timeout command req (redirects + 1) (rs_Addr resp) w'
          else if rs_Kind resp = ResponseNotLeader
          then if redirects = maxRedirects then Some (w', TooManyRedirects)
               else clientLoop nw timeout command req (redirects + 1) (if rs_Addr resp \<noteq> [] then rs_Addr resp else targetAddr) w'
          else Some (w', show_response command resp))"
  by pat_completeness auto
termination
  by (relation "measure (\<lambda>(nw, timeout, command, req, redirects, targetAddr, w). Suc maxRedirects - redirects)") auto

declare clientLoop.simps [simp del]

datatype client_exit = Usage | BadArguments string | Ran client_outcome

definition client_main ::
  "(string \<Rightarrow> string) \<Rightarrow> 'w Network \<Rightarrow> string \<Rightarrow> duration \<Rightarrow> duration \<Rightarrow> string list \<Rightarrow> 'w \<Rightarrow> ('w \<times> client_exit) option" where
  "client_main quote nw addr timeout ttl args w =
     (case args of
        [] \<Rightarrow> Some (w, Usage)
      | command # rest \<Rightarrow>
          (case buildRequest quote command rest ttl of
             Inl err \<Rightarrow> Some (w, BadArguments err)
           | Inr req \<Rightarrow> map_option (\<lambda>(w', oc). (w', Ran oc)) (clientLoop nw timeout command req 0 addr w)))"

section \<open>The load generator\<close>

record ('w, 'c) Sockets =
  so_now :: "'w \<Rightarrow> time"
  so_dial :: "'w \<Rightarrow> duration \<Rightarrow> string \<Rightarrow> 'w \<times> (string + 'c)"
  so_close :: "'w \<Rightarrow> 'c \<Rightarrow> 'w"
  so_exchange :: "'w \<Rightarrow> 'c \<Rightarrow> time \<Rightarrow> bytes \<Rightarrow> 'w \<times> (string + reader)"

text \<open>\<open>reader\<close> is what the buffered reader holds beyond the responses it has returned.\<close>

record 'c connSession =
  ss_addr :: string
  ss_conn :: "'c option"
  ss_reader :: string
  ss_addrMap :: "(string, string) gomap option"

definition session_close :: "('w, 'c) Sockets \<Rightarrow> 'c connSession \<times> 'w \<Rightarrow> 'c connSession \<times> 'w" where
  "session_close so = (\<lambda>(s, w).
     case ss_conn s of
       None \<Rightarrow> (s, w)
     | Some c \<Rightarrow> (s\<lparr>ss_conn := None, ss_reader := []\<rparr>, so_close so w c))"

definition session_connect ::
  "('w, 'c) Sockets \<Rightarrow> string \<Rightarrow> duration \<Rightarrow> 'c connSession \<times> 'w \<Rightarrow> ('c connSession \<times> 'w) \<times> string option" where
  "session_connect so addr timeout s0 =
     (case session_close so s0 of
        (s, w) \<Rightarrow>
          (case so_dial so w timeout addr of
             (w', Inl err) \<Rightarrow> ((s, w'), Some (''connect '' @ addr @ '': '' @ err))
           | (w', Inr c) \<Rightarrow> ((s\<lparr>ss_addr := addr, ss_conn := Some c, ss_reader := []\<rparr>, w'), None)))"

datatype addrMap_error = MissingEquals string | EmptyAddress string

fun parseAddrMap_loop :: "string list \<Rightarrow> (string, string) gomap \<Rightarrow> addrMap_error + (string, string) gomap" where
  "parseAddrMap_loop [] out = Inr out"
| "parseAddrMap_loop (part0 # parts) out =
     (let part = TrimSpace part0
      in if part = [] then parseAddrMap_loop parts out
         else case Cut part CHR ''='' of
           (f, t, ok) \<Rightarrow>
             if \<not> ok then Inl (MissingEquals part)
             else let from = TrimSpace f; to = TrimSpace t
                  in if from = [] \<or> to = [] then Inl (EmptyAddress part)
                     else parseAddrMap_loop parts (AList.update from to out))"

definition parseAddrMap :: "string \<Rightarrow> addrMap_error + (string, string) gomap option" where
  "parseAddrMap raw0 =
     (let raw = TrimSpace raw0
      in if raw = [] then Inr None
         else case parseAddrMap_loop (Split raw CHR '','') [] of
           Inl err \<Rightarrow> Inl err
         | Inr out \<Rightarrow> Inr (Some out))"

definition resolveAddr :: "string \<Rightarrow> (string, string) gomap option \<Rightarrow> string" where
  "resolveAddr addr addrMap =
     (case addrMap of
        None \<Rightarrow> addr
      | Some m \<Rightarrow> (case map_of m addr of Some mapped \<Rightarrow> mapped | None \<Rightarrow> addr))"

definition roundTripOnce ::
  "('w, 'c) Sockets \<Rightarrow> duration \<Rightarrow> Request \<Rightarrow> 'c connSession \<times> 'w \<Rightarrow> (('c connSession \<times> 'w) \<times> (client_error + Response)) option" where
  "roundTripOnce so timeout req = (\<lambda>(s, w).
     case EncodeRequest req of
       Inl err \<Rightarrow> Some ((s, w), Inl (EncodeRequestFailed err))
     | Inr payload \<Rightarrow>
         (case ss_conn s of
            None \<Rightarrow> None
          | Some c \<Rightarrow>
              (case so_exchange so w c (so_now so w + timeout) payload of
                 (w', Inl err) \<Rightarrow> Some ((s, w'), Inl (ExchangeFailed err))
               | (w', Inr rd) \<Rightarrow>
                   (case DecodeResponse (rd\<lparr>rd_buf := ss_reader s @ rd_buf rd\<rparr>) of
                      Inl err \<Rightarrow> if err = RuntimePanic then None else Some ((s, w'), Inl (ReadResponseFailed err))
                    | Inr (resp, rd') \<Rightarrow> Some ((s\<lparr>ss_reader := rd_buf rd'\<rparr>, w'), Inr resp)))))"

datatype load_error =
    ConnectFailed string
  | RoundTripFailed client_error
  | TooManyMoved
  | MovedWithoutAddress
  | TooManyNotLeader
  | LoadServerError string
  | UnexpectedLoadKind ResponseKind
  | TooManyRedirectsLeft

function redirectLoop ::
  "('w, 'c) Sockets \<Rightarrow> time \<Rightarrow> duration \<Rightarrow> Request \<Rightarrow> nat \<Rightarrow> string \<Rightarrow> 'c connSession \<times> 'w \<Rightarrow>
     (('c connSession \<times> 'w) \<times> (load_error + duration)) option" where
  "redirectLoop so start timeout req redirects target s =
     (if maxRedirects < redirects then Some (session_close so s, Inl TooManyRedirectsLeft)
      else
        case (if ss_conn (fst s) = None \<or> ss_addr (fst s) \<noteq> target then session_connect so target timeout s else (s, None)) of
          (s1, Some err) \<Rightarrow> Some (s1, Inl (ConnectFailed err))
        | (s1, None) \<Rightarrow>
            (case roundTripOnce so timeout req s1 of
               None \<Rightarrow> None
             | Some (s2, Inl err) \<Rightarrow> Some (session_close so s2, Inl (RoundTripFailed err))
             | Some (s2, Inr resp) \<Rightarrow>
                 if rs_Kind resp = ResponseMoved
                 then if redirects = maxRedirects then Some (session_close so s2, Inl TooManyMoved)
                      else if rs_Addr resp = [] then Some (session_close so s2, Inl MovedWithoutAddress)
                      else redirectLoop so start timeout req (redirects + 1) (resolveAddr (rs_Addr resp) (ss_addrMap (fst s2)))
                             (session_close so s2)
                 else if rs_Kind resp = ResponseNotLeader
                 then if redirects = maxRedirects then Some (session_close so s2, Inl TooManyNotLeader)
                      else redirectLoop so start timeout req (redirects + 1)
                             (if rs_Addr resp \<noteq> [] then resolveAddr (rs_Addr resp) (ss_addrMap (fst s2)) else target)
                             (session_close so s2)
                 else if rs_Kind resp \<in> {ResponseOK, ResponseNotFound, ResponseValue}
                 then Some (s2, Inr (so_now so (snd s2) - start))
                 else if rs_Kind resp = ResponseError then Some (s2, Inl (LoadServerError (rs_Message resp)))
                 else Some (s2, Inl (UnexpectedLoadKind (rs_Kind resp)))))"
  by pat_completeness auto
termination
  by (relation "measure (\<lambda>(so, start, timeout, req, redirects, target, s). Suc maxRedirects - redirects)") auto

declare redirectLoop.simps [simp del]

definition session_roundTripWithRedirects ::
  "('w, 'c) Sockets \<Rightarrow> string \<Rightarrow> duration \<Rightarrow> Request \<Rightarrow> 'c connSession \<times> 'w \<Rightarrow> (('c connSession \<times> 'w) \<times> (load_error + duration)) option" where
  "session_roundTripWithRedirects so startAddr timeout req s =
     redirectLoop so (so_now so (snd s)) timeout req 0 (resolveAddr startAddr (ss_addrMap (fst s))) s"

definition new_session :: "(string, string) gomap option \<Rightarrow> 'c connSession" where
  "new_session addrMap = \<lparr>ss_addr = [], ss_conn = None, ss_reader = [], ss_addrMap = addrMap\<rparr>"

definition roundTripWithRedirects ::
  "('w, 'c) Sockets \<Rightarrow> string \<Rightarrow> duration \<Rightarrow> Request \<Rightarrow> (string, string) gomap option \<Rightarrow> 'w \<Rightarrow> ('w \<times> (load_error + duration)) option" where
  "roundTripWithRedirects so startAddr timeout req addrMap w =
     map_option (\<lambda>(s, r). (snd (session_close so s), r)) (session_roundTripWithRedirects so startAddr timeout req (new_session addrMap, w))"

text \<open>The value of the writes; a negative size panics.\<close>

definition load_value :: "int \<Rightarrow> bytes option" where
  "load_value valueSize = (if valueSize < 0 then None else Some (map (\<lambda>i. char_of (97 + i mod 26)) [0..<nat valueSize]))"

text \<open>
  One iteration of a worker, on the numbers drawn in it: the key from \<open>Intn(keySpace)\<close>, which panics unless
  the argument is positive, and the fraction from \<open>Float64()\<close>.
\<close>

record load_config =
  lc_addr :: string
  lc_concurrency :: int
  lc_valueSize :: int
  lc_getRatio :: rat
  lc_keySpace :: int
  lc_timeout :: duration
  lc_addrMap :: string

definition load_iteration ::
  "('w, 'c) Sockets \<Rightarrow> load_config \<Rightarrow> bytes \<Rightarrow> nat \<times> rat \<Rightarrow> 'c connSession \<times> 'w \<Rightarrow> (('c connSession \<times> 'w) \<times> (load_error + duration)) option" where
  "load_iteration so lc val = (\<lambda>(k, f) s.
     if lc_keySpace lc \<le> 0 then None
     else let key = ''load-'' @ Itoa k;
              req = (if f < lc_getRatio lc then empty_Request\<lparr>rq_Command := CommandGet, rq_Key := key\<rparr>
                     else empty_Request\<lparr>rq_Command := CommandSet, rq_Key := key, rq_Value := Some val\<rparr>)
          in session_roundTripWithRedirects so (lc_addr lc) (lc_timeout lc) req s)"

text \<open>
  The workers, each with its session, and what they share: the counter of errors and the list of samples.
  The run is given as the sequence of iterations, with the worker and its draws; it ends with the context.
  An iteration is one step, since it touches the shared data only once, at its end.
\<close>

record 'c load_state =
  ld_sessions :: "'c connSession list"
  ld_errors :: int
  ld_samples :: "duration list"

fun load_run ::
  "('w, 'c) Sockets \<Rightarrow> load_config \<Rightarrow> bytes \<Rightarrow> (nat \<times> nat \<times> rat) list \<Rightarrow> 'c load_state \<times> 'w \<Rightarrow> ('c load_state \<times> 'w) option" where
  "load_run so lc val [] s = Some s"
| "load_run so lc val ((i, draw) # its) (st, w) =
     (if length (ld_sessions st) \<le> i then load_run so lc val its (st, w)
      else do {
        ((ss, w'), r) \<leftarrow> load_iteration so lc val draw (ld_sessions st ! i, w);
        let st1 = st\<lparr>ld_sessions := (ld_sessions st)[i := ss]\<rparr>;
        let st2 = (case r of
                     Inl _ \<Rightarrow> st1\<lparr>ld_errors := ld_errors st1 + 1\<rparr>
                   | Inr latency \<Rightarrow> st1\<lparr>ld_samples := ld_samples st1 @ [latency]\<rparr>);
        load_run so lc val its (st2, w') })"

definition close_all :: "('w, 'c) Sockets \<Rightarrow> 'c connSession list \<Rightarrow> 'w \<Rightarrow> 'w" where
  "close_all so sessions w = fold (\<lambda>s w. snd (session_close so (s, w))) sessions w"

text \<open>\<open>main\<close> after the flags are parsed, up to the output: the exit code 2 of an error, or the result.\<close>

datatype load_exit = BadRatio | BadAddrMap addrMap_error | Measured LoadResult

definition load_main :: "('w, 'c) Sockets \<Rightarrow> load_config \<Rightarrow> (nat \<times> nat \<times> rat) list \<Rightarrow> 'w \<Rightarrow> ('w \<times> load_exit) option" where
  "load_main so lc its w =
     (if lc_getRatio lc < 0 \<or> 1 < lc_getRatio lc then Some (w, BadRatio)
      else case parseAddrMap (lc_addrMap lc) of
        Inl err \<Rightarrow> Some (w, BadAddrMap err)
      | Inr addrMap \<Rightarrow> do {
          val \<leftarrow> load_value (lc_valueSize lc);
          let start = so_now so w;
          (st, w1) \<leftarrow> load_run so lc val its
            (\<lparr>ld_sessions = replicate (nat (lc_concurrency lc)) (new_session addrMap), ld_errors = 0, ld_samples = []\<rparr>, w);
          let w2 = close_all so (ld_sessions st) w1;
          Some (w2, Measured (SummarizeLoad (so_now so w2 - start) (lc_concurrency lc) (ld_samples st) (ld_errors st))) })"

section \<open>Lemmas\<close>

text \<open>The network with a log of the addresses it was asked for.\<close>

definition logged :: "'w Network \<Rightarrow> ('w \<times> string list) Network" where
  "logged nw = \<lparr>clock = (\<lambda>(w, l). clock nw w),
     transfer = (\<lambda>(w, l) t d addr payload. case transfer nw w t d addr payload of (w', r) \<Rightarrow> ((w', l @ [addr]), r))\<rparr>"

lemma client_roundTrip_logged:
  assumes "net_safe nw"
  obtains w' l' r where "client_roundTrip (logged nw) addr timeout req (w, l) = Some ((w', l'), r)"
    "l' = l \<and> (\<exists>e. r = Inl e) \<or> l' = l @ [addr]"
proof (cases "EncodeRequest req")
  case (Inl err)
  then show thesis using that [of w l "Inl (EncodeRequestFailed err)"] by (simp add: client_roundTrip_def)
next
  case (Inr payload)
  obtain w' r where tr: "transfer nw w timeout (clock nw w + timeout) addr payload = (w', r)" by fastforce
  show thesis
  proof (cases r)
    case (Inl err)
    then show thesis using that [of w' "l @ [addr]" "Inl (ExchangeFailed err)"] Inr tr by (simp add: client_roundTrip_def logged_def)
  next
    case rd: (Inr rd)
    have "DecodeResponse rd \<noteq> Inl RuntimePanic" using assms tr rd by (auto simp: net_safe_def)
    then show thesis
      using that Inr tr rd by (cases "DecodeResponse rd") (auto simp: client_roundTrip_def logged_def)
  qed
qed

lemma clientLoop_ends:
  assumes "net_safe nw" and "redirects \<le> maxRedirects"
  shows "\<exists>w' l' oc. clientLoop (logged nw) timeout command req redirects addr (w, l) = Some ((w', l @ l'), oc) \<and>
    length l' \<le> maxRedirects + 1 - redirects \<and> oc \<noteq> LoopLeft \<and> (oc = TooManyRedirects \<longrightarrow> length l' = maxRedirects + 1 - redirects) \<and>
    (l' \<noteq> [] \<longrightarrow> hd l' = addr)"
  using assms(2)
proof (induction "maxRedirects - redirects" arbitrary: redirects addr w l)
  case 0
  then have r: "redirects = maxRedirects" by simp
  obtain w1 l1 x where "client_roundTrip (logged nw) addr timeout req (w, l) = Some ((w1, l1), x)"
    "l1 = l \<and> (\<exists>e. x = Inl e) \<or> l1 = l @ [addr]" by (rule client_roundTrip_logged [OF assms(1)])
  then show ?case
    unfolding clientLoop.simps [of "logged nw" timeout command req redirects]
    by (auto simp: r show_response_def split: sum.split ResponseKind.split)
next
  case (Suc k)
  then have k: "k = maxRedirects - (redirects + 1)" "redirects + 1 \<le> maxRedirects" by auto
  note IH = Suc.hyps(1) [OF k]
  obtain w1 l1 x where x: "client_roundTrip (logged nw) addr timeout req (w, l) = Some ((w1, l1), x)"
    "l1 = l \<and> (\<exists>e. x = Inl e) \<or> l1 = l @ [addr]" by (rule client_roundTrip_logged [OF assms(1)])
  show ?case
  proof (cases "\<exists>resp. x = Inr resp \<and> rs_Kind resp \<in> {ResponseMoved, ResponseNotLeader}")
    case True
    then obtain resp where resp: "x = Inr resp" "rs_Kind resp \<in> {ResponseMoved, ResponseNotLeader}" by blast
    define next_addr where "next_addr = (if rs_Kind resp = ResponseMoved \<or> rs_Addr resp \<noteq> [] then rs_Addr resp else addr)"
    obtain w' l' oc where l': "clientLoop (logged nw) timeout command req (redirects + 1) next_addr (w1, l @ [addr]) = Some ((w', (l @ [addr]) @ l'), oc)"
      "length l' \<le> maxRedirects + 1 - (redirects + 1)" "oc \<noteq> LoopLeft" "oc = TooManyRedirects \<longrightarrow> length l' = maxRedirects + 1 - (redirects + 1)"
      using IH [of next_addr w1 "l @ [addr]"] by blast
    have "clientLoop (logged nw) timeout command req redirects addr (w, l) = Some ((w', l @ (addr # l')), oc)"
      using x resp l'(1) k(2) unfolding clientLoop.simps [of "logged nw" timeout command req redirects]
      by (auto simp: next_addr_def split: if_splits)
    then show ?thesis using l'(2-4) k(2) by (intro exI [of _ w'] exI [of _ "addr # l'"] exI [of _ oc]) auto
  next
    case False
    then show ?thesis
      using x k(2) unfolding clientLoop.simps [of "logged nw" timeout command req redirects]
      by (auto simp: show_response_def split: sum.split ResponseKind.split)
  qed
qed

subsection \<open>The load generator counts every iteration\<close>

lemma load_run_sessions: "load_run so lc val its (st, w) = Some (st', w') \<Longrightarrow> length (ld_sessions st') = length (ld_sessions st)"
proof (induction its arbitrary: st w)
  case (Cons it its)
  then show ?case
    by (cases it) (auto simp: Let_def split: if_splits bind_splits sum.splits dest!: Cons.IH)
qed simp

lemma load_run_counts:
  assumes "load_run so lc val its (st, w) = Some (st', w')" and "\<forall>(i, draw)\<in>set its. i < length (ld_sessions st)"
  shows "ld_errors st' + int (length (ld_samples st')) = ld_errors st + int (length (ld_samples st)) + int (length its)"
  using assms
proof (induction its arbitrary: st w)
  case (Cons it its)
  obtain i draw where it: "it = (i, draw)" by (cases it)
  then obtain ss w1 r where r: "load_iteration so lc val draw (ld_sessions st ! i, w) = Some ((ss, w1), r)"
    "load_run so lc val its
       (case r of Inl _ \<Rightarrow> st\<lparr>ld_sessions := (ld_sessions st)[i := ss], ld_errors := ld_errors st + 1\<rparr>
        | Inr l \<Rightarrow> st\<lparr>ld_sessions := (ld_sessions st)[i := ss], ld_samples := ld_samples st @ [l]\<rparr>, w1) = Some (st', w')"
    using Cons.prems by (auto simp: Let_def split: bind_splits sum.splits)
  then show ?case using Cons.IH [OF r(2)] Cons.prems(2) by (auto split: sum.splits)
qed simp

text \<open>Every iteration is an operation or an error of the report.\<close>

lemma load_main_counts:
  assumes "load_main so lc its w = Some (w', Measured res)" and "\<forall>(i, draw)\<in>set its. int i < lc_concurrency lc"
  shows "lr_Operations res + lr_Errors res = int (length its)"
proof -
  obtain m val st w1 where "load_run so lc val its
      (\<lparr>ld_sessions = replicate (nat (lc_concurrency lc)) (new_session m), ld_errors = 0, ld_samples = []\<rparr>, w) = Some (st, w1)"
    and "lr_Operations res = int (length (ld_samples st))" "lr_Errors res = ld_errors st"
    using assms(1) by (auto simp: load_main_def Let_def SummarizeLoad_def split: if_splits sum.splits bind_splits)
  then show ?thesis using load_run_counts [of so lc val its _ w st w1] assms(2) by fastforce
qed

section \<open>Properties\<close>



end
