(* ===== verification/Spec2Isabelle.thy ===== *)
theory Spec2Isabelle
  imports Cache_Store Wire_Protocol Cluster_View Raft_Log Raft_Transport Node_Process Debug_Server Clients
begin

text \<open>
  \<^bold>\<open>A verification of a distributed in-memory cache written in Go.\<close>

  \<^bold>\<open>The program.\<close> A node keeps keys with byte values and optional time to live in a store that evicts the
  least recently used entries under a memory limit. Clients and other nodes talk to it over TCP in a text
  protocol. In a cluster, a consistent hash ring with virtual nodes assigns every key an owner and a list of
  replicas; a node that is not responsible answers \<open>MOVED\<close> with the owner. A replication manager fans writes
  out to the replicas and collects read quorums, and a Raft log agrees on joins and leaves. A registry counts
  requests and latencies, and a debug HTTP server shows it. The other programs are a command line client, a
  load generator and a health probe.

  \<^bold>\<open>Theories, in the order of their imports\<close> (sources are below \<^verbatim>\<open>src/\<close>):

  \<^item> \<open>Prelude\<close>: types for Go's own types, named collections of facts, shared lemmas.
  \<^item> \<open>Go_Strings\<close>, \<open>Go_Sort\<close>: the functions of the standard library the program calls: trimming, splitting,
    decimal numbers, sorting and binary search.
  \<^item> \<open>Cache_Store\<close> (\<^verbatim>\<open>internal/cache/store.go\<close>): the record \<open>Store\<close> with map, LRU list and byte counter; \<open>Set\<close>,
    \<open>Get\<close>, \<open>Delete\<close>, eviction and cleanup. The invariant of any run, refinement of an abstract LRU map, what a
    read returns after a write, the error cases, independence of the order in which a Go map is traversed.
  \<^item> \<open>Wire_Protocol\<close> (\<^verbatim>\<open>internal/protocol/protocol.go\<close>): requests and responses, both encoders and both decoders
    on a buffered reader. Round trips with exact consumption of the input, soundness of the decoder on any
    bytes, the range of a decoded TTL, two inputs on which the code fails.
  \<^item> \<open>Hash_Ring\<close>, \<open>Cluster_View\<close> (\<^verbatim>\<open>internal/cluster\<close>): FNV-1a on 32-bit words, the ring, the membership view, the
    peer list and the movement estimates. Lookups follow the ring clockwise; joins and leaves move only the
    keys they must; the estimates are exact without collisions.
  \<^item> \<open>Raft_Node\<close>, \<open>Raft_Election\<close>, \<open>Raft_Log\<close> (\<^verbatim>\<open>internal/raft\<close>): one node as functions on its state, one for each stretch of
    code under the mutex, and a cluster as an inductive step relation with lost, delayed, repeated and reordered
    messages. No input makes a node index its log out of range; at most one leader in a term for clusters of odd
    size, and two for a cluster of four; a leader can be elected; what an accepted append does. \<open>Raft_Log\<close> has the
    log matching property of every reachable state, also for odd sizes.
  \<^item> \<open>Replication_Config\<close>, \<open>Replication_Manager\<close> (\<^verbatim>\<open>internal/replication\<close>): settings, health table, the RPC client
    and the manager. Valid settings, the outcome of a quorum read, what is left of a failed write; every operation
    returns.
  \<^item> \<open>Metrics_Registry\<close> (\<^verbatim>\<open>internal/metrics/registry.go\<close>, \<^verbatim>\<open>load.go\<close>): counters, ring buffers of samples, percentiles.
  \<^item> \<open>Cache_Server\<close> (\<^verbatim>\<open>internal/server/server.go\<close>): the record \<open>Server\<close> of a node, the dispatcher of every command,
    routing, the connection handler and the accept loop. A connection never breaks the server; pipelined requests
    are answered in order; the target of a redirect does not redirect again.
  \<^item> \<open>Cluster_World\<close>: servers connected with one another. A transfer on the network of the replication manager runs
    the connection handler of the server at that address. An acknowledged quorum write is seen by a quorum read.
  \<^item> \<open>Raft_Transport\<close> (\<^verbatim>\<open>internal/raft/transport.go\<close>, \<^verbatim>\<open>memory_transport.go\<close>, \<^verbatim>\<open>tcp_transport.go\<close>, the timer loop of
    \<^verbatim>\<open>node.go\<close>): RPCs in memory and over the cache protocol; a vote over TCP is a call of the handler.
  \<^item> \<open>Node_Start\<close>, \<open>Node_Process\<close> (\<^verbatim>\<open>cmd/node/main.go\<close>, \<^verbatim>\<open>internal/config\<close>, \<^verbatim>\<open>internal/discovery\<close>): how a node is put
    together, and the running node as a sequence of requests and turns of the background goroutines. Nodes with the
    same members agree on the placement of keys; a node that starts keeps running.
  \<^item> \<open>Debug_Server\<close> (\<^verbatim>\<open>internal/metrics/pprof.go\<close>, \<^verbatim>\<open>cmd/healthcheck/main.go\<close>): the routes of the debug server and the
    probe.
  \<^item> \<open>Clients\<close> (\<^verbatim>\<open>cmd/client/main.go\<close>, \<^verbatim>\<open>cmd/loadtest/main.go\<close>): the redirect loops end; the load generator accounts for
    every iteration.

  \<^bold>\<open>Interfaces.\<close> What a component promises to its clients is a locale, interpreted on the definitions of the model:
  \<open>kv_store\<close> (the store), \<open>placement\<close> (the ring and the cluster view), \<open>replica_net\<close> (the peers of the replication
  manager, interpreted on the connected servers) and \<open>raft_transport\<close> (both transports).

  \<^bold>\<open>Conventions.\<close> Strings and byte slices are lists of characters; a slice that may be \<open>nil\<close> is an option. A Go map
  is an association list, and a loop over it takes the order of traversal as an argument where the result could
  depend on it. Times and durations are integers in nanoseconds; 64-bit arithmetic that can leave its range wraps
  around explicitly, ring positions are 32-bit words. A struct is a record, a pointer that may be \<open>nil\<close> an option, an
  error a value of a sum or datatype, a panic the value \<open>None\<close>. The clock, random numbers, the network, sockets, the
  JSON codec and the profiling handlers are arguments; what the proofs need of them is a named hypothesis with a
  concrete instance in a witness. Code under a mutex is one step. Goroutines that a call starts and waits for run one
  after the other in an arbitrary order; longer interleavings are sequences of steps.

  \<^bold>\<open>Termination and bounds.\<close> Every function is total. The eviction loop is measured by the length of the list, the
  connection handler by the bytes left to read, the binary search by its interval, the redirect loops by the redirects
  left. \<open>cluster_net\<close> has a bound on how deep calls between servers nest; replica commands call nobody, so depth one
  serves every call of the manager, and the statements hold for every greater depth. \<open>process_env\<close> bounds how many
  waiting requests nest; its statements hold for every bound. \<open>maxAlloc\<close> is the size from which \<open>make\<close> panics on a
  64-bit machine.

  \<^bold>\<open>Not modelled.\<close> Logging and the request trace (\<^verbatim>\<open>internal/server/trace.go\<close>), which no other code reads; flag
  parsing, signals and the closing of listeners; the printed report of the load generator, which formats floating
  point numbers and durations; the bodies of \<open>net/http/pprof\<close>; the mutexes themselves and data races; the time that
  code takes to run; deployment files and scripts. In \<open>Raft_Election\<close> and \<open>Raft_Log\<close> the
  membership is fixed; membership changes are covered for a single node.
\<close>

end
